(* ===== verification/Prelude.thy ===== *)
theory Prelude
  imports Complex_Main "HOL-Library.Word"
begin

unbundle bit_operations_syntax

text \<open>
  What every component shares: the names of the machine types of the Go code, the
  wrap-around of its signed 64-bit integers, Go's truncated division, the state of a Go
  channel under \<open>close\<close>, and the generic facts on words and lists the component
  theories reuse.

  Conventions of the whole development:
  \<^item> \<open>uint32\<close> and \<open>uint64\<close> are words; \<open>+\<close> wraps as in Go;
  \<^item> \<open>int\<close>, \<open>int64\<close> and \<open>time.Duration\<close> are HOL integers, and every operation that can
    leave the 64-bit range goes through \<open>i64\<close>, which wraps;
  \<^item> \<open>time.Time\<close> is a HOL integer, the nanoseconds since Go's zero time. A \<open>Time\<close> holds
    its seconds in a field of its own, so adding a \<open>Duration\<close> does not wrap;
  \<^item> a panic is \<open>None\<close>.
\<close>

named_theorems go_simps \<open>defining equations that unfold small operations of the code\<close>

type_synonym u32 = "32 word"
type_synonym u64 = "64 word"
type_synonym duration = int
type_synonym gotime = int

definition i64 :: "int \<Rightarrow> int" where
  "i64 x = signed_take_bit 63 x"

text \<open>Go's integer division and remainder truncate towards zero.\<close>

definition go_div :: "int \<Rightarrow> int \<Rightarrow> int" where
  "go_div a b = sgn a * sgn b * (\<bar>a\<bar> div \<bar>b\<bar>)"

definition go_mod :: "int \<Rightarrow> int \<Rightarrow> int" where
  "go_mod a b = a - b * go_div a b"

text \<open>Go's zero \<open>Time\<close> is January 1, year 1; the Unix epoch is this many seconds later.\<close>

definition unix_offset :: int where
  "unix_offset = 62135596800"

definition nano :: int where
  "nano = 1000000000"

definition time_Unix :: "int \<Rightarrow> int \<Rightarrow> gotime" where
  "time_Unix sec nsec = (sec + unix_offset) * nano + nsec"

definition Time_Unix :: "gotime \<Rightarrow> int" where
  "Time_Unix t = t div nano - unix_offset"

text \<open>
  A channel as far as \<open>close\<close> and the panics around it are concerned. Closing a nil or a
  closed channel panics, and so does a send on a closed channel.
\<close>

datatype chan = ChanNil | ChanOpen | ChanClosed

fun close_chan :: "chan \<Rightarrow> chan option" where
  "close_chan ChanOpen = Some ChanClosed"
| "close_chan _ = None"

text \<open>Decimal digits, and integers as \<open>fmt.Sprintf("%v")\<close> prints them.\<close>

definition is_digit :: "char \<Rightarrow> bool" where
  "is_digit c = (48 \<le> (of_char c :: nat) \<and> (of_char c :: nat) \<le> 57)"

definition digit_val :: "char \<Rightarrow> nat" where
  "digit_val c = of_char c - 48"

definition digit_char :: "nat \<Rightarrow> char" where
  "digit_char d = char_of (48 + d)"

fun dec_nat :: "nat \<Rightarrow> string" where
  "dec_nat n = (if n < 10 then [digit_char n] else dec_nat (n div 10) @ [digit_char (n mod 10)])"

declare dec_nat.simps [simp del]

definition dec_int :: "int \<Rightarrow> string" where
  "dec_int n = (if n < 0 then CHR ''-'' # dec_nat (nat (- n)) else dec_nat (nat n))"

section \<open>Facts on integers\<close>

lemma i64_id: "- (2 ^ 63) \<le> x \<Longrightarrow> x < 2 ^ 63 \<Longrightarrow> i64 x = x"
  by (simp add: i64_def signed_take_bit_int_eq_self)

lemma i64_lower: "- (2 ^ 63) \<le> i64 x"
  unfolding i64_def by (rule signed_take_bit_int_greater_eq_minus_exp)

lemma i64_upper: "i64 x < 2 ^ 63"
  unfolding i64_def by (rule signed_take_bit_int_less_exp)

lemma go_div_pos: "0 \<le> a \<Longrightarrow> 0 < b \<Longrightarrow> go_div a b = a div b"
  by (cases "a = 0") (simp_all add: go_div_def)

lemma go_mod_pos: "0 \<le> a \<Longrightarrow> 0 < b \<Longrightarrow> go_mod a b = a mod b"
  by (simp add: go_mod_def go_div_pos minus_mult_div_eq_mod)

lemma go_div_mod: "b * go_div a b + go_mod a b = a"
  by (simp add: go_mod_def)

lemma ceil_div_char:
  fixes a b :: int
  assumes "0 < b"
  shows "(if a mod b > 0 then a div b + 1 else a div b) \<le> n \<longleftrightarrow> a \<le> n * b"
proof -
  have ab: "a = b * (a div b) + a mod b" and m: "0 \<le> a mod b" "a mod b < b"
    using assms by simp_all
  show ?thesis
  proof
    assume le: "(if a mod b > 0 then a div b + 1 else a div b) \<le> n"
    show "a \<le> n * b"
    proof (cases "a mod b > 0")
      case True
      with le have "(a div b + 1) * b \<le> n * b" using assms by (intro mult_right_mono) auto
      then have "b * (a div b) + b \<le> n * b" by (simp add: algebra_simps)
      with ab m show ?thesis by linarith
    next
      case False
      with le have "(a div b) * b \<le> n * b" using assms by (intro mult_right_mono) auto
      then have "b * (a div b) \<le> n * b" by (simp add: algebra_simps)
      with ab m False show ?thesis by linarith
    qed
  next
    assume le: "a \<le> n * b"
    have "a div b \<le> n * b div b" using le assms by (intro zdiv_mono1) auto
    then have d: "a div b \<le> n" using assms by simp
    moreover have "a div b \<noteq> n" if "a mod b > 0"
    proof
      assume "a div b = n"
      then have "a = b * n + a mod b" using ab by simp
      then show False using le that by (simp add: algebra_simps)
    qed
    ultimately show "(if a mod b > 0 then a div b + 1 else a div b) \<le> n" by auto
  qed
qed

section \<open>Facts on words\<close>

lemma not_minus_one: "NOT (x - 1) = - (x :: 'a::len word)"
  by (simp add: not_eq_complement)

lemma unat_of_nat_u32: "n < 2 ^ 32 \<Longrightarrow> unat (of_nat n :: u32) = n"
  by (simp add: unat_of_nat)

lemma unat_of_nat_u64: "n < 2 ^ 64 \<Longrightarrow> unat (of_nat n :: u64) = n"
  by (simp add: unat_of_nat)

lemma uint_of_int_u32: "0 \<le> n \<Longrightarrow> n < 2 ^ 32 \<Longrightarrow> uint (word_of_int n :: u32) = n"
  by (simp add: uint_word_of_int)

lemma uint_of_int_u64: "0 \<le> n \<Longrightarrow> n < 2 ^ 64 \<Longrightarrow> uint (word_of_int n :: u64) = n"
  by (simp add: uint_word_of_int)

lemma word_of_unat: "unat w = n \<Longrightarrow> w = of_nat n"
  by (metis of_nat_unat ucast_id)

section \<open>Facts on lists\<close>

lemma sum_list_update_group:
  fixes xs :: "'a::ab_group_add list"
  assumes "i < length xs"
  shows "sum_list (xs[i := v]) = sum_list xs + (v - xs ! i)"
  using assms
proof (induction xs arbitrary: i)
  case Nil
  then show ?case by simp
next
  case (Cons x xs)
  then show ?case by (cases i) (simp_all add: algebra_simps)
qed

lemma nth_updated: "j < length xs \<Longrightarrow> xs[i := v] ! j = (if j = i then v else xs ! j)"
  by (metis nth_list_update_eq nth_list_update_neq)

lemma sum_list_all_zero: "(\<And>x. x \<in> set xs \<Longrightarrow> f x = 0) \<Longrightarrow> sum_list (map f xs) = (0 :: 'b::comm_monoid_add)"
  by (induction xs) simp_all

text \<open>The summand at one position, separated from the others.\<close>

lemma sum_list_split_at:
  fixes f :: "'a \<Rightarrow> 'b::comm_monoid_add"
  assumes "i < length xs"
  obtains R where "\<And>v. sum_list (map f (xs[i := v])) = R + f v" "sum_list (map f xs) = R + f (xs ! i)"
proof
  let ?R = "sum_list (map f (take i xs)) + sum_list (map f (drop (Suc i) xs))"
  show u: "sum_list (map f (xs[i := v])) = ?R + f v" for v
    using assms by (simp add: upd_conv_take_nth_drop ac_simps)
  from u [of "xs ! i"] show "sum_list (map f xs) = ?R + f (xs ! i)" by simp
qed

lemma sum_list_rotate:
  fixes xs :: "'a::comm_monoid_add list"
  shows "sum_list (rotate n xs) = sum_list xs"
proof (induction n)
  case 0
  show ?case by simp
next
  case (Suc n)
  have "sum_list (rotate1 ys) = sum_list ys" for ys :: "'a list"
    by (cases ys) (simp_all add: add.commute)
  with Suc show ?case by simp
qed

lemma rotate_update_step:
  assumes "p < length xs"
  shows "rotate (Suc p mod length xs) (xs[p := v]) = tl (rotate p xs) @ [v]"
proof -
  have e: "rotate (Suc p) (xs[p := v]) = rotate1 (rotate p (xs[p := v]))" by simp
  have r: "rotate p (xs[p := v]) = v # tl (rotate p xs)"
    using assms by (simp add: rotate_drop_take upd_conv_take_nth_drop
        Cons_nth_drop_Suc [symmetric] min_def)
  have "rotate (Suc p mod length xs) (xs[p := v]) = rotate (Suc p) (xs[p := v])"
    by (subst rotate_conv_mod [of "Suc p"]) simp
  with e r show ?thesis by simp
qed

section \<open>A component inside a system\<close>

text \<open>
  \<open>view\<close> is the part of a system's state that belongs to one component: each step of the system
  leaves it alone or is a step of the component. Then what holds of every run of the component
  holds of it inside the system.
\<close>

locale simulation =
  fixes whole :: "'c \<Rightarrow> 'c \<Rightarrow> bool" and part :: "'a \<Rightarrow> 'a \<Rightarrow> bool" and view :: "'c \<Rightarrow> 'a"
  assumes step_view: "whole c c' \<Longrightarrow> view c' = view c \<or> part (view c) (view c')"
begin

lemma run_view: "whole\<^sup>*\<^sup>* c c' \<Longrightarrow> part\<^sup>*\<^sup>* (view c) (view c')"
proof (induction rule: rtranclp_induct)
  case base
  show ?case by simp
next
  case (step c' c'')
  with step_view [of c' c''] show ?case
    by (metis rtranclp.rtrancl_into_rtrancl)
qed

lemma invariant_view:
  assumes "whole\<^sup>*\<^sup>* c c'" and "I (view c)" and "\<And>a a'. part a a' \<Longrightarrow> I a \<Longrightarrow> I a'"
  shows "I (view c')"
  using run_view [OF assms(1)] assms(2,3) by (induction rule: rtranclp_induct) auto

end

section \<open>Facts on decimal strings\<close>

lemma of_char_digit: "d < 10 \<Longrightarrow> (of_char (digit_char d) :: nat) = 48 + d"
  by (simp add: digit_char_def)

lemma digit_char_digit: "d < 10 \<Longrightarrow> is_digit (digit_char d) \<and> digit_val (digit_char d) = d"
  by (simp add: is_digit_def digit_val_def of_char_digit)

lemma dec_nat_nonempty [simp]: "dec_nat n \<noteq> []"
  by (subst dec_nat.simps) simp

lemma dec_nat_digits: "\<forall>c \<in> set (dec_nat n). is_digit c"
proof (induction n rule: dec_nat.induct)
  case (1 n)
  show ?case
  proof (cases "n < 10")
    case True
    then show ?thesis by (subst dec_nat.simps) (simp add: digit_char_digit)
  next
    case False
    with "1.IH" show ?thesis by (subst dec_nat.simps) (auto simp: digit_char_digit)
  qed
qed

lemma hd_dec_nat: "is_digit (hd (dec_nat n))"
  using dec_nat_digits [of n] by (simp add: list.set_sel)

end
