(* ===== verification/Syncx.thy ===== *)
theory Syncx
  imports Prelude
begin

text \<open>
  The lock-free counters of package \<open>syncx\<close>. Each is one 64-bit word; every method is one
  atomic add, except \<open>Draw\<close> and \<open>Fold\<close>, which load the word and later subtract what they
  loaded. Those two take the list of the operations that other goroutines perform between
  the load and the subtraction, so the model covers every interleaving the documentation
  allows (one drawer, any number of incrementers).
\<close>

section \<open>Counter\<close>

definition Counter_Add :: "u64 \<Rightarrow> u64 \<Rightarrow> u64" where
  "Counter_Add f v = f + v"

definition Counter_Draw :: "u64 \<Rightarrow> u64 list \<Rightarrow> u64 \<times> u64" where
  "Counter_Draw f between =
     (let res = f;
          f' = foldl Counter_Add f between
      in (res, f' + NOT (res - 1)))"

section \<open>TickTockCounter\<close>

datatype tt_op = Tick | Tock

fun TickTockCounter_op :: "u64 \<Rightarrow> tt_op \<Rightarrow> u64" where
  "TickTockCounter_op c Tick = c + push_bit 32 1"
| "TickTockCounter_op c Tock = c + 1"

definition TickTockCounter_Fold :: "u64 \<Rightarrow> tt_op list \<Rightarrow> (u32 \<times> u32) \<times> u64" where
  "TickTockCounter_Fold c between =
     (let cntr = c;
          tocks = (ucast cntr :: u32);
          ticks = (ucast (drop_bit 32 cntr) :: u32);
          c' = foldl TickTockCounter_op c between
      in ((ticks, tocks),
          c' + NOT (push_bit 32 (ucast tocks) + ucast tocks - 1)))"

section \<open>TickTockFolder\<close>

fun TickTockFolder_op :: "u64 \<Rightarrow> tt_op \<Rightarrow> u64" where
  "TickTockFolder_op f Tick = f + 1"
| "TickTockFolder_op f Tock = f + ucast (NOT (0 :: u32))"

definition TickTockFolder_Draw :: "u64 \<Rightarrow> tt_op list \<Rightarrow> (u32 \<times> u32) \<times> u64" where
  "TickTockFolder_Draw f between =
     (let cntr = f;
          pending = (ucast cntr :: u32);
          cntr' = drop_bit 32 cntr;
          complete = (ucast cntr' :: u32);
          f' = foldl TickTockFolder_op f between
      in ((complete, pending), f' + NOT (push_bit 32 cntr' - 1)))"

section \<open>The two counts held in one word\<close>

text \<open>The upper and the lower half of a word, as numbers.\<close>

definition hi32 :: "u64 \<Rightarrow> nat" where
  "hi32 c = unat c div 2 ^ 32"

definition lo32 :: "u64 \<Rightarrow> nat" where
  "lo32 c = unat c mod 2 ^ 32"

definition pack :: "nat \<Rightarrow> nat \<Rightarrow> u64" where
  "pack t k = of_nat (t * 2 ^ 32 + k)"

text \<open>
  The documented rules of use of the two pair counters: a \<open>Tock\<close> follows its \<open>Tick\<close>, and no
  count outgrows its 32 bits.
\<close>

fun ttc_legal :: "u64 \<Rightarrow> tt_op \<Rightarrow> bool" where
  "ttc_legal c Tick = (hi32 c + 1 < 2 ^ 32)"
| "ttc_legal c Tock = (lo32 c < hi32 c)"

fun ttf_legal :: "u64 \<Rightarrow> tt_op \<Rightarrow> bool" where
  "ttf_legal f Tick = (lo32 f + 1 < 2 ^ 32)"
| "ttf_legal f Tock = (0 < lo32 f \<and> hi32 f + 1 < 2 ^ 32)"

fun is_tock :: "tt_op \<Rightarrow> nat" where
  "is_tock Tick = 0"
| "is_tock Tock = 1"

fun is_tick :: "tt_op \<Rightarrow> nat" where
  "is_tick Tick = 1"
| "is_tick Tock = 0"

section \<open>Drawing from a counter: the interface\<close>

text \<open>
  A run of a counter: single operations, and draws during which further operations happen.
\<close>

datatype 'o drawer_event = Incr 'o | DrawDuring "'o list"

fun all_along :: "('s \<Rightarrow> 'o \<Rightarrow> bool) \<Rightarrow> ('s \<Rightarrow> 'o \<Rightarrow> 's) \<Rightarrow> 's \<Rightarrow> 'o list \<Rightarrow> bool" where
  "all_along ok add s [] = True"
| "all_along ok add s (x # xs) = (ok s x \<and> all_along ok add (add s x) xs)"

fun drawer_run ::
  "('s \<Rightarrow> 'o \<Rightarrow> 's) \<Rightarrow> ('s \<Rightarrow> 'o list \<Rightarrow> 'r \<times> 's) \<Rightarrow> 's \<Rightarrow> 'o drawer_event list \<Rightarrow> 'r list \<times> 's" where
  "drawer_run add draw s [] = ([], s)"
| "drawer_run add draw s (Incr x # es) = drawer_run add draw (add s x) es"
| "drawer_run add draw s (DrawDuring xs # es) =
     (let (r, s') = draw s xs; (rs, s'') = drawer_run add draw s' es in (r # rs, s''))"

fun drawer_legal ::
  "('s \<Rightarrow> 'o \<Rightarrow> bool) \<Rightarrow> ('s \<Rightarrow> 'o \<Rightarrow> 's) \<Rightarrow> ('s \<Rightarrow> 'o list \<Rightarrow> 'r \<times> 's) \<Rightarrow> 's \<Rightarrow>
   'o drawer_event list \<Rightarrow> bool" where
  "drawer_legal ok add draw s [] = True"
| "drawer_legal ok add draw s (Incr x # es) =
     (ok s x \<and> drawer_legal ok add draw (add s x) es)"
| "drawer_legal ok add draw s (DrawDuring xs # es) =
     (all_along ok add s xs \<and> drawer_legal ok add draw (snd (draw s xs)) es)"

fun event_ops :: "'o drawer_event list \<Rightarrow> 'o list" where
  "event_ops [] = []"
| "event_ops (Incr x # es) = x # event_ops es"
| "event_ops (DrawDuring xs # es) = xs @ event_ops es"

text \<open>
  The contract the governor relies on when it samples a counter: an increment adds its
  amount to what is held, a draw returns what was held at its load and leaves exactly what
  arrived in between.
\<close>

locale drawer =
  fixes add :: "'s \<Rightarrow> 'o \<Rightarrow> 's"
    and draw :: "'s \<Rightarrow> 'o list \<Rightarrow> 'r \<times> 's"
    and held :: "'s \<Rightarrow> 'v::comm_monoid_add"
    and amount :: "'o \<Rightarrow> 'v"
    and returned :: "'r \<Rightarrow> 'v"
    and inv :: "'s \<Rightarrow> bool"
    and legal :: "'s \<Rightarrow> 'o \<Rightarrow> bool"
  assumes add_inv: "inv s \<Longrightarrow> legal s x \<Longrightarrow> inv (add s x)"
    and add_held: "inv s \<Longrightarrow> legal s x \<Longrightarrow> held (add s x) = held s + amount x"
    and draw_inv: "inv s \<Longrightarrow> all_along legal add s xs \<Longrightarrow> inv (snd (draw s xs))"
    and draw_returned: "inv s \<Longrightarrow> all_along legal add s xs \<Longrightarrow> returned (fst (draw s xs)) = held s"
    and draw_held: "inv s \<Longrightarrow> all_along legal add s xs \<Longrightarrow>
      held (snd (draw s xs)) = sum_list (map amount xs)"
begin

lemma conservation:
  assumes "inv s" and "drawer_legal legal add draw s es"
  shows "sum_list (map returned (fst (drawer_run add draw s es)))
           + held (snd (drawer_run add draw s es))
         = held s + sum_list (map amount (event_ops es))"
  using assms
proof (induction es arbitrary: s)
  case Nil
  then show ?case by simp
next
  case (Cons e es)
  show ?case
  proof (cases e)
    case (Incr x)
    with Cons show ?thesis by (simp add: add_inv add_held add.assoc)
  next
    case (DrawDuring xs)
    with Cons.prems have l: "inv s" "all_along legal add s xs" by simp_all
    have "sum_list (map returned (fst (drawer_run add draw (snd (draw s xs)) es)))
           + held (snd (drawer_run add draw (snd (draw s xs)) es))
         = held (snd (draw s xs)) + sum_list (map amount (event_ops es))"
      using Cons.prems DrawDuring by (intro Cons.IH draw_inv) auto
    with l DrawDuring show ?thesis
      by (simp add: case_prod_beta Let_def draw_returned draw_held add.assoc)
  qed
qed

lemma run_inv:
  "inv s \<Longrightarrow> drawer_legal legal add draw s es \<Longrightarrow> inv (snd (drawer_run add draw s es))"
proof (induction es arbitrary: s)
  case Nil
  then show ?case by simp
next
  case (Cons e es)
  then show ?case
    by (cases e) (simp_all add: add_inv draw_inv case_prod_beta Let_def)
qed

end

section \<open>Arithmetic of the packed word\<close>

lemma unat_u64_less: "unat (c :: u64) < 2 ^ 64"
  using unsigned_less [where 'a = nat and w = c] by simp

lemma hi_less: "hi32 c < 2 ^ 32"
  using unat_u64_less [of c] by (simp add: hi32_def less_mult_imp_div_less)

lemma lo_less: "lo32 c < 2 ^ 32"
  by (simp add: lo32_def)

lemma pack_hi_lo: "pack (hi32 c) (lo32 c) = c"
  by (simp add: pack_def hi32_def lo32_def)

lemma unat_pack: "t < 2 ^ 32 \<Longrightarrow> k < 2 ^ 32 \<Longrightarrow> unat (pack t k) = t * 2 ^ 32 + k"
  unfolding pack_def by (rule unat_of_nat_u64) simp

lemma hi_pack [simp]: "t < 2 ^ 32 \<Longrightarrow> k < 2 ^ 32 \<Longrightarrow> hi32 (pack t k) = t"
  by (simp add: hi32_def unat_pack)

lemma lo_pack [simp]: "t < 2 ^ 32 \<Longrightarrow> k < 2 ^ 32 \<Longrightarrow> lo32 (pack t k) = k"
  by (simp add: lo32_def unat_pack)

lemma unat_lower_half: "unat (ucast c :: u32) = lo32 c"
  by (simp add: lo32_def unsigned_ucast_eq take_bit_eq_mod)

lemma unat_upper_half: "unat (ucast (drop_bit 32 c) :: u32) = hi32 c"
proof -
  have "unat (drop_bit 32 c) = hi32 c"
    unfolding hi32_def by (simp only: unat_drop_bit_eq) (simp only: drop_bit_eq_div)
  with hi_less [of c] show ?thesis
    by (simp add: unsigned_ucast_eq take_bit_eq_mod)
qed

lemma pack_Tick: "pack t k + push_bit 32 1 = pack (t + 1) k"
  by (simp add: pack_def)

lemma pack_Tock: "pack t k + 1 = pack t (k + 1)"
  by (simp add: pack_def)

lemma pack_minus: "a \<le> t \<Longrightarrow> b \<le> k \<Longrightarrow> pack t k - pack a b = pack (t - a) (k - b)"
  by (simp add: pack_def of_nat_diff algebra_simps)

lemma lower_half_word: "ucast (ucast c :: u32) = (of_nat (lo32 c) :: u64)"
proof -
  have "unat (ucast (ucast c :: u32) :: u64) = lo32 c"
    using lo_less [of c] unat_lower_half [of c]
    by (simp only: unsigned_ucast_eq [where w = "ucast c :: u32"]) (simp add: take_bit_eq_mod)
  moreover have "unat (of_nat (lo32 c) :: u64) = lo32 c"
    using lo_less [of c] by (simp add: unat_of_nat_u64)
  ultimately show ?thesis by (metis word_unat_eq_iff)
qed

lemma fold_Counter_Add: "foldl Counter_Add f xs = f + sum_list xs"
  by (induction xs arbitrary: f) (simp_all add: Counter_Add_def add.assoc)

lemma Counter_Draw_eq: "Counter_Draw f xs = (f, sum_list xs)"
  by (simp add: Counter_Draw_def Let_def fold_Counter_Add not_minus_one)

lemma ttc_op_Tick: "ttc_legal c Tick \<Longrightarrow> TickTockCounter_op c Tick = pack (hi32 c + 1) (lo32 c)"
  using pack_Tick [of "hi32 c" "lo32 c"] by (simp add: pack_hi_lo)

lemma ttc_op_Tock: "TickTockCounter_op c Tock = pack (hi32 c) (lo32 c + 1)"
  using pack_Tock [of "hi32 c" "lo32 c"] by (simp add: pack_hi_lo)

lemma ttc_op_hi: "ttc_legal c x \<Longrightarrow> hi32 (TickTockCounter_op c x) = hi32 c + is_tick x"
  using hi_less [of c] lo_less [of c]
  by (cases x) (simp_all add: ttc_op_Tick ttc_op_Tock del: TickTockCounter_op.simps)

lemma ttc_op_lo: "ttc_legal c x \<Longrightarrow> lo32 (TickTockCounter_op c x) = lo32 c + is_tock x"
  using hi_less [of c] lo_less [of c]
  by (cases x) (simp_all add: ttc_op_Tick ttc_op_Tock del: TickTockCounter_op.simps)

lemma ttc_run_halves:
  assumes "all_along ttc_legal TickTockCounter_op c xs"
  shows "hi32 (foldl TickTockCounter_op c xs) = hi32 c + sum_list (map is_tick xs) \<and>
         lo32 (foldl TickTockCounter_op c xs) = lo32 c + sum_list (map is_tock xs)"
  using assms
  by (induction xs arbitrary: c) (simp_all add: ttc_op_hi ttc_op_lo del: TickTockCounter_op.simps)

lemma ttc_legal_order: "lo32 c \<le> hi32 c \<Longrightarrow> ttc_legal c x \<Longrightarrow>
    lo32 (TickTockCounter_op c x) \<le> hi32 (TickTockCounter_op c x)"
  by (cases x) (auto simp: ttc_op_hi ttc_op_lo simp del: TickTockCounter_op.simps)

lemma ttc_run_order:
  "lo32 c \<le> hi32 c \<Longrightarrow> all_along ttc_legal TickTockCounter_op c xs \<Longrightarrow>
   lo32 (foldl TickTockCounter_op c xs) \<le> hi32 (foldl TickTockCounter_op c xs)"
  by (induction xs arbitrary: c) (simp_all add: ttc_legal_order del: TickTockCounter_op.simps)

lemma Fold_subtrahend:
  "push_bit 32 (ucast (ucast c :: u32)) + ucast (ucast c :: u32) = pack (lo32 c) (lo32 c)"
  by (simp add: lower_half_word pack_def push_bit_eq_mult)

lemma TickTockCounter_Fold_eq:
  assumes ord: "lo32 c \<le> hi32 c" and legal: "all_along ttc_legal TickTockCounter_op c xs"
  shows "unat (fst (fst (TickTockCounter_Fold c xs))) = hi32 c"
    and "unat (snd (fst (TickTockCounter_Fold c xs))) = lo32 c"
    and "snd (TickTockCounter_Fold c xs)
         = pack (hi32 c - lo32 c + sum_list (map is_tick xs)) (sum_list (map is_tock xs))"
proof -
  let ?c' = "foldl TickTockCounter_op c xs"
  show "unat (fst (fst (TickTockCounter_Fold c xs))) = hi32 c"
    by (simp add: TickTockCounter_Fold_def Let_def unat_upper_half)
  show "unat (snd (fst (TickTockCounter_Fold c xs))) = lo32 c"
    by (simp add: TickTockCounter_Fold_def Let_def unat_lower_half)
  have "snd (TickTockCounter_Fold c xs) = ?c' - pack (lo32 c) (lo32 c)"
    by (simp only: TickTockCounter_Fold_def Let_def snd_conv not_minus_one Fold_subtrahend) simp
  also have "\<dots> = pack (hi32 ?c') (lo32 ?c') - pack (lo32 c) (lo32 c)"
    by (simp only: pack_hi_lo)
  also have "\<dots> = pack (hi32 ?c' - lo32 c) (lo32 ?c' - lo32 c)"
    using ord ttc_run_halves [OF legal] by (intro pack_minus) simp_all
  finally show "snd (TickTockCounter_Fold c xs)
         = pack (hi32 c - lo32 c + sum_list (map is_tick xs)) (sum_list (map is_tock xs))"
    using ord ttc_run_halves [OF legal] by simp
qed


text \<open>The same for \<open>TickTockFolder\<close>: complete pairs above, pending ones below.\<close>

lemma ttf_op_Tick: "TickTockFolder_op f Tick = pack (hi32 f) (lo32 f + 1)"
  using pack_Tock [of "hi32 f" "lo32 f"] by (simp add: pack_hi_lo)

lemma ucast_max32: "ucast (- 1 :: u32) = (4294967295 :: u64)"
  by code_simp

lemma ttf_op_Tock:
  assumes "0 < lo32 f"
  shows "TickTockFolder_op f Tock = pack (hi32 f + 1) (lo32 f - 1)"
proof -
  have "TickTockFolder_op f Tock = pack (hi32 f) (lo32 f) + (2 ^ 32 - 1)"
    by (simp add: pack_hi_lo ucast_max32)
  also have "\<dots> = pack (hi32 f) (lo32 f) + push_bit 32 1 - 1" by simp
  also have "\<dots> = pack (hi32 f + 1) (lo32 f) - pack 0 1"
    by (simp only: pack_Tick) (simp add: pack_def)
  also have "\<dots> = pack (hi32 f + 1) (lo32 f - 1)"
    using assms by (subst pack_minus) auto
  finally show ?thesis .
qed

lemma ttf_op_hi: "ttf_legal f x \<Longrightarrow> hi32 (TickTockFolder_op f x) = hi32 f + is_tock x"
  using hi_less [of f] lo_less [of f]
  by (cases x) (simp_all add: ttf_op_Tick ttf_op_Tock del: TickTockFolder_op.simps)

lemma ttf_op_lo: "ttf_legal f x \<Longrightarrow> lo32 (TickTockFolder_op f x) + is_tock x = lo32 f + is_tick x"
  using hi_less [of f] lo_less [of f]
  by (cases x) (simp_all add: ttf_op_Tick ttf_op_Tock del: TickTockFolder_op.simps)

lemma ttf_run_halves:
  assumes "all_along ttf_legal TickTockFolder_op f xs"
  shows "hi32 (foldl TickTockFolder_op f xs) = hi32 f + sum_list (map is_tock xs) \<and>
         lo32 (foldl TickTockFolder_op f xs) + sum_list (map is_tock xs)
           = lo32 f + sum_list (map is_tick xs)"
  using assms
proof (induction xs arbitrary: f)
  case Nil
  then show ?case by simp
next
  case (Cons x xs)
  then have "ttf_legal f x" and "all_along ttf_legal TickTockFolder_op (TickTockFolder_op f x) xs"
    by simp_all
  with Cons.IH [of "TickTockFolder_op f x"] ttf_op_hi [of f x] ttf_op_lo [of f x]
  show ?case by simp
qed

lemma TickTockFolder_Draw_eq:
  assumes legal: "all_along ttf_legal TickTockFolder_op f xs"
  shows "unat (fst (fst (TickTockFolder_Draw f xs))) = hi32 f"
    and "unat (snd (fst (TickTockFolder_Draw f xs))) = lo32 f"
    and "snd (TickTockFolder_Draw f xs)
         = pack (sum_list (map is_tock xs)) (lo32 (foldl TickTockFolder_op f xs))"
proof -
  let ?f' = "foldl TickTockFolder_op f xs"
  show "unat (fst (fst (TickTockFolder_Draw f xs))) = hi32 f"
    by (simp add: TickTockFolder_Draw_def Let_def unat_upper_half)
  show "unat (snd (fst (TickTockFolder_Draw f xs))) = lo32 f"
    by (simp add: TickTockFolder_Draw_def Let_def unat_lower_half)
  have sub: "push_bit 32 (drop_bit 32 f) = pack (hi32 f) 0"
  proof -
    have "unat (drop_bit 32 f) = hi32 f"
      unfolding hi32_def by (simp only: unat_drop_bit_eq) (simp only: drop_bit_eq_div)
    then have "drop_bit 32 f = (of_nat (hi32 f) :: u64)"
      by (rule word_of_unat)
    then show ?thesis by (simp add: pack_def push_bit_eq_mult)
  qed
  have "snd (TickTockFolder_Draw f xs) = ?f' - pack (hi32 f) 0"
    by (simp only: TickTockFolder_Draw_def Let_def snd_conv not_minus_one sub) simp
  also have "\<dots> = pack (hi32 ?f') (lo32 ?f') - pack (hi32 f) 0"
    by (simp only: pack_hi_lo)
  also have "\<dots> = pack (hi32 ?f' - hi32 f) (lo32 ?f' - 0)"
    using ttf_run_halves [OF legal] by (intro pack_minus) simp_all
  finally show "snd (TickTockFolder_Draw f xs)
         = pack (sum_list (map is_tock xs)) (lo32 ?f')"
    using ttf_run_halves [OF legal] by simp
qed

section \<open>The three counters are drawers\<close>

lemma ttc_tocks_small:
  assumes "all_along ttc_legal TickTockCounter_op c xs" and "lo32 c \<le> hi32 c"
  shows "sum_list (map is_tock xs) < 2 ^ 32"
    and "hi32 c - lo32 c + sum_list (map is_tick xs) < 2 ^ 32"
    and "sum_list (map is_tock xs) \<le> hi32 c - lo32 c + sum_list (map is_tick xs)"
  using ttc_run_halves [OF assms(1)] ttc_run_order [OF assms(2,1)] assms(2)
    hi_less [of "foldl TickTockCounter_op c xs"] lo_less [of "foldl TickTockCounter_op c xs"]
  by simp_all

interpretation ctr: drawer Counter_Add Counter_Draw "\<lambda>f. f" "\<lambda>v. v" "\<lambda>r. r" "\<lambda>_. True" "\<lambda>_ _. True"
  by unfold_locales (simp_all add: Counter_Add_def Counter_Draw_eq)

interpretation ttc: drawer TickTockCounter_op TickTockCounter_Fold lo32 is_tock
    "\<lambda>r. unat (snd r)" "\<lambda>c. lo32 c \<le> hi32 c" ttc_legal
proof unfold_locales
  fix c xs
  assume c: "lo32 c \<le> hi32 c" and l: "all_along ttc_legal TickTockCounter_op c xs"
  note small = ttc_tocks_small [OF l c] and eq = TickTockCounter_Fold_eq [OF c l]
  show "lo32 (snd (TickTockCounter_Fold c xs)) \<le> hi32 (snd (TickTockCounter_Fold c xs))"
    using small by (simp add: eq(3))
  show "unat (snd (fst (TickTockCounter_Fold c xs))) = lo32 c" by (rule eq(2))
  show "lo32 (snd (TickTockCounter_Fold c xs)) = sum_list (map is_tock xs)"
    using small by (simp add: eq(3))
qed (use ttc_legal_order in \<open>auto simp: ttc_op_lo simp del: TickTockCounter_op.simps\<close>)

interpretation ttf: drawer TickTockFolder_op TickTockFolder_Draw hi32 is_tock
    "\<lambda>r. unat (fst r)" "\<lambda>_. True" ttf_legal
proof unfold_locales
  fix f xs
  assume l: "all_along ttf_legal TickTockFolder_op f xs"
  note eq = TickTockFolder_Draw_eq [OF l]
  have "sum_list (map is_tock xs) < 2 ^ 32"
    using ttf_run_halves [OF l] hi_less [of "foldl TickTockFolder_op f xs"] by simp
  then show "hi32 (snd (TickTockFolder_Draw f xs)) = sum_list (map is_tock xs)"
    using lo_less [of "foldl TickTockFolder_op f xs"] by (simp add: eq(3))
  show "unat (fst (fst (TickTockFolder_Draw f xs))) = hi32 f" by (rule eq(1))
qed (simp_all add: ttf_op_hi del: TickTockFolder_op.simps)

lemma always_legal:
  "all_along (\<lambda>_ _. True) add s xs" "drawer_legal (\<lambda>_ _. True) add draw s es"
proof -
  show a: "all_along (\<lambda>_ _. True) add s xs" for s xs by (induction xs arbitrary: s) simp_all
  show "drawer_legal (\<lambda>_ _. True) add draw s es"
  proof (induction es arbitrary: s)
    case (Cons e es)
    then show ?case by (cases e) (simp_all add: a)
  qed simp
qed

section \<open>Properties\<close>

text \<open>
  \<open>Counter.Draw\<close> drops and double-counts nothing: whatever is added between the load and
  the subtraction of each draw, the values drawn and what is left in the counter make up
  everything that was added (modulo \<open>2 ^ 64\<close>).
\<close>

theorem Counter_conservation:
  "sum_list (fst (drawer_run Counter_Add Counter_Draw 0 es))
     + snd (drawer_run Counter_Add Counter_Draw 0 es) = sum_list (event_ops es)"
  using ctr.conservation [of 0 es] by (simp add: always_legal)

text \<open>
  C24. \<open>TickTockCounter.Fold\<close> is exact under interleaving: when the counts are balanced (never
  more tocks than ticks, neither beyond 32 bits), it returns the two counts as they were at its
  load, and leaves the surplus of ticks plus everything that was ticked and tocked meanwhile;
  neither half disturbs the other.
\<close>

theorem Fold_exact:
  assumes "lo32 c \<le> hi32 c" and "all_along ttc_legal TickTockCounter_op c xs"
  shows "unat (fst (fst (TickTockCounter_Fold c xs))) = hi32 c \<and>
         unat (snd (fst (TickTockCounter_Fold c xs))) = lo32 c \<and>
         hi32 (snd (TickTockCounter_Fold c xs)) = hi32 c - lo32 c + sum_list (map is_tick xs) \<and>
         lo32 (snd (TickTockCounter_Fold c xs)) = sum_list (map is_tock xs)"
  using TickTockCounter_Fold_eq [OF assms] ttc_tocks_small [OF assms(2,1)] by simp

theorem Fold_exact_witness:
  "lo32 (snd (TickTockCounter_Fold (pack 3 2) [Tick, Tock, Tock])) = 2 \<and>
   hi32 (snd (TickTockCounter_Fold (pack 3 2) [Tick, Tock, Tock])) = 2"
proof -
  have "all_along ttc_legal TickTockCounter_op (pack 3 2) [Tick, Tock, Tock]"
    by (simp add: pack_def hi32_def lo32_def)
  from Fold_exact [OF _ this] show ?thesis by simp
qed

text \<open>
  C25. Over any run of a \<open>TickTockCounter\<close> that starts at zero and is used as documented, the
  tocks that the folds return and the tocks still held are all the tocks there were.
\<close>

theorem TickTockCounter_conservation:
  assumes "drawer_legal ttc_legal TickTockCounter_op TickTockCounter_Fold 0 es"
  shows "sum_list (map (\<lambda>r. unat (snd r)) (fst (drawer_run TickTockCounter_op TickTockCounter_Fold 0 es)))
           + lo32 (snd (drawer_run TickTockCounter_op TickTockCounter_Fold 0 es))
         = sum_list (map is_tock (event_ops es))"
  using ttc.conservation [OF _ assms] by (simp add: lo32_def hi32_def)

theorem TickTockCounter_conservation_witness:
  "sum_list (map (\<lambda>r. unat (snd r)) (fst (drawer_run TickTockCounter_op TickTockCounter_Fold 0
       [Incr Tick, Incr Tick, Incr Tock, DrawDuring [Tock]])))
     + lo32 (snd (drawer_run TickTockCounter_op TickTockCounter_Fold 0
       [Incr Tick, Incr Tick, Incr Tock, DrawDuring [Tock]])) = 2"
proof -
  have "drawer_legal ttc_legal TickTockCounter_op TickTockCounter_Fold 0
      [Incr Tick, Incr Tick, Incr Tock, DrawDuring [Tock]]"
    by (simp add: hi32_def lo32_def)
  from TickTockCounter_conservation [OF this] show ?thesis by simp
qed

text \<open>
  The same for \<open>TickTockFolder\<close>: the complete pairs its draws return, with those it still
  holds, are all the pairs there were, whatever happens during the draws.
\<close>

theorem TickTockFolder_conservation:
  assumes "drawer_legal ttf_legal TickTockFolder_op TickTockFolder_Draw 0 es"
  shows "sum_list (map (\<lambda>r. unat (fst r)) (fst (drawer_run TickTockFolder_op TickTockFolder_Draw 0 es)))
           + hi32 (snd (drawer_run TickTockFolder_op TickTockFolder_Draw 0 es))
         = sum_list (map is_tock (event_ops es))"
  using ttf.conservation [OF _ assms] by (simp add: hi32_def)

theorem TickTockFolder_conservation_witness:
  "sum_list (map (\<lambda>r. unat (fst r)) (fst (drawer_run TickTockFolder_op TickTockFolder_Draw 0
       [Incr Tick, Incr Tick, Incr Tock, DrawDuring [Tock]])))
     + hi32 (snd (drawer_run TickTockFolder_op TickTockFolder_Draw 0
       [Incr Tick, Incr Tick, Incr Tock, DrawDuring [Tock]])) = 2"
proof -
  have "drawer_legal ttf_legal TickTockFolder_op TickTockFolder_Draw 0
      [Incr Tick, Incr Tick, Incr Tock, DrawDuring [Tock]]"
    by (simp add: hi32_def lo32_def ucast_max32)
  from TickTockFolder_conservation [OF this] show ?thesis by simp
qed

end
