(* ===== verification/Floats.thy ===== *)
theory Floats
  imports Prelude
begin

text \<open>
  Go's \<open>float32\<close> and \<open>float64\<close>, as far as the code computes with them: finite values are
  rationals, every operation rounds to nearest even in the format's precision, overflow
  gives an infinity, \<open>0/0\<close> and \<open>0 * Inf\<close> give NaN. The sign of zero is not kept: no
  conversion or comparison of the code can see it, and no divisor of the code is a
  negative zero.

  A conversion to an integer type truncates. Where the value does not fit the target type
  the Go specification leaves the result to the implementation: there the conversions
  take it from a parameter \<open>oor\<close>, and no property depends on its choice.
\<close>

section \<open>Rounding\<close>

datatype fp = Fin rat | PosInf | NegInf | NaN

record fmt =
  prec :: nat
  qmin :: int
  emax :: nat

definition f32 :: fmt where
  "f32 = \<lparr>prec = 24, qmin = - 149, emax = 128\<rparr>"

definition f64 :: fmt where
  "f64 = \<lparr>prec = 53, qmin = - 1074, emax = 1024\<rparr>"

definition rne :: "rat \<Rightarrow> int" where
  "rne x = (let f = \<lfloor>x\<rfloor>; d = x - of_int f
            in if d < 1 / 2 then f
               else if d > 1 / 2 then f + 1
               else if even f then f else f + 1)"

function ilog2 :: "int \<Rightarrow> nat" where
  "ilog2 n = (if n < 2 then 0 else Suc (ilog2 (n div 2)))"
  by pat_completeness auto
termination
  by (relation "measure nat") auto

declare ilog2.simps [simp del]

text \<open>Powers of two with an integer exponent, and the exponent of a positive rational.\<close>

definition two_to :: "int \<Rightarrow> rat" where
  "two_to e = (if 0 \<le> e then 2 ^ nat e else 1 / 2 ^ nat (- e))"

definition fexp :: "rat \<Rightarrow> int" where
  "fexp q = (if 1 \<le> q then int (ilog2 \<lfloor>q\<rfloor>)
             else - int (Suc (ilog2 (\<lceil>1 / q\<rceil> - 1))))"

definition round_to :: "nat \<Rightarrow> int \<Rightarrow> rat \<Rightarrow> rat" where
  "round_to p qm q =
     (if q = 0 then 0
      else let e = max (fexp \<bar>q\<bar> - (int p - 1)) qm
           in of_int (rne (q / two_to e)) * two_to e)"

definition round_fp :: "fmt \<Rightarrow> rat \<Rightarrow> fp" where
  "round_fp f q =
     (let r = round_to (prec f) (qmin f) q
      in if r = 0 \<or> fexp \<bar>r\<bar> < int (emax f) then Fin r
         else if 0 < r then PosInf else NegInf)"

section \<open>Operations\<close>

fun fp_neg :: "fp \<Rightarrow> fp" where
  "fp_neg (Fin q) = Fin (- q)"
| "fp_neg PosInf = NegInf"
| "fp_neg NegInf = PosInf"
| "fp_neg NaN = NaN"

definition inf_times :: "fp \<Rightarrow> rat \<Rightarrow> fp" where
  "inf_times x q = (if q = 0 then NaN else if 0 < q then x else fp_neg x)"

fun fp_mul :: "fmt \<Rightarrow> fp \<Rightarrow> fp \<Rightarrow> fp" where
  "fp_mul f (Fin a) (Fin b) = round_fp f (a * b)"
| "fp_mul f NaN y = NaN"
| "fp_mul f x NaN = NaN"
| "fp_mul f (Fin a) y = inf_times y a"
| "fp_mul f x (Fin b) = inf_times x b"
| "fp_mul f x y = (if x = y then PosInf else NegInf)"

fun fp_div :: "fmt \<Rightarrow> fp \<Rightarrow> fp \<Rightarrow> fp" where
  "fp_div f (Fin a) (Fin b) =
     (if b = 0 then (if a = 0 then NaN else if 0 < a then PosInf else NegInf)
      else round_fp f (a / b))"
| "fp_div f NaN y = NaN"
| "fp_div f x NaN = NaN"
| "fp_div f (Fin a) y = Fin 0"
| "fp_div f x (Fin b) = (if 0 \<le> b then x else fp_neg x)"
| "fp_div f x y = NaN"

text \<open>Ordered comparison; every comparison with NaN is false.\<close>

fun fp_less :: "fp \<Rightarrow> fp \<Rightarrow> bool" where
  "fp_less (Fin a) (Fin b) = (a < b)"
| "fp_less (Fin a) PosInf = True"
| "fp_less NegInf (Fin b) = True"
| "fp_less NegInf PosInf = True"
| "fp_less _ _ = False"

fun fp_le :: "fp \<Rightarrow> fp \<Rightarrow> bool" where
  "fp_le NaN y = False"
| "fp_le x NaN = False"
| "fp_le x y = (\<not> fp_less y x)"

definition fp_of_int :: "fmt \<Rightarrow> int \<Rightarrow> fp" where
  "fp_of_int f n = round_fp f (of_int n)"

definition rat_trunc :: "rat \<Rightarrow> int" where
  "rat_trunc q = (if 0 \<le> q then \<lfloor>q\<rfloor> else \<lceil>q\<rceil>)"

text \<open>Conversion to an integer type with the values \<open>l \<le> v < h\<close>.\<close>

fun fp_to_int :: "(fp \<Rightarrow> int) \<Rightarrow> int \<Rightarrow> int \<Rightarrow> fp \<Rightarrow> int" where
  "fp_to_int oor l h (Fin q) =
     (if l \<le> rat_trunc q \<and> rat_trunc q < h then rat_trunc q else oor (Fin q))"
| "fp_to_int oor l h x = oor x"

definition fp_to_u32 :: "(fp \<Rightarrow> int) \<Rightarrow> fp \<Rightarrow> u32" where
  "fp_to_u32 oor x = word_of_int (fp_to_int oor 0 (2 ^ 32) x)"

definition fp_to_u64 :: "(fp \<Rightarrow> int) \<Rightarrow> fp \<Rightarrow> u64" where
  "fp_to_u64 oor x = word_of_int (fp_to_int oor 0 (2 ^ 64) x)"

definition fp_to_i64 :: "(fp \<Rightarrow> int) \<Rightarrow> fp \<Rightarrow> int" where
  "fp_to_i64 oor x = i64 (fp_to_int oor (- (2 ^ 63)) (2 ^ 63) x)"

section \<open>Rounding is exact on representable values\<close>

lemma ilog2_bounds: "0 < n \<Longrightarrow> 2 ^ ilog2 n \<le> n \<and> n < 2 ^ Suc (ilog2 n)"
proof (induction n rule: ilog2.induct)
  case (1 n)
  show ?case
  proof (cases "n < 2")
    case True
    with "1.prems" have "n = 1" by simp
    then show ?thesis by (simp add: ilog2.simps [of 1])
  next
    case False
    with "1.IH" have "2 ^ ilog2 (n div 2) \<le> n div 2" "n div 2 < 2 ^ Suc (ilog2 (n div 2))"
      by simp_all
    then have "2 * 2 ^ ilog2 (n div 2) \<le> n" "n < 2 * 2 ^ Suc (ilog2 (n div 2))"
      by linarith+
    with False show ?thesis by (simp add: ilog2.simps [of n])
  qed
qed

lemma two_to_pos [simp]: "0 < two_to e"
  by (simp add: two_to_def)

lemma two_to_nonzero [simp]: "two_to e \<noteq> 0"
  using two_to_pos [of e] by linarith

lemma abs_two_to [simp]: "\<bar>two_to e\<bar> = two_to e"
  by (simp add: less_imp_le)

lemma two_to_add: "two_to (a + b) = two_to a * two_to b"
proof -
  have pow: "two_to e = 2 powi e" for e
    by (simp add: two_to_def power_int_def inverse_eq_divide power_one_over)
  show ?thesis by (simp add: pow power_int_add)
qed

lemma two_to_nonneg: "0 \<le> e \<Longrightarrow> two_to e = of_int (2 ^ nat e)"
  by (simp add: two_to_def)

lemma two_to_mono: "a \<le> b \<Longrightarrow> two_to a \<le> two_to b"
proof -
  assume "a \<le> b"
  then have "1 \<le> two_to (b - a)" by (simp add: two_to_def)
  then have "two_to a * 1 \<le> two_to a * two_to (b - a)"
    by (intro mult_left_mono) (simp_all add: less_imp_le)
  then show "two_to a \<le> two_to b" by (simp flip: two_to_add)
qed

lemma fexp_le: assumes "0 < q" shows "two_to (fexp q) \<le> q"
proof (cases "1 \<le> q")
  case True
  then have "2 ^ ilog2 \<lfloor>q\<rfloor> \<le> \<lfloor>q\<rfloor>" using ilog2_bounds [of "\<lfloor>q\<rfloor>"] by simp
  then have "of_int (2 ^ ilog2 \<lfloor>q\<rfloor>) \<le> q" by (simp only: le_floor_iff)
  then show ?thesis using True by (simp add: fexp_def two_to_def)
next
  case False
  let ?m = "\<lceil>1 / q\<rceil> - 1"
  have "1 < 1 / q" using False assms by (simp add: field_simps)
  then have "0 < ?m" by linarith
  then have "\<lceil>1 / q\<rceil> \<le> 2 ^ Suc (ilog2 ?m)" using ilog2_bounds [of ?m] by linarith
  then have "1 / q \<le> 2 ^ Suc (ilog2 ?m)"
    by (metis ceiling_le_iff of_int_numeral of_int_power)
  then have "1 / 2 ^ Suc (ilog2 ?m) \<le> q" using assms by (simp add: field_simps)
  then show ?thesis using False by (simp add: fexp_def two_to_def nat_add_distrib)
qed

lemma rne_of_int [simp]: "rne (of_int k) = k"
  by (simp add: rne_def)

definition representable :: "nat \<Rightarrow> int \<Rightarrow> rat \<Rightarrow> bool" where
  "representable p qm q \<longleftrightarrow> (\<exists>m e. q = of_int m * two_to e \<and> \<bar>m\<bar> < 2 ^ p \<and> qm \<le> e)"

lemma round_to_exact:
  assumes "representable p qm q"
  shows "round_to p qm q = q"
proof (cases "q = 0")
  case True
  then show ?thesis by (simp add: round_to_def)
next
  case False
  obtain m e where q: "q = of_int m * two_to e" and m: "\<bar>m\<bar> < 2 ^ p" and e: "qm \<le> e"
    using assms by (auto simp: representable_def)
  define E where "E = max (fexp \<bar>q\<bar> - (int p - 1)) qm"
  have "E \<le> e"
  proof (rule ccontr)
    assume "\<not> E \<le> e"
    with e have "e + int p \<le> fexp \<bar>q\<bar>" by (auto simp: E_def)
    then have "two_to e * two_to (int p) \<le> \<bar>q\<bar>"
      using fexp_le [of "\<bar>q\<bar>"] False two_to_mono [of "e + int p" "fexp \<bar>q\<bar>"]
      by (simp add: two_to_add)
    moreover have "\<bar>q\<bar> = of_int \<bar>m\<bar> * two_to e"
      using two_to_pos [of e] by (simp add: q abs_mult)
    moreover have "(of_int \<bar>m\<bar> :: rat) < of_int (2 ^ p)"
      using m by (simp only: of_int_less_iff)
    moreover have "two_to (int p) = of_int (2 ^ p)" by (simp add: two_to_def)
    ultimately have "two_to e * of_int (2 ^ p) \<le> of_int \<bar>m\<bar> * two_to e"
      and lt: "(of_int \<bar>m\<bar> :: rat) < of_int (2 ^ p)" by simp_all
    then have "of_int (2 ^ p) \<le> (of_int \<bar>m\<bar> :: rat)"
      using two_to_pos [of e] by (simp only: mult.commute [of "two_to e"] mult_le_cancel_right_pos)
    with lt show False by linarith
  qed
  have "q / two_to E = of_int m * two_to (e - E)"
    using two_to_add [of "e - E" E] by (simp add: q)
  also have "\<dots> = of_int (m * 2 ^ nat (e - E))"
    using \<open>E \<le> e\<close> by (simp add: two_to_nonneg)
  finally have quot: "q / two_to E = of_int (m * 2 ^ nat (e - E))" .
  then have "rne (q / two_to E) = m * 2 ^ nat (e - E)" by (simp only: rne_of_int)
  moreover have "of_int (m * 2 ^ nat (e - E)) * two_to E = q"
    using quot two_to_nonzero [of E] by (metis nonzero_eq_divide_eq)
  ultimately show ?thesis using False by (simp add: round_to_def E_def Let_def)
qed

lemma representable_int:
  assumes "\<bar>m\<bar> \<le> 2 ^ p" and "qm \<le> 0" and "0 < p"
  shows "representable p qm (of_int m)"
proof (cases "\<bar>m\<bar> = 2 ^ p")
  case False
  with assms have "of_int m = of_int m * two_to 0 \<and> \<bar>m\<bar> < 2 ^ p \<and> qm \<le> 0"
    by (simp add: two_to_def)
  then show ?thesis unfolding representable_def by blast
next
  case True
  have "of_int m = of_int (sgn m) * two_to (int p)"
    using True mult_sgn_abs [of m]
    by (metis of_int_mult two_to_nonneg nat_int of_nat_0_le_iff)
  moreover have "\<bar>sgn m\<bar> < 2 ^ p" using assms(3) True by (simp add: abs_sgn_eq)
  moreover have "qm \<le> int p" using assms(2) by simp
  ultimately show ?thesis unfolding representable_def by blast
qed

section \<open>Rounding between powers of two\<close>

lemma fexp_gt: assumes "0 < q" shows "q < two_to (fexp q + 1)"
proof (cases "1 \<le> q")
  case True
  then have "\<lfloor>q\<rfloor> < 2 ^ Suc (ilog2 \<lfloor>q\<rfloor>)" using ilog2_bounds [of "\<lfloor>q\<rfloor>"] by simp
  then have "q < of_int (2 ^ Suc (ilog2 \<lfloor>q\<rfloor>))" by (simp only: floor_less_iff)
  then show ?thesis using True by (simp add: fexp_def two_to_def nat_add_distrib)
next
  case False
  let ?m = "\<lceil>1 / q\<rceil> - 1"
  have "1 < 1 / q" using False assms by (simp add: field_simps)
  then have "0 < ?m" by linarith
  then have "2 ^ ilog2 ?m < \<lceil>1 / q\<rceil>" using ilog2_bounds [of ?m] by linarith
  then have "of_int (2 ^ ilog2 ?m) < 1 / q" by (simp only: less_ceiling_iff)
  then have "q < 1 / 2 ^ ilog2 ?m" using assms by (simp add: field_simps)
  then show ?thesis using False by (simp add: fexp_def two_to_def)
qed

lemma two_to_less_imp: "two_to a < two_to b \<Longrightarrow> a < b"
  using two_to_mono [of b a] by (cases "a < b") auto

lemma fexp_less: "0 < q \<Longrightarrow> q < two_to k \<Longrightarrow> fexp q < k"
  using fexp_le [of q] by (intro two_to_less_imp) auto

lemma fexp_ge: "two_to k \<le> q \<Longrightarrow> k \<le> fexp q"
  using fexp_gt [of q] two_to_pos [of k] two_to_less_imp [of k "fexp q + 1"] by fastforce

lemma rne_ge: "of_int k \<le> x \<Longrightarrow> k \<le> rne x"
proof -
  assume "of_int k \<le> x"
  then have "k \<le> \<lfloor>x\<rfloor>" by (simp add: le_floor_iff)
  then show ?thesis by (auto simp: rne_def Let_def)
qed

lemma rne_le: "x \<le> of_int k \<Longrightarrow> rne x \<le> k"
proof -
  assume x: "x \<le> of_int k"
  show ?thesis
  proof (cases "x = of_int k")
    case False
    with x have "\<lfloor>x\<rfloor> < k" by (simp add: floor_less_iff)
    then show ?thesis by (auto simp: rne_def Let_def)
  qed simp
qed

text \<open>Up to \<open>2 ^ p\<close> rounding never crosses an integer.\<close>

lemma round_to_grid:
  assumes q: "0 < q" "q \<le> of_int (2 ^ p)" and fmt: "qm \<le> 0" "0 < p"
  shows "of_int k \<le> q \<Longrightarrow> of_int k \<le> round_to p qm q"
    and "q \<le> of_int k \<Longrightarrow> round_to p qm q \<le> of_int k"
proof -
  define E where "E = max (fexp \<bar>q\<bar> - (int p - 1)) qm"
  have rt: "round_to p qm q = of_int (rne (q / two_to E)) * two_to E"
    using q(1) by (simp add: round_to_def E_def Let_def)
  have exact: "round_to p qm q = q" if "\<not> E \<le> 0"
  proof -
    have "int p \<le> fexp q" using that q(1) fmt by (auto simp: E_def)
    then have "two_to (int p) \<le> q" using fexp_le [OF q(1)] two_to_mono by (blast intro: order_trans)
    with q(2) have "q = of_int (2 ^ p)" by (simp add: two_to_def)
    then show ?thesis
      using representable_int [of "2 ^ p" p qm] fmt by (simp add: round_to_exact)
  qed
  have grid: "of_int (k * 2 ^ nat (- E)) * two_to E = of_int k" if "E \<le> 0"
    using that two_to_add [of "- E" E] by (simp add: two_to_nonneg two_to_def [of 0])
  show "of_int k \<le> round_to p qm q" if k: "of_int k \<le> q"
  proof (cases "E \<le> 0")
    case True
    have "of_int (k * 2 ^ nat (- E)) \<le> q / two_to E"
      using grid [OF True] k by (simp only: le_divide_eq two_to_pos if_True)
    then have "k * 2 ^ nat (- E) \<le> rne (q / two_to E)" by (rule rne_ge)
    then have "of_int (k * 2 ^ nat (- E)) * two_to E \<le> of_int (rne (q / two_to E)) * two_to E"
      by (intro mult_right_mono) (simp_all only: of_int_le_iff less_imp_le two_to_pos)
    then show ?thesis by (simp only: grid [OF True] rt)
  next
    case False
    then show ?thesis using exact k by simp
  qed
  show "round_to p qm q \<le> of_int k" if k: "q \<le> of_int k"
  proof (cases "E \<le> 0")
    case True
    have "q / two_to E \<le> of_int (k * 2 ^ nat (- E))"
      using grid [OF True] k by (simp only: divide_le_eq two_to_pos if_True)
    then have "rne (q / two_to E) \<le> k * 2 ^ nat (- E)" by (rule rne_le)
    then have "of_int (rne (q / two_to E)) * two_to E \<le> of_int (k * 2 ^ nat (- E)) * two_to E"
      by (intro mult_right_mono) (simp_all only: of_int_le_iff less_imp_le two_to_pos)
    then show ?thesis by (simp only: grid [OF True] rt)
  next
    case False
    then show ?thesis using exact k by simp
  qed
qed

lemma round_fp_exact:
  assumes "representable (prec f) (qmin f) q" and "\<bar>q\<bar> < two_to (int (emax f))"
  shows "round_fp f q = Fin q"
proof (cases "q = 0")
  case False
  then have "fexp \<bar>q\<bar> < int (emax f)" using assms(2) by (intro fexp_less) simp_all
  with assms(1) show ?thesis by (simp add: round_fp_def round_to_exact)
qed (simp add: round_fp_def round_to_def)

lemma f64_int:
  assumes "\<bar>m\<bar> \<le> 2 ^ 53"
  shows "round_fp f64 (of_int m) = Fin (of_int m)"
proof (rule round_fp_exact)
  show "representable (prec f64) (qmin f64) (of_int m)"
    using assms by (intro representable_int) (simp_all add: f64_def)
  have "(of_int \<bar>m\<bar> :: rat) \<le> of_int (2 ^ 53)" using assms by (simp only: of_int_le_iff)
  also have "\<dots> = two_to 53" by (simp add: two_to_def)
  also have "\<dots> < two_to 1024" by (simp add: two_to_def)
  finally show "\<bar>of_int m\<bar> < two_to (int (emax f64))" by (simp add: f64_def)
qed

lemma f32_int:
  assumes "\<bar>m\<bar> \<le> 2 ^ 24"
  shows "round_fp f32 (of_int m) = Fin (of_int m)"
proof (rule round_fp_exact)
  show "representable (prec f32) (qmin f32) (of_int m)"
    using assms by (intro representable_int) (simp_all add: f32_def)
  have "(of_int \<bar>m\<bar> :: rat) \<le> of_int (2 ^ 24)" using assms by (simp only: of_int_le_iff)
  also have "\<dots> = two_to 24" by (simp add: two_to_def)
  also have "\<dots> < two_to 128" by (simp add: two_to_def)
  finally show "\<bar>of_int m\<bar> < two_to (int (emax f32))" by (simp add: f32_def)
qed

text \<open>A value between two integers stays there when it is rounded.\<close>

lemma f64_between:
  assumes "0 < q" and "of_int a \<le> q" and "q \<le> of_int b" and "b \<le> 2 ^ 53"
  shows "\<exists>r. round_fp f64 q = Fin r \<and> of_int a \<le> r \<and> r \<le> of_int b"
proof -
  let ?r = "round_to 53 (- 1074) q"
  have b: "(of_int b :: rat) \<le> of_int (2 ^ 53)" using assms(4) by (simp only: of_int_le_iff)
  then have q53: "q \<le> of_int (2 ^ 53)" using assms(3) by (rule order_trans [rotated])
  note g = round_to_grid [OF assms(1) q53, of "- 1074"]
  have r: "of_int a \<le> ?r" "?r \<le> of_int b" "of_int 0 \<le> ?r"
    using g(1) [of a] g(2) [of b] g(1) [of 0] assms by simp_all
  have "?r < two_to 1024"
  proof -
    have "?r \<le> of_int (2 ^ 53)" using r(2) b by (rule order_trans)
    also have "\<dots> = two_to 53" by (simp add: two_to_def)
    also have "\<dots> < two_to 1024" by (simp add: two_to_def)
    finally show ?thesis .
  qed
  then have "?r = 0 \<or> fexp \<bar>?r\<bar> < 1024" using r(3) fexp_less [of ?r 1024]
    by (cases "?r = 0") (auto simp: less_le)
  with r show ?thesis by (auto simp: round_fp_def f64_def)
qed

end
