(* ===== verification/Scale.thy ===== *)
theory Scale
  imports Floats
begin

text \<open>
  Package \<open>scale\<close>: the three predefined scalers. The parameter \<open>oor\<close> is the implementation-defined result of an out-of-range
  conversion of a float to an integer.
\<close>

section \<open>Scalers\<close>

datatype scale = Constant | Incremental u32 | Exponential fp

fun IsValid :: "scale \<Rightarrow> bool" where
  "IsValid Constant = True"
| "IsValid (Incremental s) = (1 \<le> s)"
| "IsValid (Exponential s) = fp_less (Fin 1) s"

fun Apply :: "(fp \<Rightarrow> int) \<Rightarrow> scale \<Rightarrow> u32 \<Rightarrow> u32" where
  "Apply oor Constant n = n"
| "Apply oor (Incremental s) n = n + s"
| "Apply oor (Exponential s) n =
     (let res = fp_to_u32 oor (fp_mul f32 s (fp_of_int f32 (uint n)))
      in if res \<le> n then n + 1 else res)"

fun ApplyInverse :: "(fp \<Rightarrow> int) \<Rightarrow> scale \<Rightarrow> u32 \<Rightarrow> u32" where
  "ApplyInverse oor Constant n = n"
| "ApplyInverse oor (Incremental s) n = (if s > n then 0 else n - s)"
| "ApplyInverse oor (Exponential s) n =
     (let res = fp_to_u32 oor (fp_div f32 (fp_of_int f32 (uint n)) s)
      in if res \<ge> n \<and> n > 0 then n - 1 else res)"

text \<open>The largest growth that \<open>Apply\<close> may need room for before its result wraps.\<close>

fun headroom :: "scale \<Rightarrow> nat" where
  "headroom Constant = 0"
| "headroom (Incremental s) = unat s"
| "headroom (Exponential s) = 1"

text \<open>
  The contract of the \<open>Scale\<close> interface that the governor's scaling decisions rely on:
  scaling up does not go down while the count has room to grow, winding down does not go
  up.
\<close>

locale scaler =
  fixes up :: "u32 \<Rightarrow> u32"
    and down :: "u32 \<Rightarrow> u32"
    and room :: nat
  assumes up_ge: "unat n + room < 2 ^ 32 \<Longrightarrow> n \<le> up n"
    and down_le: "0 < n \<Longrightarrow> down n \<le> n"
begin

lemma clamp_up:
  assumes "unat n + room < 2 ^ 32" and "n \<le> hi"
  shows "n \<le> min hi (max lo (up n))"
  using assms up_ge [of n] by (auto simp: min_def max_def)

lemma clamp_down:
  assumes "0 < n" and "lo \<le> n"
  shows "min hi (max lo (down n)) \<le> n"
  using assms down_le [of n] by (auto simp: min_def max_def)

end

lemma word_less_add_one: "unat (n :: u32) + 1 < 2 ^ 32 \<Longrightarrow> n < n + 1"
  by (simp add: word_less_nat_alt unat_word_ariths)

interpretation const_sc: scaler "Apply oor Constant" "ApplyInverse oor Constant" "headroom Constant"
  for oor
  by unfold_locales simp_all

interpretation incr_sc: scaler "Apply oor (Incremental s)" "ApplyInverse oor (Incremental s)"
    "headroom (Incremental s)" for oor s
proof unfold_locales
  fix n :: u32
  assume "unat n + headroom (Incremental s) < 2 ^ 32"
  then show "n \<le> Apply oor (Incremental s) n"
    by (simp add: word_le_nat_alt unat_word_ariths)
next
  fix n :: u32
  show "ApplyInverse oor (Incremental s) n \<le> n"
    by (simp add: word_le_nat_alt unat_sub word_less_nat_alt)
qed

interpretation exp_sc: scaler "Apply oor (Exponential s)" "ApplyInverse oor (Exponential s)"
    "headroom (Exponential s)" for oor s
proof unfold_locales
  fix n :: u32
  assume "unat n + headroom (Exponential s) < 2 ^ 32"
  then have "n < n + 1" by (intro word_less_add_one) simp
  then show "n \<le> Apply oor (Exponential s) n" by (auto simp: Let_def)
next
  fix n :: u32
  assume "0 < n"
  then have "n - 1 \<le> n" by (simp add: word_le_nat_alt unat_sub word_less_nat_alt)
  with \<open>0 < n\<close> show "ApplyInverse oor (Exponential s) n \<le> n" by (auto simp: Let_def)
qed

section \<open>Properties\<close>

text \<open>
  Every valid scaler makes progress: whatever the floating-point product rounds or
  overflows to, scaling a count up by a scaler other than \<open>Constant\<close> gives a larger count (as
  long as there is room below \<open>2 ^ 32\<close>), and winding a positive count down gives a smaller one.
\<close>

theorem scaler_progress:
  assumes "IsValid sc" and "sc \<noteq> Constant" and "unat n + headroom sc < 2 ^ 32"
  shows "n < Apply oor sc n \<and> (0 < n \<longrightarrow> ApplyInverse oor sc n < n)"
proof (cases sc)
  case Constant
  with assms(2) show ?thesis by simp
next
  case (Incremental s)
  with assms have "0 < unat s" "unat n + unat s < 2 ^ 32"
    by (auto simp: word_le_nat_alt)
  with Incremental show ?thesis
    by (auto simp: word_less_nat_alt unat_word_ariths unat_sub word_le_nat_alt)
next
  case (Exponential s)
  with assms have "n < n + 1" by (intro word_less_add_one) simp
  moreover have "n - 1 < n" if "0 < n"
    using that by (simp add: word_less_nat_alt unat_sub word_le_nat_alt)
  ultimately show ?thesis using Exponential by (auto simp: Let_def)
qed

theorem scaler_progress_witness:
  "7 < Apply (\<lambda>_. 0) (Exponential (Fin (11 / 10))) 7 \<and>
   ApplyInverse (\<lambda>_. 0) (Exponential (Fin (11 / 10))) 7 < 7"
  using scaler_progress [of "Exponential (Fin (11 / 10))" 7 "\<lambda>_. 0"] by simp

text \<open>
  C35. Within the 24 bits of a \<open>float32\<close> the exponential scaler is exact: for a whole factor
  \<open>k > 1\<close>, \<open>Apply\<close> multiplies by \<open>k\<close>, and \<open>ApplyInverse\<close> of the result is the count it came
  from.
\<close>

theorem exponential_exact:
  assumes "1 < k" and "0 < n" and "k * uint n \<le> 2 ^ 24"
  shows "uint (Apply oor (Exponential (Fin (of_int k))) n) = k * uint n \<and>
         ApplyInverse oor (Exponential (Fin (of_int k)))
           (Apply oor (Exponential (Fin (of_int k))) n) = n"
proof -
  define m where "m = k * uint n"
  have n: "0 < uint n" using assms(2) by (simp add: word_less_def)
  have le: "uint n < m" using assms(1) n by (simp add: m_def)
  have m: "m \<le> 2 ^ 24" using assms(3) by (simp add: m_def)
  have of_m: "(of_int k :: rat) * of_int (uint n) = of_int m" "(of_int m :: rat) / of_int k = of_int (uint n)"
    using assms(1) by (simp_all add: m_def)
  have fn: "round_fp f32 (of_int (uint n)) = Fin (of_int (uint n))"
    using le m n by (intro f32_int) simp
  have fm: "round_fp f32 (of_int m) = Fin (of_int m)"
    using le m n by (intro f32_int) simp
  have conv: "fp_to_u32 oor (Fin (of_int j)) = word_of_int j" if "0 \<le> j" "j \<le> 2 ^ 24" for j
    using that by (simp add: fp_to_u32_def rat_trunc_def)
  have cm: "fp_to_u32 oor (Fin (of_int m)) = word_of_int m" using le m n by (intro conv) simp_all
  have cn: "fp_to_u32 oor (Fin (of_int (uint n))) = word_of_int (uint n)"
    using le m n by (intro conv) simp_all
  have um: "uint (word_of_int m :: u32) = m"
    using le m n by (intro uint_of_int_u32) simp_all
  have lt: "((word_of_int m :: u32) \<le> n) = False" "((word_of_int m :: u32) \<le> word_of_int (uint n)) = False"
    using le um by (simp_all add: word_le_def)
  have up: "Apply oor (Exponential (Fin (of_int k))) n = word_of_int m"
    by (simp only: Apply.simps fp_of_int_def fn fp_mul.simps of_m fm cm Let_def lt if_False)
  have k0: "((of_int k :: rat) = 0) = False" using assms(1) by simp
  have "ApplyInverse oor (Exponential (Fin (of_int k))) (word_of_int m) = word_of_int (uint n)"
    by (simp only: ApplyInverse.simps fp_of_int_def um fm fp_div.simps k0 of_m fn cn Let_def lt
        if_False simp_thms)
  then have "ApplyInverse oor (Exponential (Fin (of_int k))) (word_of_int m) = n" by simp
  with up um show ?thesis by (simp add: m_def)
qed

theorem exponential_exact_witness:
  "uint (Apply (\<lambda>_. 0) (Exponential (Fin 3)) 5) = 15"
  using exponential_exact [of 3 5 "\<lambda>_. 0"] by simp

end
