(* ===== verification/Funit.thy ===== *)
theory Funit
  imports Floats
begin

text \<open>
  Package \<open>funit\<close>: measures are \<open>float64\<close> values. A constant with the type \<open>Measure\<close> is
  rounded to that type; an untyped constant of the source (\<open>Byte\<close>, \<open>Milli\<close>, \<open>BasisPoint\<close>)
  is exact and rounded where it is used as a \<open>Measure\<close>.
\<close>

type_synonym Measure = fp

definition typed :: "rat \<Rightarrow> Measure" where
  "typed q = round_fp f64 q"

abbreviation mtimes :: "Measure \<Rightarrow> Measure \<Rightarrow> Measure" where
  "mtimes \<equiv> fp_mul f64"

section \<open>Prefixes and ratios\<close>

definition Kilo :: Measure where
  "Kilo = typed 1000"

definition Mega :: Measure where
  "Mega = mtimes (typed 1000) Kilo"

definition Giga :: Measure where
  "Giga = mtimes (typed 1000) Mega"

definition Tera :: Measure where
  "Tera = mtimes (typed 1000) Giga"

definition Milli :: rat where
  "Milli = 1 / 1000"

definition Micro :: rat where
  "Micro = Milli / 1000"

definition Nano :: rat where
  "Nano = Micro / 1000"

definition Kibi :: Measure where
  "Kibi = typed 1024"

definition Mebi :: Measure where
  "Mebi = mtimes (typed 1024) Kibi"

definition Percent :: Measure where
  "Percent = typed (1 / 100)"

definition BasisPoint :: rat where
  "BasisPoint = 1 / 10000"

section \<open>Sizes\<close>

definition Bit :: Measure where
  "Bit = typed 1"

definition Byte :: rat where
  "Byte = 8"

definition Kilobit :: Measure where
  "Kilobit = mtimes Kilo Bit"

definition Megabit :: Measure where
  "Megabit = mtimes Mega Bit"

definition Gigabit :: Measure where
  "Gigabit = mtimes Giga Bit"

definition Terabit :: Measure where
  "Terabit = mtimes Tera Bit"

definition Kilobyte :: Measure where
  "Kilobyte = mtimes Kilo (typed Byte)"

definition Megabyte :: Measure where
  "Megabyte = mtimes Mega (typed Byte)"

section \<open>Time\<close>

definition Second :: Measure where
  "Second = typed 1"

definition Minute :: Measure where
  "Minute = mtimes (typed 60) Second"

definition Hour :: Measure where
  "Hour = mtimes (typed 60) Minute"

definition Millisecond :: Measure where
  "Millisecond = mtimes (typed Milli) Second"

definition Microsecond :: Measure where
  "Microsecond = mtimes (typed Micro) Second"

definition Nanosecond :: Measure where
  "Nanosecond = mtimes (typed Nano) Second"

definition AsDuration :: "(fp \<Rightarrow> int) \<Rightarrow> Measure \<Rightarrow> duration" where
  "AsDuration oor m = fp_to_i64 oor (mtimes (typed 1000000000) m)"

lemma Second_eq: "Second = Fin 1"
  by code_simp

lemma Second_ns: "AsDuration oor Second = 1000000000"
  unfolding AsDuration_def Second_eq typed_def
  using f64_int [of 1000000000]
  by (simp add: fp_to_i64_def rat_trunc_def i64_id)

lemma units_ns:
  "mtimes (typed 1000000000) Minute = Fin 60000000000"
  "mtimes (typed 1000000000) Hour = Fin 3600000000000"
  "mtimes (typed 1000000000) Millisecond = Fin 1000000"
  "mtimes (typed 1000000000) Microsecond = Fin 1000"
  "mtimes (typed 1000000000) Nanosecond = Fin 1"
  by code_simp+

text \<open>
  The named units of time convert to exactly their number of nanoseconds, although
  \<open>Millisecond\<close>, \<open>Microsecond\<close> and \<open>Nanosecond\<close> are not representable as binary floats: the
  rounding of the constant and the rounding of the product cancel.
\<close>

theorem AsDuration_units:
  "AsDuration oor Second = 1000000000 \<and> AsDuration oor Minute = 60000000000 \<and>
   AsDuration oor Hour = 3600000000000 \<and> AsDuration oor Millisecond = 1000000 \<and>
   AsDuration oor Microsecond = 1000 \<and> AsDuration oor Nanosecond = 1"
  using Second_ns [of oor]
  by (simp add: AsDuration_def units_ns fp_to_i64_def rat_trunc_def i64_id)

end
