(* ===== verification/Response.thy ===== *)
theory Response
  imports Prelude
begin

text \<open>
  Responses, results and errors (\<open>apns2/response.go\<close>, \<open>apns2/result.go\<close>, the error values
  of \<open>apns2/client.go\<close>, \<open>apns2/http.go\<close>, \<open>apns2/request.go\<close> and \<open>http2x\<close>), and the parsing of the
  \<open>timestamp\<close> of a rejection.
\<close>

section \<open>Errors and responses\<close>

text \<open>\<open>Foreign\<close> is an error of a library, with its message.\<close>

datatype goerr =
    ErrMissingAuth
  | ErrClientNotRunning
  | ErrClientAlreadyStarted
  | ErrClientAlreadyClosed
  | ErrPushInterrupted
  | ErrCanceled
  | ErrHTTPClientClosed
  | ErrIncompatibleHTTP2Layer
  | ErrUnsupportedTransport
  | RequestError goerr
  | Foreign string

record Response =
  ApnsID :: string
  StatusCode :: int
  RejectionReason :: string
  UnsubscribedAt :: gotime

definition zero_Response :: Response where
  "zero_Response = \<lparr>ApnsID = [], StatusCode = 0, RejectionReason = [], UnsubscribedAt = 0\<rparr>"

definition StatusAcccepted :: int where
  "StatusAcccepted = 200"

definition Response_IsAccepted :: "Response \<Rightarrow> bool" where
  "Response_IsAccepted c = (StatusCode c = StatusAcccepted)"

text \<open>The reasons of the service.\<close>

definition ReasonBadCollapseID :: string where
  "ReasonBadCollapseID = ''BadCollapseId''"

definition ReasonBadDeviceToken :: string where
  "ReasonBadDeviceToken = ''BadDeviceToken''"

definition ReasonBadExpirationDate :: string where
  "ReasonBadExpirationDate = ''BadExpirationDate''"

definition ReasonBadMessageID :: string where
  "ReasonBadMessageID = ''BadMessageId''"

definition ReasonBadPriority :: string where
  "ReasonBadPriority = ''BadPriority''"

definition ReasonBadTopic :: string where
  "ReasonBadTopic = ''BadTopic''"

definition ReasonDeviceTokenNotForTopic :: string where
  "ReasonDeviceTokenNotForTopic = ''DeviceTokenNotForTopic''"

definition ReasonDuplicateHeaders :: string where
  "ReasonDuplicateHeaders = ''DuplicateHeaders''"

definition ReasonIdleTimeout :: string where
  "ReasonIdleTimeout = ''IdleTimeout''"

definition ReasonMissingDeviceToken :: string where
  "ReasonMissingDeviceToken = ''MissingDeviceToken''"

definition ReasonMissingTopic :: string where
  "ReasonMissingTopic = ''MissingTopic''"

definition ReasonPayloadEmpty :: string where
  "ReasonPayloadEmpty = ''PayloadEmpty''"

definition ReasonTopicDisallowed :: string where
  "ReasonTopicDisallowed = ''TopicDisallowed''"

definition ReasonBadCertificate :: string where
  "ReasonBadCertificate = ''BadCertificate''"

definition ReasonBadCertificateEnvironment :: string where
  "ReasonBadCertificateEnvironment = ''BadCertificateEnvironment''"

definition ReasonExpiredProviderToken :: string where
  "ReasonExpiredProviderToken = ''ExpiredProviderToken''"

definition ReasonForbidden :: string where
  "ReasonForbidden = ''Forbidden''"

definition ReasonInvalidProviderToken :: string where
  "ReasonInvalidProviderToken = ''InvalidProviderToken''"

definition ReasonMissingProviderToken :: string where
  "ReasonMissingProviderToken = ''MissingProviderToken''"

definition ReasonBadPath :: string where
  "ReasonBadPath = ''BadPath''"

definition ReasonMethodNotAllowed :: string where
  "ReasonMethodNotAllowed = ''MethodNotAllowed''"

definition ReasonUnregistered :: string where
  "ReasonUnregistered = ''Unregistered''"

definition ReasonPayloadTooLarge :: string where
  "ReasonPayloadTooLarge = ''PayloadTooLarge''"

definition ReasonTooManyProviderTokenUpdates :: string where
  "ReasonTooManyProviderTokenUpdates = ''TooManyProviderTokenUpdates''"

definition ReasonTooManyRequests :: string where
  "ReasonTooManyRequests = ''TooManyRequests''"

definition ReasonInternalServerError :: string where
  "ReasonInternalServerError = ''InternalServerError''"

definition ReasonServiceUnavailable :: string where
  "ReasonServiceUnavailable = ''ServiceUnavailable''"

definition ReasonShutdown :: string where
  "ReasonShutdown = ''Shutdown''"

text \<open>Each with the status that the source gives for it.\<close>

definition documented_reasons :: "(int \<times> string) list" where
  "documented_reasons = [(400, ReasonBadCollapseID),
     (400, ReasonBadDeviceToken),
     (400, ReasonBadExpirationDate),
     (400, ReasonBadMessageID),
     (400, ReasonBadPriority),
     (400, ReasonBadTopic),
     (400, ReasonDeviceTokenNotForTopic),
     (400, ReasonDuplicateHeaders),
     (400, ReasonIdleTimeout),
     (400, ReasonMissingDeviceToken),
     (400, ReasonMissingTopic),
     (400, ReasonPayloadEmpty),
     (400, ReasonTopicDisallowed),
     (403, ReasonBadCertificate),
     (403, ReasonBadCertificateEnvironment),
     (403, ReasonExpiredProviderToken),
     (403, ReasonForbidden),
     (403, ReasonInvalidProviderToken),
     (403, ReasonMissingProviderToken),
     (404, ReasonBadPath),
     (405, ReasonMethodNotAllowed),
     (410, ReasonUnregistered),
     (413, ReasonPayloadTooLarge),
     (429, ReasonTooManyProviderTokenUpdates),
     (429, ReasonTooManyRequests),
     (500, ReasonInternalServerError),
     (503, ReasonServiceUnavailable),
     (503, ReasonShutdown)]"

lemmas reason_defs =
    ReasonBadCollapseID_def ReasonBadDeviceToken_def ReasonBadExpirationDate_def
    ReasonBadMessageID_def ReasonBadPriority_def ReasonBadTopic_def
    ReasonDeviceTokenNotForTopic_def ReasonDuplicateHeaders_def ReasonIdleTimeout_def
    ReasonMissingDeviceToken_def ReasonMissingTopic_def ReasonPayloadEmpty_def
    ReasonTopicDisallowed_def ReasonBadCertificate_def ReasonBadCertificateEnvironment_def
    ReasonExpiredProviderToken_def ReasonForbidden_def ReasonInvalidProviderToken_def
    ReasonMissingProviderToken_def ReasonBadPath_def ReasonMethodNotAllowed_def
    ReasonUnregistered_def ReasonPayloadTooLarge_def ReasonTooManyProviderTokenUpdates_def
    ReasonTooManyRequests_def ReasonInternalServerError_def ReasonServiceUnavailable_def
    ReasonShutdown_def

section \<open>Parsing a timestamp\<close>

datatype num_err = ErrSyntax | ErrRange

text \<open>\<open>strconv.ParseUint\<close> and \<open>strconv.ParseInt\<close> in base 10 and 64 bits.\<close>

fun parse_digits :: "nat \<Rightarrow> string \<Rightarrow> num_err + nat" where
  "parse_digits n [] = Inr n"
| "parse_digits n (c # cs) =
     (if \<not> is_digit c then Inl ErrSyntax
      else if n * 10 + digit_val c \<ge> 2 ^ 64 then Inl ErrRange
      else parse_digits (n * 10 + digit_val c) cs)"

definition ParseUint :: "string \<Rightarrow> num_err + nat" where
  "ParseUint s = (if s = [] then Inl ErrSyntax else parse_digits 0 s)"

fun strip_sign :: "string \<Rightarrow> bool \<times> string" where
  "strip_sign [] = (False, [])"
| "strip_sign (c # cs) =
     (if c = CHR ''+'' then (False, cs) else if c = CHR ''-'' then (True, cs) else (False, c # cs))"

definition ParseInt :: "string \<Rightarrow> num_err + int" where
  "ParseInt s =
     (if s = [] then Inl ErrSyntax
      else let (neg, ds) = strip_sign s in
        case ParseUint ds of
          Inl e \<Rightarrow> Inl e
        | Inr un \<Rightarrow>
            if \<not> neg \<and> un \<ge> 2 ^ 63 then Inl ErrRange
            else if neg \<and> un > 2 ^ 63 then Inl ErrRange
            else Inr (if neg then - int un else int un))"

definition Time_UnmarshalJSON :: "string \<Rightarrow> num_err + gotime" where
  "Time_UnmarshalJSON b =
     (case ParseInt b of
        Inl e \<Rightarrow> Inl e
      | Inr ts \<Rightarrow> Inr (time_Unix (go_div ts 1000) (i64 (1000000 * go_mod ts 1000))))"

section \<open>What parsing returns\<close>

lemma parse_digits_append:
  "parse_digits n (xs @ ys) =
     (case parse_digits n xs of Inl e \<Rightarrow> Inl e | Inr m \<Rightarrow> parse_digits m ys)"
  by (induction xs arbitrary: n) auto

lemma parse_digits_dec_nat:
  "n < 2 ^ 64 \<Longrightarrow> parse_digits 0 (dec_nat n) = Inr n"
proof (induction n rule: dec_nat.induct)
  case (1 n)
  show ?case
  proof (cases "n < 10")
    case True
    then show ?thesis
      by (subst dec_nat.simps) (simp add: digit_char_digit)
  next
    case False
    with 1 have "parse_digits 0 (dec_nat (n div 10)) = Inr (n div 10)" by simp
    with False 1(2) show ?thesis
      by (subst dec_nat.simps) (simp add: parse_digits_append digit_char_digit)
  qed
qed

lemma strip_sign_digits: "is_digit c \<Longrightarrow> strip_sign (c # cs) = (False, c # cs)"
  by (auto simp: is_digit_def)

lemma strip_sign_dec_nat: "strip_sign (dec_nat n) = (False, dec_nat n)"
  using hd_dec_nat [of n] strip_sign_digits by (metis dec_nat_nonempty list.collapse)

lemma ParseUint_dec_nat: "n < 2 ^ 64 \<Longrightarrow> ParseUint (dec_nat n) = Inr n"
  by (simp add: ParseUint_def parse_digits_dec_nat)

lemma ParseInt_dec_int:
  assumes "- (2 ^ 63) \<le> n" and "n < 2 ^ 63"
  shows "ParseInt (dec_int n) = Inr n"
proof (cases "n < 0")
  case True
  have "nat (- n) \<le> 2 ^ 63" using assms by simp
  then have "ParseUint (dec_nat (nat (- n))) = Inr (nat (- n))"
    by (intro ParseUint_dec_nat) simp
  with True \<open>nat (- n) \<le> 2 ^ 63\<close> show ?thesis
    by (simp add: dec_int_def ParseInt_def)
next
  case False
  have "nat n < 2 ^ 63" using assms False by simp
  then have "ParseUint (dec_nat (nat n)) = Inr (nat n)"
    by (intro ParseUint_dec_nat) simp
  with False \<open>nat n < 2 ^ 63\<close> show ?thesis
    by (simp add: dec_int_def ParseInt_def strip_sign_dec_nat)
qed

lemma go_mod_1000: "- 1000 < go_mod x 1000" "go_mod x 1000 < 1000"
proof -
  have "go_mod x 1000 = sgn x * (\<bar>x\<bar> mod 1000)"
  proof -
    have "\<bar>x\<bar> = 1000 * (\<bar>x\<bar> div 1000) + \<bar>x\<bar> mod 1000" by simp
    then have "sgn x * \<bar>x\<bar> = 1000 * (sgn x * (\<bar>x\<bar> div 1000)) + sgn x * (\<bar>x\<bar> mod 1000)"
      by (metis distrib_left mult.left_commute)
    then show ?thesis
      by (simp add: go_mod_def go_div_def mult_sgn_abs abs_mult_sgn algebra_simps)
  qed
  moreover have "0 \<le> \<bar>x\<bar> mod 1000" "\<bar>x\<bar> mod 1000 < 1000" by simp_all
  ultimately show "- 1000 < go_mod x 1000" "go_mod x 1000 < 1000"
    by (auto simp: sgn_if)
qed

text \<open>
  C33. A timestamp of a rejection round-trips: for every 64-bit number \<open>ts\<close> of milliseconds,
  negative ones included, the decimal text of \<open>ts\<close> is unmarshalled to exactly the instant
  \<open>ts\<close> milliseconds after the Unix epoch.
\<close>

theorem UnmarshalJSON_roundtrip:
  assumes "- (2 ^ 63) \<le> ts" and "ts < 2 ^ 63"
  shows "Time_UnmarshalJSON (dec_int ts) = Inr (unix_offset * nano + ts * 1000000)"
proof -
  have "i64 (1000000 * go_mod ts 1000) = 1000000 * go_mod ts 1000"
    using go_mod_1000 [of ts] by (intro i64_id) simp_all
  moreover have "ts = 1000 * go_div ts 1000 + go_mod ts 1000"
    by (simp add: go_div_mod)
  ultimately show ?thesis
    by (simp add: Time_UnmarshalJSON_def ParseInt_dec_int [OF assms] time_Unix_def nano_def)
qed

theorem UnmarshalJSON_roundtrip_witness:
  "Time_UnmarshalJSON (dec_int (- 1500)) = Inr (unix_offset * nano - 1500000000)"
  using UnmarshalJSON_roundtrip [of "- 1500"] by simp

end
