(* ===== verification/Backoff.thy ===== *)
theory Backoff
  imports Floats Response
begin

text \<open>
  \<open>apns2/backoff.go\<close>: the tracker of the blackout after failed connection attempts. The
  clock and the random source are arguments: \<open>now\<close> is the instant \<open>time.Now()\<close> returns, and
  \<open>rnd n\<close> what \<open>rand.Int63n(n)\<close> returns, which panics unless \<open>n\<close> is positive. \<open>oor\<close> is the
  implementation-defined result of an out-of-range float conversion.
\<close>

record backOffTracker =
  initial :: duration
  max_d :: duration
  jitter :: fp
  current :: duration
  end_t :: gotime

definition After :: "gotime \<Rightarrow> gotime \<Rightarrow> bool" where
  "After t u = (t > u)"

text \<open>The random amount that is added to a back-off of \<open>d\<close>; \<open>None\<close> is the panic of \<open>Int63n\<close>.\<close>

definition jittered :: "(fp \<Rightarrow> int) \<Rightarrow> (int \<Rightarrow> int) \<Rightarrow> fp \<Rightarrow> duration \<Rightarrow> duration option" where
  "jittered oor rnd jit d =
     (if fp_less (Fin 0) jit
      then let n = fp_to_i64 oor (fp_mul f64 (fp_of_int f64 d) jit)
           in if n \<le> 0 then None else Some (i64 (d + rnd n))
      else Some d)"

definition update ::
  "(fp \<Rightarrow> int) \<Rightarrow> (int \<Rightarrow> int) \<Rightarrow> gotime \<Rightarrow> backOffTracker \<Rightarrow> 'e option \<Rightarrow> backOffTracker option" where
  "update oor rnd now t status =
     (case status of
        Some _ \<Rightarrow>
          if After now (end_t t) then
            let t1 = (if current t = 0 then t\<lparr>current := initial t\<rparr> else t)
            in case jittered oor rnd (jitter t1) (current t1) of
                 None \<Rightarrow> None
               | Some d0 \<Rightarrow>
                   let d = (if max_d t1 > 0 \<and> d0 > max_d t1 then max_d t1 else d0);
                       t2 = t1\<lparr>end_t := now + d, current := i64 (current t1 * 2)\<rparr>
                   in Some (if max_d t2 > 0 \<and> current t2 > max_d t2
                            then t2\<lparr>current := max_d t2\<rparr> else t2)
          else Some t
      | None \<Rightarrow>
          if After now (end_t t) then Some (t\<lparr>current := initial t\<rparr>) else Some t)"

definition blackoutEnd :: "backOffTracker \<Rightarrow> gotime" where
  "blackoutEnd t = end_t t"

text \<open>A run of the tracker: attempts with their outcomes and times, in order.\<close>

fun update_all ::
  "(fp \<Rightarrow> int) \<Rightarrow> (int \<Rightarrow> int) \<Rightarrow> backOffTracker \<Rightarrow> (gotime \<times> 'e option) list \<Rightarrow> backOffTracker option" where
  "update_all oor rnd t [] = Some t"
| "update_all oor rnd t ((now, status) # as) =
     (case update oor rnd now t status of
        None \<Rightarrow> None
      | Some t' \<Rightarrow> update_all oor rnd t' as)"

text \<open>Failures only, each reported one nanosecond after the blackout has ended.\<close>

fun failures :: "(fp \<Rightarrow> int) \<Rightarrow> (int \<Rightarrow> int) \<Rightarrow> nat \<Rightarrow> backOffTracker \<Rightarrow> backOffTracker option" where
  "failures oor rnd 0 t = Some t"
| "failures oor rnd (Suc k) t =
     (case failures oor rnd k t of
        None \<Rightarrow> None
      | Some t' \<Rightarrow> update oor rnd (end_t t' + 1) t' (Some ()))"

section \<open>Configurations under which the tracker works\<close>

text \<open>
  What \<open>governor.run\<close> is meant to be configured with: positive times with a cap, at most
  \<open>2 ^ 53\<close> nanoseconds (104 days), and a jitter that is zero or a fraction big enough for
  one nanosecond of the shortest back-off. \<open>rnd_ok\<close> is the documented contract of
  \<open>rand.Int63n\<close>.
\<close>

definition rnd_ok :: "(int \<Rightarrow> int) \<Rightarrow> bool" where
  "rnd_ok rnd \<longleftrightarrow> (\<forall>n. 0 < n \<longrightarrow> 0 \<le> rnd n \<and> rnd n < n)"

definition jitter_ok :: "duration \<Rightarrow> fp \<Rightarrow> bool" where
  "jitter_ok d jit =
     (case jit of
        Fin j \<Rightarrow> j \<le> 0 \<or> (j \<le> 1 \<and> 1 \<le> of_int d * j)
      | PosInf \<Rightarrow> False | NegInf \<Rightarrow> True | NaN \<Rightarrow> True)"

definition tracker_ok :: "backOffTracker \<Rightarrow> bool" where
  "tracker_ok t \<longleftrightarrow>
     0 < initial t \<and> initial t \<le> max_d t \<and> max_d t \<le> 2 ^ 53 \<and>
     jitter_ok (initial t) (jitter t) \<and>
     (current t = 0 \<or> initial t \<le> current t \<and> current t \<le> max_d t)"

section \<open>Every step of a well configured tracker\<close>

lemma jittered_ok:
  assumes "rnd_ok rnd" and "0 < d0" and "d0 \<le> d" and "d \<le> 2 ^ 53" and "jitter_ok d0 jit"
  shows "\<exists>d'. jittered oor rnd jit d = Some d' \<and> d \<le> d' \<and> d' \<le> 2 * d"
proof (cases "fp_less (Fin 0) jit")
  case False
  then show ?thesis using assms by (simp add: jittered_def)
next
  case True
  with assms(5) obtain j where jit: "jit = Fin j" and j: "0 < j" "j \<le> 1" and big: "1 \<le> of_int d0 * j"
    by (cases jit) (auto simp: jitter_ok_def)
  let ?q = "of_int d * j"
  have "of_int d0 * j \<le> ?q" using assms(3) j by (intro mult_right_mono) simp_all
  with big have q1: "of_int 1 \<le> ?q" "0 < ?q" by linarith+
  have q2: "?q \<le> of_int d" using assms j mult_left_mono [of j 1 "of_int d"] by simp
  have d: "\<bar>d\<bar> \<le> 2 ^ 53" "0 \<le> d" using assms by simp_all
  have mul: "fp_mul f64 (fp_of_int f64 d) jit = round_fp f64 ?q"
    by (simp only: fp_of_int_def f64_int [OF d(1)] jit fp_mul.simps)
  obtain r where r: "round_fp f64 ?q = Fin r" "of_int 1 \<le> r" "r \<le> of_int d"
    using f64_between [OF q1(2) q1(1) q2 assms(4)] by blast
  have t: "1 \<le> rat_trunc r" "rat_trunc r \<le> d"
    using r by (simp_all add: rat_trunc_def floor_le_iff le_floor_iff)
  then have n: "fp_to_i64 oor (fp_mul f64 (fp_of_int f64 d) jit) = rat_trunc r"
    using d by (simp add: mul r fp_to_i64_def i64_id)
  have "0 \<le> rnd (rat_trunc r)" "rnd (rat_trunc r) < rat_trunc r"
    using assms(1) t by (simp_all add: rnd_ok_def)
  moreover from this t d have "i64 (d + rnd (rat_trunc r)) = d + rnd (rat_trunc r)"
    by (intro i64_id) simp_all
  ultimately show ?thesis using True t by (simp add: jittered_def n)
qed

lemma failure_step:
  assumes t: "tracker_ok t" and rnd: "rnd_ok rnd" and now: "end_t t < now"
  shows "\<exists>t' d. update oor rnd now t (Some e) = Some t' \<and> tracker_ok t' \<and>
           end_t t' = now + d \<and>
           current t' = min (max_d t) (2 * (if current t = 0 then initial t else current t)) \<and>
           (if current t = 0 then initial t else current t) \<le> d \<and> d \<le> max_d t \<and>
           d \<le> 2 * (if current t = 0 then initial t else current t) \<and>
           initial t' = initial t \<and> max_d t' = max_d t \<and> jitter t' = jitter t"
proof -
  define c where "c = (if current t = 0 then initial t else current t)"
  define t1 where "t1 = (if current t = 0 then t\<lparr>current := initial t\<rparr> else t)"
  have c: "0 < c" "initial t \<le> c" "c \<le> max_d t" "c \<le> 2 ^ 53"
    using t by (auto simp: c_def tracker_ok_def)
  have t1: "current t1 = c" "jitter t1 = jitter t" "max_d t1 = max_d t" "initial t1 = initial t"
    "end_t t1 = end_t t"
    by (simp_all add: t1_def c_def)
  obtain d0 where d0: "jittered oor rnd (jitter t) c = Some d0" "c \<le> d0" "d0 \<le> 2 * c"
    using jittered_ok [OF rnd _ c(2) c(4), of "jitter t" oor] t by (auto simp: tracker_ok_def)
  have dbl: "i64 (c * 2) = c * 2" using c by (intro i64_id) simp_all
  show ?thesis
    using t now c d0 dbl t1 unfolding c_def [symmetric]
    by (auto simp: update_def After_def Let_def tracker_ok_def simp flip: t1_def)
qed

lemma success_step:
  "update oor rnd now t None =
     Some (if end_t t < now then t\<lparr>current := initial t\<rparr> else t)"
  by (simp add: update_def After_def)

lemma early_step: "now \<le> end_t t \<Longrightarrow> update oor rnd now t status = Some t"
  by (simp add: update_def After_def split: option.splits)

lemma update_ok:
  assumes "tracker_ok t" and "rnd_ok rnd"
  shows "\<exists>t'. update oor rnd now t status = Some t' \<and> tracker_ok t' \<and>
           end_t t \<le> end_t t' \<and> end_t t' \<le> max (end_t t) (now + max_d t) \<and>
           initial t' = initial t \<and> max_d t' = max_d t \<and> jitter t' = jitter t"
proof (cases "now \<le> end_t t")
  case True
  with assms show ?thesis by (simp add: early_step)
next
  case False
  show ?thesis
  proof (cases status)
    case None
    with False assms show ?thesis by (auto simp: success_step tracker_ok_def)
  next
    case (Some e)
    have "0 < initial t" "current t = 0 \<or> initial t \<le> current t"
      using assms(1) by (auto simp: tracker_ok_def)
    with failure_step [OF assms, of now oor e] False Some show ?thesis
      by (fastforce split: if_splits)
  qed
qed

section \<open>Properties\<close>

lemma update_all_ok:
  assumes "tracker_ok t" and "rnd_ok rnd"
  shows "\<exists>t'. update_all oor rnd t as = Some t' \<and> tracker_ok t' \<and>
           end_t t \<le> end_t t' \<and>
           end_t t' \<le> Max (insert (end_t t) ((\<lambda>(now, _). now + max_d t) ` set as))"
  using assms(1)
proof (induction as arbitrary: t)
  case Nil
  then show ?case by simp
next
  case (Cons a as)
  obtain now status where a: "a = (now, status)" by (cases a)
  obtain t1 where t1: "update oor rnd now t status = Some t1" "tracker_ok t1"
    "end_t t \<le> end_t t1" "end_t t1 \<le> max (end_t t) (now + max_d t)" "max_d t1 = max_d t"
    using update_ok [OF Cons.prems assms(2)] by blast
  obtain t' where t': "update_all oor rnd t1 as = Some t'" "tracker_ok t'" "end_t t1 \<le> end_t t'"
    "end_t t' \<le> Max (insert (end_t t1) ((\<lambda>(now, _). now + max_d t1) ` set as))"
    using Cons.IH [OF t1(2)] by blast
  have "end_t t' \<le> Max (insert (end_t t) ((\<lambda>(now, _). now + max_d t) ` set (a # as)))"
    using t'(4) t1(4) unfolding a t1(5)
    by (auto simp: Max_ge_iff Max_insert [symmetric] le_max_iff_disj simp del: Max_insert)
  with t1 t' a show ?case by auto
qed

lemma failures_current:
  assumes "tracker_ok t" and "current t = 0" and "rnd_ok rnd"
  shows "\<exists>t'. failures oor rnd k t = Some t' \<and> tracker_ok t' \<and>
           initial t' = initial t \<and> max_d t' = max_d t \<and>
           (if current t' = 0 then initial t' else current t') = min (max_d t) (initial t * 2 ^ k)"
proof (induction k)
  case 0
  from assms show ?case by (auto simp: tracker_ok_def)
next
  case (Suc k)
  then obtain t' where t': "failures oor rnd k t = Some t'" "tracker_ok t'"
    "initial t' = initial t" "max_d t' = max_d t"
    "(if current t' = 0 then initial t' else current t') = min (max_d t) (initial t * 2 ^ k)"
    by blast
  obtain t'' where t'': "update oor rnd (end_t t' + 1) t' (Some ()) = Some t''" "tracker_ok t''"
    "current t'' = min (max_d t') (2 * (if current t' = 0 then initial t' else current t'))"
    "initial t'' = initial t'" "max_d t'' = max_d t'"
    using failure_step [OF t'(2) assms(3), of "end_t t' + 1" oor "()"] by auto
  define p where "p = initial t * 2 ^ k"
  have p: "0 < p" "initial t * 2 ^ Suc k = 2 * p" "0 < max_d t"
    using assms(1) by (auto simp: p_def tracker_ok_def)
  have "current t'' = min (max_d t) (initial t * 2 ^ Suc k)"
    using t''(3) p(1,3) unfolding t'(5) t'(4) p(2) p_def [symmetric] by (auto simp: min_def)
  moreover have "current t'' \<noteq> 0"
    using t''(3) t'(2,4) assms(1) by (auto simp: tracker_ok_def min_def split: if_splits)
  ultimately show ?case using t' t'' by simp
qed

text \<open>
  C28. A well configured tracker (positive times, a cap of at most \<open>2 ^ 53\<close> ns, a jitter that
  is zero or gives at least one nanosecond) never panics, whatever outcomes are reported at
  whatever times: it stays well configured, the end of the blackout never moves back, and it
  never lies further than the cap after the latest report.
\<close>

theorem backoff_never_panics:
  assumes "tracker_ok t" and "rnd_ok rnd"
  shows "\<exists>t'. update_all oor rnd t as = Some t' \<and> tracker_ok t' \<and>
           end_t t \<le> end_t t' \<and>
           end_t t' \<le> Max (insert (end_t t) ((\<lambda>(now, _). now + max_d t) ` set as))"
  by (rule update_all_ok [OF assms])

theorem backoff_never_panics_witness:
  "\<exists>t'. update_all (\<lambda>_. 0) (\<lambda>_. 0)
           \<lparr>initial = 4000000000, max_d = 600000000000, jitter = Fin (1 / 10), current = 0, end_t = 0\<rparr>
           [(1, Some ()), (5000000000, Some ())] = Some t' \<and> tracker_ok t'"
  using backoff_never_panics [of "\<lparr>initial = 4000000000, max_d = 600000000000, jitter = Fin (1 / 10),
      current = 0, end_t = 0\<rparr>" "\<lambda>_. 0" "\<lambda>_. 0" "[(1, Some ()), (5000000000, Some ())]"]
  by (fastforce simp: tracker_ok_def jitter_ok_def rnd_ok_def)

text \<open>
  C16. Consecutive failures back off exponentially up to the cap: after \<open>k\<close> failures in a row,
  each just after the blackout of the one before, the next failure starts a blackout of at
  least \<open>min cap (initial * 2 ^ k)\<close> and at most twice that, never above the cap.
\<close>

theorem backoff_exponential:
  assumes "tracker_ok t" and "current t = 0" and "rnd_ok rnd"
  shows "\<exists>t' t''. failures oor rnd k t = Some t' \<and> failures oor rnd (Suc k) t = Some t'' \<and>
           (let delay = end_t t'' - (end_t t' + 1); base = min (max_d t) (initial t * 2 ^ k)
            in base \<le> delay \<and> delay \<le> 2 * base \<and> delay \<le> max_d t)"
proof -
  obtain t' where t': "failures oor rnd k t = Some t'" "tracker_ok t'" "max_d t' = max_d t"
    "(if current t' = 0 then initial t' else current t') = min (max_d t) (initial t * 2 ^ k)"
    using failures_current [OF assms] by blast
  from failure_step [OF t'(2) assms(3), of "end_t t' + 1" oor "()"] t'
  show ?thesis unfolding t'(4) by (auto simp: Let_def)
qed

theorem backoff_exponential_witness:
  "\<exists>t' t''. failures (\<lambda>_. 0) (\<lambda>_. 0) 3
       \<lparr>initial = 4, max_d = 20, jitter = Fin 0, current = 0, end_t = 0\<rparr> = Some t' \<and>
     failures (\<lambda>_. 0) (\<lambda>_. 0) (Suc 3)
       \<lparr>initial = 4, max_d = 20, jitter = Fin 0, current = 0, end_t = 0\<rparr> = Some t'' \<and>
     end_t t'' - (end_t t' + 1) = 20"
  using backoff_exponential [of "\<lparr>initial = 4, max_d = 20, jitter = Fin 0, current = 0, end_t = 0\<rparr>"
      "\<lambda>_. 0" "\<lambda>_. 0" 3]
  by (auto simp: tracker_ok_def jitter_ok_def rnd_ok_def Let_def)

text \<open>
  The tracker can panic: with the default jitter of 10 percent and a configured minimum
  back-off of 5 nanoseconds the first failed connection calls \<open>rand.Int63n(0)\<close>.
\<close>

theorem backoff_jitter_panics:
  "update (\<lambda>_. 0) rnd 1
     \<lparr>initial = 5, max_d = 600000000000, jitter = round_fp f64 (1 / 10), current = 0, end_t = 0\<rparr>
     (Some ErrCanceled) = None"
proof -
  have "fp_less (Fin 0) (round_fp f64 (1 / 10))" by code_simp
  moreover have "fp_to_i64 (\<lambda>_. 0) (fp_mul f64 (fp_of_int f64 5) (round_fp f64 (1 / 10))) = 0"
    by code_simp
  ultimately show ?thesis by (simp add: update_def After_def jittered_def Let_def)
qed

end
