(* ===== verification/Dispatch.thy ===== *)
theory Dispatch
  imports Syncx Scale Funit Backoff Response
begin

text \<open>
  The configuration records of \<open>apns2/comm.go\<close> and \<open>apns2/dispatch.go\<close>, the moving
  accumulator, the wait counters, and the governor's two decisions: whether to scale
  (\<open>updateCountersAndEvalScaling\<close>) and by how much (\<open>allowedScaleDelta\<close>). The governor's
  event loop over these is in theory \<open>Governor\<close>.
\<close>

section \<open>Configuration\<close>

record CommsCfg =
  DialTimeout :: duration
  MinDialBackOff :: duration
  MaxDialBackOff :: duration
  DialBackOffJitter :: Measure
  RequestTimeout :: duration
  KeepAlive :: duration
  MaxConcurrentStreams :: u32

definition seconds :: "int \<Rightarrow> duration" where
  "seconds n = n * nano"

definition CommsFast :: CommsCfg where
  "CommsFast = \<lparr>DialTimeout = seconds 20, MinDialBackOff = seconds 4,
     MaxDialBackOff = seconds (10 * 60), DialBackOffJitter = mtimes (typed 10) Percent,
     RequestTimeout = seconds 30, KeepAlive = seconds (10 * 3600), MaxConcurrentStreams = 500\<rparr>"

definition CommsSlow :: CommsCfg where
  "CommsSlow = \<lparr>DialTimeout = seconds 40, MinDialBackOff = seconds 10,
     MaxDialBackOff = seconds (10 * 60), DialBackOffJitter = mtimes (typed 10) Percent,
     RequestTimeout = seconds 60, KeepAlive = seconds (10 * 3600), MaxConcurrentStreams = 500\<rparr>"

record ProcCfg =
  MaxRetries :: u32
  RetryEval :: "(Response option \<Rightarrow> goerr option \<Rightarrow> bool) option"
  MinConns :: u32
  MaxConns :: u32
  MaxRate :: Measure
  MaxBandwidth :: Measure
  ScaleMode :: scale
  MinSustain :: duration
  PollInterval :: duration
  SettlePeriod :: duration
  AllowHTTP2Incursion :: bool
  UsePreciseHTTP2Metrics :: bool
  HTTP2MetricsRefreshPeriod :: duration

definition MinBlockingProcConfig :: ProcCfg where
  "MinBlockingProcConfig = \<lparr>MaxRetries = 0, RetryEval = None, MinConns = 1, MaxConns = 1,
     MaxRate = fp_div f64 (typed 1000) Second,
     MaxBandwidth = fp_div f64 (mtimes (typed 10) Gigabit) Second,
     ScaleMode = Constant, MinSustain = 0, PollInterval = 0, SettlePeriod = 0,
     AllowHTTP2Incursion = True, UsePreciseHTTP2Metrics = False,
     HTTP2MetricsRefreshPeriod = 500000000\<rparr>"

definition UnlimitedProcConfig :: ProcCfg where
  "UnlimitedProcConfig = \<lparr>MaxRetries = 0, RetryEval = None, MinConns = 1, MaxConns = NOT 0,
     MaxRate = fp_div f64 (typed 10000000) Second,
     MaxBandwidth = fp_div f64 (mtimes (typed 1) Terabit) Second,
     ScaleMode = Exponential (Fin 2), MinSustain = 0, PollInterval = 0, SettlePeriod = 0,
     AllowHTTP2Incursion = True, UsePreciseHTTP2Metrics = False,
     HTTP2MetricsRefreshPeriod = 500000000\<rparr>"

definition minSustainPollPeriods :: "ProcCfg \<Rightarrow> u32" where
  "minSustainPollPeriods c =
     (if MinSustain c = 0 then 0
      else if MinSustain c < 0 \<or> PollInterval c \<le> 0 then NOT 0
      else let res = go_div (MinSustain c) (PollInterval c);
               res' = (if go_mod (MinSustain c) (PollInterval c) > 0 then res + 1 else res)
           in word_of_int res')"

definition rateAsCount :: "(fp \<Rightarrow> int) \<Rightarrow> ProcCfg \<Rightarrow> u64" where
  "rateAsCount oor c =
     (if MinSustain c \<le> 0 \<or> PollInterval c \<le> 0 \<or> fp_le (MaxRate c) (Fin 0) then 0
      else let n = fp_of_int f64 (uint (minSustainPollPeriods c))
           in fp_to_u64 oor (mtimes (mtimes (MaxRate c) n) (fp_of_int f64 (PollInterval c)))
                div word_of_int (AsDuration oor Second))"

definition bandwidthAsSize :: "(fp \<Rightarrow> int) \<Rightarrow> ProcCfg \<Rightarrow> u64" where
  "bandwidthAsSize oor c =
     (if MinSustain c \<le> 0 \<or> PollInterval c \<le> 0 \<or> fp_le (MaxBandwidth c) (Fin 0) then 0
      else let n = fp_of_int f64 (uint (minSustainPollPeriods c))
           in fp_to_u64 oor (mtimes (mtimes (fp_div f64 (MaxBandwidth c) (typed Byte)) n)
                (fp_of_int f64 (PollInterval c)))
                div word_of_int (AsDuration oor Second))"

section \<open>Moving accumulator and wait counters\<close>

record movingAcc =
  samples :: "u64 list"
  acc_sum :: u64
  pos :: nat

definition newMovingAcc :: "int \<Rightarrow> movingAcc option" where
  "newMovingAcc windowSize =
     (if windowSize \<le> 0 then None
      else Some \<lparr>samples = replicate (nat windowSize) 0, acc_sum = 0, pos = 0\<rparr>)"

text \<open>An index out of range, or a remainder by an empty window, panics.\<close>

definition accumulate :: "movingAcc \<Rightarrow> u64 \<Rightarrow> (movingAcc \<times> u64) option" where
  "accumulate a v =
     (if pos a < length (samples a)
      then let s = acc_sum a + (v - samples a ! pos a)
           in Some (\<lparr>samples = (samples a)[pos a := v], acc_sum = s,
                     pos = (pos a + 1) mod length (samples a)\<rparr>, s)
      else None)"

record waitCounter =
  waits :: u32
  noWaits :: u32

definition acc :: "waitCounter \<Rightarrow> u32 \<Rightarrow> waitCounter" where
  "acc c val =
     (if val > 0 then \<lparr>waits = waits c + 1, noWaits = 0\<rparr>
      else \<lparr>waits = 0, noWaits = noWaits c + 1\<rparr>)"

section \<open>The governor's data\<close>

text \<open>
  \<open>streamers\<close> and \<open>launchers\<close> are the keys of the two maps. A launcher and the streamer it
  starts carry the same id, built from \<open>nextWId\<close>; the model uses that number.
\<close>

record governor =
  cfg :: ProcCfg
  minSust :: u32
  inCtr :: waitCounter
  outCtr :: waitCounter
  countAcc :: "movingAcc option"
  sizeAcc :: "movingAcc option"
  maxCount :: u64
  maxSize :: u64
  streamers :: "nat list"
  launchers :: "nat list"
  nextWId :: nat
  lastScale :: gotime
  tracker :: backOffTracker
  isClosing :: bool

definition shouldCount :: "governor \<Rightarrow> bool" where
  "shouldCount g = (fp_less (Fin 0) (MaxRate (cfg g)) \<and> 0 < minSust g)"

definition shouldSize :: "governor \<Rightarrow> bool" where
  "shouldSize g = (fp_less (Fin 0) (MaxBandwidth (cfg g)) \<and> 0 < minSust g)"

text \<open>The governor as \<open>Client.Start\<close> allocates it and \<open>run\<close> prepares it before its loop.\<close>

definition init_tracker :: "CommsCfg \<Rightarrow> backOffTracker" where
  "init_tracker comms =
     \<lparr>initial = (if MinDialBackOff comms > 0 then MinDialBackOff comms else seconds 4),
      max_d = MaxDialBackOff comms, jitter = DialBackOffJitter comms, current = 0, end_t = 0\<rparr>"

definition init_governor :: "(fp \<Rightarrow> int) \<Rightarrow> ProcCfg \<Rightarrow> CommsCfg \<Rightarrow> governor" where
  "init_governor oor pcfg comms =
     (let ms = minSustainPollPeriods pcfg;
          cnt = fp_less (Fin 0) (MaxRate pcfg) \<and> 0 < ms;
          sz = fp_less (Fin 0) (MaxBandwidth pcfg) \<and> 0 < ms
      in \<lparr>cfg = pcfg, minSust = ms, inCtr = \<lparr>waits = 0, noWaits = 0\<rparr>,
          outCtr = \<lparr>waits = 0, noWaits = 0\<rparr>,
          countAcc = (if cnt then newMovingAcc (uint ms) else None),
          sizeAcc = (if sz then newMovingAcc (uint ms) else None),
          maxCount = (if cnt then rateAsCount oor pcfg else 0),
          maxSize = (if sz then bandwidthAsSize oor pcfg else 0),
          streamers = [], launchers = [], nextWId = 0, lastScale = 0,
          tracker = init_tracker comms, isClosing = False\<rparr>)"

section \<open>Evaluating the need to scale\<close>

text \<open>
  What a poll reads: the client's wait and rate counters, and each streamer's wait and size
  counters. \<open>gather\<close> draws them all; \<open>evalScaling\<close> is the rest of
  \<open>updateCountersAndEvalScaling\<close>, over the drawn values.
\<close>

record counters =
  c_wait :: u64
  c_rate :: u64
  s_wait :: "nat \<Rightarrow> u64"
  s_size :: "nat \<Rightarrow> u64"

fun gather_streamers :: "bool \<Rightarrow> nat list \<Rightarrow> counters \<Rightarrow> u32 \<times> u64 \<times> counters" where
  "gather_streamers sz [] cs = (0, 0, cs)"
| "gather_streamers sz (w # ws) cs =
     (let ((oc, _), wc) = TickTockCounter_Fold (s_wait cs w) [];
          (d, sc) = (if sz then Counter_Draw (s_size cs w) [] else (0, s_size cs w));
          cs' = cs\<lparr>s_wait := (s_wait cs)(w := wc), s_size := (s_size cs)(w := sc)\<rparr>;
          (ocs, osz, cs'') = gather_streamers sz ws cs'
      in (oc + ocs, d + osz, cs''))"

definition gather :: "governor \<Rightarrow> counters \<Rightarrow> (u32 \<times> u64 \<times> u32 \<times> u64) \<times> counters" where
  "gather g cs =
     (let ((ics, _), wc) = TickTockCounter_Fold (c_wait cs) [];
          (cnt, rc) = Counter_Draw (c_rate cs) [];
          (ocs, osz, cs') =
            gather_streamers (shouldSize g) (streamers g) (cs\<lparr>c_wait := wc, c_rate := rc\<rparr>)
      in ((ics, cnt, ocs, osz), cs'))"

text \<open>Accumulating through a nil accumulator panics.\<close>

definition accumulate_if ::
  "bool \<Rightarrow> movingAcc option \<Rightarrow> u64 \<Rightarrow> (movingAcc option \<times> u64) option" where
  "accumulate_if should a v =
     (if should
      then case a of None \<Rightarrow> None
           | Some a' \<Rightarrow> (case accumulate a' v of None \<Rightarrow> None | Some (a'', s) \<Rightarrow> Some (Some a'', s))
      else Some (a, v))"

definition verdict :: "governor \<Rightarrow> u64 \<Rightarrow> u64 \<Rightarrow> int" where
  "verdict g cnt osz =
     (if waits (inCtr g) \<ge> minSust g \<and> noWaits (outCtr g) \<ge> minSust g
      then if shouldCount g \<and> cnt > maxCount g then 0
           else if shouldSize g \<and> osz > maxSize g then 0
           else 1
      else if noWaits (inCtr g) \<ge> minSust g then - 1
      else 0)"

definition evalScaling :: "governor \<Rightarrow> u32 \<times> u64 \<times> u32 \<times> u64 \<Rightarrow> (governor \<times> int) option" where
  "evalScaling g sample =
     (case sample of (ics, cnt, ocs, osz) \<Rightarrow>
        let g1 = g\<lparr>inCtr := acc (inCtr g) ics, outCtr := acc (outCtr g) ocs\<rparr>
        in case accumulate_if (shouldCount g1) (countAcc g1) cnt of
             None \<Rightarrow> None
           | Some (ca, cnt') \<Rightarrow>
               (case accumulate_if (shouldSize g1) (sizeAcc g1) osz of
                  None \<Rightarrow> None
                | Some (sa, osz') \<Rightarrow>
                    let g2 = g1\<lparr>countAcc := ca, sizeAcc := sa\<rparr>
                    in Some (g2, verdict g2 cnt' osz')))"

definition updateCountersAndEvalScaling ::
  "governor \<Rightarrow> counters \<Rightarrow> ((governor \<times> int) \<times> counters) option" where
  "updateCountersAndEvalScaling g cs =
     (let (sample, cs') = gather g cs
      in case evalScaling g sample of None \<Rightarrow> None | Some r \<Rightarrow> Some (r, cs'))"

section \<open>How far to scale\<close>

definition allowedScaleDelta :: "(fp \<Rightarrow> int) \<Rightarrow> gotime \<Rightarrow> governor \<Rightarrow> bool \<Rightarrow> int" where
  "allowedScaleDelta oor now g forScaleUp =
     (if isClosing g \<or> length (launchers g) > 0 then 0
      else if After (lastScale g + SettlePeriod (cfg g)) now then 0
      else if After (blackoutEnd (tracker g)) now then 0
      else
        let prov = (of_nat (length (streamers g) + length (launchers g)) :: u32);
            clamp = (\<lambda>req. let req1 = (if req < MinConns (cfg g) then MinConns (cfg g) else req)
                           in if req1 > MaxConns (cfg g) then MaxConns (cfg g) else req1)
        in if forScaleUp then
             (if prov \<ge> MaxConns (cfg g) then 0
              else uint (clamp (Apply oor (ScaleMode (cfg g)) prov)) - uint prov)
           else
             (if prov \<le> MinConns (cfg g) then 0
              else uint (clamp (ApplyInverse oor (ScaleMode (cfg g)) prov)) - uint prov))"

section \<open>Reference definitions\<close>

text \<open>What the moving accumulator and the wait counters stand for, over the whole history.\<close>

definition last_n :: "nat \<Rightarrow> 'a list \<Rightarrow> 'a list" where
  "last_n n xs = drop (length xs - n) xs"

fun acc_all :: "movingAcc \<Rightarrow> u64 list \<Rightarrow> (movingAcc \<times> u64) option" where
  "acc_all a [] = Some (a, acc_sum a)"
| "acc_all a (v # vs) =
     (case accumulate a v of None \<Rightarrow> None | Some (a', _) \<Rightarrow> acc_all a' vs)"

fun eval_all :: "governor \<Rightarrow> (u32 \<times> u64 \<times> u32 \<times> u64) list \<Rightarrow> int \<Rightarrow> (governor \<times> int) option" where
  "eval_all g [] r = Some (g, r)"
| "eval_all g (s # ss) r =
     (case evalScaling g s of None \<Rightarrow> None | Some (g', r') \<Rightarrow> eval_all g' ss r')"

text \<open>
  The decision as the README describes it, from the list of all samples: scale up when each
  of the last \<open>minSust\<close> periods saw waits on the inbound channel and none on the outbound
  ones, unless the counts or sizes of those periods exceed their caps; wind down when none of
  them saw inbound waits.
\<close>

definition blocked_inbound :: "u32 \<times> u64 \<times> u32 \<times> u64 \<Rightarrow> bool" where
  "blocked_inbound s = (case s of (ics, _, ocs, _) \<Rightarrow> 0 < ics \<and> ocs = 0)"

definition spec_verdict :: "governor \<Rightarrow> (u32 \<times> u64 \<times> u32 \<times> u64) list \<Rightarrow> int" where
  "spec_verdict g hist =
     (let m = unat (minSust g); w = last_n m hist
      in if m \<le> length hist \<and> list_all blocked_inbound w
         then if shouldCount g \<and> sum_list (map (\<lambda>(_, cnt, _, _). cnt) w) > maxCount g then 0
              else if shouldSize g \<and> sum_list (map (\<lambda>(_, _, _, osz). osz) w) > maxSize g then 0
              else 1
         else if m \<le> length hist \<and> list_all (\<lambda>(ics, _). ics = 0) w then - 1
         else 0)"

section \<open>The moving accumulator is a sliding window\<close>

definition acc_window :: "nat \<Rightarrow> movingAcc \<Rightarrow> u64 list \<Rightarrow> bool" where
  "acc_window n a vs \<longleftrightarrow>
     length (samples a) = n \<and> pos a < n \<and> acc_sum a = sum_list (samples a) \<and>
     rotate (pos a) (samples a) = drop (length vs) (replicate n 0 @ vs)"

lemma acc_window_init: "0 < n \<Longrightarrow> acc_window n \<lparr>samples = replicate n 0, acc_sum = 0, pos = 0\<rparr> []"
  by (simp add: acc_window_def sum_list_replicate)

lemma window_shift:
  "n > 0 \<Longrightarrow> drop (length (vs @ [v])) (replicate n 0 @ vs @ [v])
     = tl (drop (length vs) (replicate n 0 @ vs)) @ [v]"
proof -
  assume "n > 0"
  define xs where "xs = replicate n 0 @ vs"
  have "Suc (length vs) \<le> length xs" using \<open>n > 0\<close> by (simp add: xs_def)
  then have "drop (Suc (length vs)) (xs @ [v]) = tl (drop (length vs) xs) @ [v]"
    by (simp add: drop_Suc tl_drop)
  then show ?thesis by (simp add: xs_def)
qed

lemma accumulate_window:
  assumes "acc_window n a vs"
  shows "\<exists>a'. accumulate a v = Some (a', acc_sum a') \<and> acc_window n a' (vs @ [v])"
proof -
  let ?a' = "\<lparr>samples = (samples a)[pos a := v], acc_sum = acc_sum a + (v - samples a ! pos a),
               pos = (pos a + 1) mod length (samples a)\<rparr>"
  have a: "length (samples a) = n" "pos a < n" "acc_sum a = sum_list (samples a)"
    "rotate (pos a) (samples a) = drop (length vs) (replicate n 0 @ vs)"
    using assms by (simp_all add: acc_window_def)
  have "rotate (Suc (pos a) mod n) ((samples a)[pos a := v]) = tl (rotate (pos a) (samples a)) @ [v]"
    using rotate_update_step [of "pos a" "samples a" v] a by simp
  also have "\<dots> = drop (length (vs @ [v])) (replicate n 0 @ vs @ [v])"
    using a by (subst window_shift) simp_all
  finally have "acc_window n ?a' (vs @ [v])"
    using a by (simp add: acc_window_def sum_list_update_group)
  moreover have "accumulate a v = Some (?a', acc_sum ?a')"
    using a by (simp add: accumulate_def Let_def)
  ultimately show ?thesis by blast
qed

lemma acc_window_sum: "acc_window n a vs \<Longrightarrow> acc_sum a = sum_list (last_n n vs)"
proof -
  assume w: "acc_window n a vs"
  then have sum: "acc_sum a = sum_list (samples a)"
    and rot: "rotate (pos a) (samples a) = drop (length vs) (replicate n 0 @ vs)"
    by (simp_all only: acc_window_def)
  have "acc_sum a = sum_list (rotate (pos a) (samples a))" by (simp only: sum sum_list_rotate)
  also have "\<dots> = sum_list (drop (length vs) (replicate n 0 @ vs))" by (simp only: rot)
  also have "\<dots> = sum_list (last_n n vs)"
    by (simp add: last_n_def sum_list_replicate)
  finally show ?thesis .
qed

lemma acc_all_window:
  "acc_window n a vs \<Longrightarrow> \<exists>a'. acc_all a ws = Some (a', acc_sum a') \<and> acc_window n a' (vs @ ws)"
proof (induction ws arbitrary: a vs)
  case Nil
  then show ?case by simp
next
  case (Cons w ws)
  obtain a1 where a1: "accumulate a w = Some (a1, acc_sum a1)" "acc_window n a1 (vs @ [w])"
    using accumulate_window [OF Cons.prems] by blast
  from Cons.IH [OF a1(2)] a1(1) show ?case by simp
qed

section \<open>The wait counters hold the length of the current streak\<close>

lemma streak_last_n:
  "m \<le> length (takeWhile P (rev xs)) \<longleftrightarrow> m \<le> length xs \<and> list_all P (last_n m xs)"
proof -
  have "m \<le> length (takeWhile P ys) \<longleftrightarrow> m \<le> length ys \<and> list_all P (take m ys)" for ys
  proof (induction ys arbitrary: m)
    case Nil
    then show ?case by simp
  next
    case (Cons y ys)
    show ?case using Cons [of "m - 1"] by (cases m) auto
  qed
  from this [of "rev xs"] show ?thesis
    by (simp add: last_n_def take_rev list_all_iff)
qed

definition counts :: "waitCounter \<Rightarrow> u32 list \<Rightarrow> bool" where
  "counts c vals \<longleftrightarrow>
     waits c = of_nat (length (takeWhile (\<lambda>v. 0 < v) (rev vals))) \<and>
     noWaits c = of_nat (length (takeWhile (\<lambda>v. v = 0) (rev vals)))"

lemma counts_init: "counts \<lparr>waits = 0, noWaits = 0\<rparr> []"
  by (simp add: counts_def)

lemma counts_acc: "counts c vals \<Longrightarrow> counts (acc c v) (vals @ [v])"
  by (auto simp: counts_def acc_def word_gt_0)

lemma streak_le:
  assumes "length vals < 2 ^ 32"
  shows "((m :: u32) \<le> of_nat (length (takeWhile P (rev vals)))) \<longleftrightarrow>
         unat m \<le> length vals \<and> list_all P (last_n (unat m) vals)"
proof -
  have "length (takeWhile P (rev vals)) < 2 ^ 32"
    using assms length_takeWhile_le [of P "rev vals"] by simp
  then have "unat (of_nat (length (takeWhile P (rev vals))) :: u32) = length (takeWhile P (rev vals))"
    by (rule unat_of_nat_u32)
  then show ?thesis by (simp add: word_le_nat_alt streak_last_n)
qed

section \<open>The governor's counters follow the history\<close>

definition acc_tracks :: "bool \<Rightarrow> nat \<Rightarrow> movingAcc option \<Rightarrow> u64 list \<Rightarrow> bool" where
  "acc_tracks should n a vs \<longleftrightarrow> (should \<longrightarrow> (\<exists>a'. a = Some a' \<and> acc_window n a' vs))"

definition tracks :: "governor \<Rightarrow> (u32 \<times> u64 \<times> u32 \<times> u64) list \<Rightarrow> bool" where
  "tracks g hist \<longleftrightarrow>
     counts (inCtr g) (map (\<lambda>(ics, _). ics) hist) \<and>
     counts (outCtr g) (map (\<lambda>(_, _, ocs, _). ocs) hist) \<and>
     acc_tracks (shouldCount g) (unat (minSust g)) (countAcc g) (map (\<lambda>(_, cnt, _, _). cnt) hist) \<and>
     acc_tracks (shouldSize g) (unat (minSust g)) (sizeAcc g) (map (\<lambda>(_, _, _, osz). osz) hist)"

lemma accumulate_if_tracks:
  assumes "acc_tracks should n a vs"
  shows "\<exists>a' s. accumulate_if should a v = Some (a', s) \<and> acc_tracks should n a' (vs @ [v]) \<and>
           (should \<longrightarrow> s = sum_list (last_n n (vs @ [v])))"
proof (cases should)
  case True
  with assms obtain b where b: "a = Some b" "acc_window n b vs" by (auto simp: acc_tracks_def)
  obtain b' where b': "accumulate b v = Some (b', acc_sum b')" "acc_window n b' (vs @ [v])"
    using accumulate_window [OF b(2)] by blast
  with b True acc_window_sum [OF b'(2)] show ?thesis
    by (simp add: accumulate_if_def acc_tracks_def)
qed (simp add: accumulate_if_def acc_tracks_def)

lemma evalScaling_step:
  assumes "tracks g hist"
  shows "\<exists>g' c z. evalScaling g s = Some (g', verdict g' c z) \<and> tracks g' (hist @ [s]) \<and>
           (shouldCount g' \<longrightarrow> c = sum_list (last_n (unat (minSust g'))
              (map (\<lambda>(_, cnt, _, _). cnt) (hist @ [s])))) \<and>
           (shouldSize g' \<longrightarrow> z = sum_list (last_n (unat (minSust g'))
              (map (\<lambda>(_, _, _, osz). osz) (hist @ [s])))) \<and>
           cfg g' = cfg g \<and> minSust g' = minSust g \<and> maxCount g' = maxCount g \<and>
           maxSize g' = maxSize g"
proof -
  obtain ics cnt ocs osz where s: "s = (ics, cnt, ocs, osz)" by (cases s) auto
  let ?g1 = "g\<lparr>inCtr := acc (inCtr g) ics, outCtr := acc (outCtr g) ocs\<rparr>"
  have should: "shouldCount ?g1 = shouldCount g" "shouldSize ?g1 = shouldSize g"
    by (simp_all add: shouldCount_def shouldSize_def)
  obtain ca c where ca: "accumulate_if (shouldCount g) (countAcc g) cnt = Some (ca, c)"
    "acc_tracks (shouldCount g) (unat (minSust g)) ca (map (\<lambda>(_, cnt, _, _). cnt) hist @ [cnt])"
    "shouldCount g \<longrightarrow> c = sum_list (last_n (unat (minSust g)) (map (\<lambda>(_, cnt, _, _). cnt) hist @ [cnt]))"
    using accumulate_if_tracks assms unfolding tracks_def by blast
  obtain sa z where sa: "accumulate_if (shouldSize g) (sizeAcc g) osz = Some (sa, z)"
    "acc_tracks (shouldSize g) (unat (minSust g)) sa (map (\<lambda>(_, _, _, osz). osz) hist @ [osz])"
    "shouldSize g \<longrightarrow> z = sum_list (last_n (unat (minSust g)) (map (\<lambda>(_, _, _, osz). osz) hist @ [osz]))"
    using accumulate_if_tracks assms unfolding tracks_def by blast
  let ?g' = "?g1\<lparr>countAcc := ca, sizeAcc := sa\<rparr>"
  have should': "shouldCount ?g' = shouldCount g" "shouldSize ?g' = shouldSize g"
    by (simp_all add: shouldCount_def shouldSize_def)
  have "evalScaling g s = Some (?g', verdict ?g' c z)"
    using ca(1) sa(1) by (simp add: evalScaling_def s Let_def should)
  moreover have "tracks ?g' (hist @ [s])"
    using assms ca(2) sa(2) by (simp add: tracks_def counts_acc should' s)
  ultimately show ?thesis using ca(3) sa(3) by (intro exI [of _ ?g'] exI [of _ c] exI [of _ z])
     (simp add: should' s)
qed

lemma verdict_spec:
  assumes "tracks g hist" and "length hist < 2 ^ 32" and "0 < minSust g"
    and "shouldCount g \<longrightarrow> c = sum_list (last_n (unat (minSust g)) (map (\<lambda>(_, cnt, _, _). cnt) hist))"
    and "shouldSize g \<longrightarrow> z = sum_list (last_n (unat (minSust g)) (map (\<lambda>(_, _, _, osz). osz) hist))"
  shows "verdict g c z = spec_verdict g hist"
proof -
  let ?m = "unat (minSust g)"
  have map_last: "last_n n (map f xs) = map f (last_n n xs)" for n f and xs :: "(u32 \<times> u64 \<times> u32 \<times> u64) list"
    by (simp add: last_n_def drop_map)
  have ctr: "counts (inCtr g) (map (\<lambda>(ics, _). ics) hist)"
    "counts (outCtr g) (map (\<lambda>(_, _, ocs, _). ocs) hist)"
    using assms(1) by (simp_all add: tracks_def)
  have up: "(waits (inCtr g) \<ge> minSust g \<and> noWaits (outCtr g) \<ge> minSust g) \<longleftrightarrow>
      ?m \<le> length hist \<and> list_all blocked_inbound (last_n ?m hist)"
    using ctr assms(2)
    by (auto simp: counts_def streak_le map_last list_all_iff blocked_inbound_def split: prod.splits)
  have down: "noWaits (inCtr g) \<ge> minSust g \<longleftrightarrow>
      ?m \<le> length hist \<and> list_all (\<lambda>(ics, _). ics = 0) (last_n ?m hist)"
    using ctr assms(2)
    by (auto simp: counts_def streak_le map_last list_all_iff split: prod.splits)
  show ?thesis
    using assms(4,5)
    by (cases "shouldCount g"; cases "shouldSize g")
       (simp_all add: verdict_def spec_verdict_def Let_def up down map_last)
qed

lemma eval_all_tracks:
  assumes "tracks g hist" and "ss \<noteq> []" and "length (hist @ ss) < 2 ^ 32" and "0 < minSust g"
  shows "\<exists>g'. eval_all g ss r = Some (g', spec_verdict g' (hist @ ss)) \<and> tracks g' (hist @ ss) \<and>
           cfg g' = cfg g \<and> minSust g' = minSust g \<and> maxCount g' = maxCount g \<and> maxSize g' = maxSize g"
  using assms
proof (induction ss arbitrary: g hist r)
  case Nil
  then show ?case by simp
next
  case (Cons s ss)
  obtain g1 c z where g1: "evalScaling g s = Some (g1, verdict g1 c z)" "tracks g1 (hist @ [s])"
    "shouldCount g1 \<longrightarrow> c = sum_list (last_n (unat (minSust g1)) (map (\<lambda>(_, cnt, _, _). cnt) (hist @ [s])))"
    "shouldSize g1 \<longrightarrow> z = sum_list (last_n (unat (minSust g1)) (map (\<lambda>(_, _, _, osz). osz) (hist @ [s])))"
    "cfg g1 = cfg g" "minSust g1 = minSust g" "maxCount g1 = maxCount g" "maxSize g1 = maxSize g"
    using evalScaling_step [OF Cons.prems(1), of s] by blast
  have v: "verdict g1 c z = spec_verdict g1 (hist @ [s])"
    using g1 Cons.prems by (intro verdict_spec) simp_all
  show ?case
  proof (cases "ss = []")
    case True
    with g1 v show ?thesis by simp
  next
    case False
    have "\<exists>g'. eval_all g1 ss (verdict g1 c z) = Some (g', spec_verdict g' ((hist @ [s]) @ ss)) \<and>
           tracks g' ((hist @ [s]) @ ss) \<and> cfg g' = cfg g1 \<and> minSust g' = minSust g1 \<and>
           maxCount g' = maxCount g1 \<and> maxSize g' = maxSize g1"
      using Cons.prems g1 False by (intro Cons.IH) simp_all
    with g1 show ?thesis by simp
  qed
qed

lemma tracks_init: "tracks (init_governor oor pcfg comms) []"
proof -
  have "0 < unat m \<and> uint m \<noteq> 0" if "0 < m" for m :: u32
    using that by (auto simp: word_less_nat_alt uint_0_iff)
  then show ?thesis
    by (auto simp: tracks_def init_governor_def Let_def counts_init acc_tracks_def shouldCount_def
        shouldSize_def newMovingAcc_def intro!: acc_window_init)
qed

lemma spec_verdict_cong:
  assumes "cfg g' = cfg g" "minSust g' = minSust g" "maxCount g' = maxCount g" "maxSize g' = maxSize g"
  shows "spec_verdict g' = spec_verdict g"
proof
  fix hist
  have should: "shouldCount g' = shouldCount g" "shouldSize g' = shouldSize g"
    by (simp_all add: shouldCount_def shouldSize_def assms)
  show "spec_verdict g' hist = spec_verdict g hist"
    unfolding spec_verdict_def assms should ..
qed

lemma allowedScaleDelta_up:
  assumes "allowedScaleDelta oor now g True > 0" and "length (streamers g) < 2 ^ 32"
  shows "launchers g = []" and "\<not> isClosing g"
    and "int (length (streamers g)) + allowedScaleDelta oor now g True \<le> uint (MaxConns (cfg g))"
proof -
  show l: "launchers g = []" and "\<not> isClosing g"
    using assms(1) by (auto simp: allowedScaleDelta_def split: if_splits)
  have "uint (of_nat (length (streamers g)) :: u32) = int (length (streamers g))"
    using assms(2) by (metis uint_nat unat_of_nat_u32)
  with assms(1) l show
    "int (length (streamers g)) + allowedScaleDelta oor now g True \<le> uint (MaxConns (cfg g))"
    by (auto simp: allowedScaleDelta_def Let_def word_le_def word_less_def split: if_splits)
qed

section \<open>Properties\<close>



text \<open>
  C4. The scaling decision refines the README's description: from the governor's initial
  state, after any non-empty history of fewer than \<open>2 ^ 32\<close> polls, the code's verdict (kept in
  two wait counters and two ring buffers) is the one computed from the whole history: up
  exactly when each of the last \<open>minSust\<close> periods saw waits inbound and none outbound and the
  window's counts and sizes are within their caps. In particular it never panics.
\<close>

theorem scaling_decision_windowed:
  assumes "0 < minSustainPollPeriods pcfg" and "hist \<noteq> []" and "length hist < 2 ^ 32"
  shows "\<exists>g'. eval_all (init_governor oor pcfg comms) hist r
            = Some (g', spec_verdict (init_governor oor pcfg comms) hist)"
proof -
  let ?g = "init_governor oor pcfg comms"
  have "0 < minSust ?g" using assms(1) by (simp add: init_governor_def Let_def)
  then obtain g' where g': "eval_all ?g hist r = Some (g', spec_verdict g' hist)"
    "cfg g' = cfg ?g" "minSust g' = minSust ?g" "maxCount g' = maxCount ?g" "maxSize g' = maxSize ?g"
    using eval_all_tracks [OF tracks_init, of hist oor pcfg comms r] assms by auto
  with spec_verdict_cong [of g' ?g] show ?thesis by simp
qed

text \<open>A configuration with a window of two polls and no caps, to evaluate the decisions on.\<close>

definition sample_cfg :: ProcCfg where
  "sample_cfg = UnlimitedProcConfig\<lparr>MaxRate := Fin 0, MaxBandwidth := Fin 0,
     MinSustain := 2000000000, PollInterval := 1000000000\<rparr>"

theorem scaling_decision_windowed_witness:
  "\<exists>g'. eval_all (init_governor (\<lambda>_. 0) sample_cfg CommsFast) [(1, 0, 1, 0), (2, 0, 0, 0), (1, 0, 0, 0)] 0
     = Some (g', 1)"
proof -
  have m: "minSustainPollPeriods sample_cfg = 2"
    by (simp add: sample_cfg_def minSustainPollPeriods_def go_mod_def go_div_def)
  have "shouldCount (init_governor (\<lambda>_. 0) sample_cfg CommsFast) = False"
    "shouldSize (init_governor (\<lambda>_. 0) sample_cfg CommsFast) = False"
    by (simp_all add: shouldCount_def shouldSize_def init_governor_def Let_def sample_cfg_def)
  moreover have "minSust (init_governor (\<lambda>_. 0) sample_cfg CommsFast) = 2"
    by (simp add: init_governor_def Let_def m)
  ultimately have "spec_verdict (init_governor (\<lambda>_. 0) sample_cfg CommsFast)
      [(1, 0, 1, 0), (2, 0, 0, 0), (1, 0, 0, 0)] = 1"
    by (simp add: spec_verdict_def Let_def last_n_def blocked_inbound_def)
  with scaling_decision_windowed [of sample_cfg "[(1, 0, 1, 0), (2, 0, 0, 0), (1, 0, 0, 0)]"
      "\<lambda>_. 0" CommsFast 0] m
  show ?thesis by simp
qed

text \<open>
  With no \<open>MinSustain\<close> (the zero value, as in both predefined configurations) the decision
  is to scale up at every poll, whatever was measured: no blocking is needed and no rate or
  bandwidth cap applies.
\<close>

theorem zero_sustain_always_scales:
  assumes "minSust g = 0"
  shows "\<exists>g'. evalScaling g s = Some (g', 1)"
  using assms
  by (cases s) (simp add: evalScaling_def Let_def accumulate_if_def shouldCount_def shouldSize_def
      verdict_def)

theorem zero_sustain_always_scales_witness:
  "\<exists>g'. evalScaling (init_governor (\<lambda>_. 0) UnlimitedProcConfig CommsFast) (0, 0, 0, 0) = Some (g', 1)"
  by (rule zero_sustain_always_scales)
     (simp add: init_governor_def Let_def minSustainPollPeriods_def UnlimitedProcConfig_def)

text \<open>
  \<open>minSustainPollPeriods\<close> is the least number of poll intervals that makes up at least
  \<open>MinSustain\<close>, as long as that number fits 32 bits.
\<close>

theorem minSustainPollPeriods_least:
  assumes "0 < MinSustain c" and "0 < PollInterval c"
    and "MinSustain c \<le> (2 ^ 32 - 1) * PollInterval c"
  shows "unat (minSustainPollPeriods c) \<le> k \<longleftrightarrow> MinSustain c \<le> int k * PollInterval c"
proof -
  define n where "n = (if MinSustain c mod PollInterval c > 0 then MinSustain c div PollInterval c + 1
            else MinSustain c div PollInterval c)"
  have char: "n \<le> j \<longleftrightarrow> MinSustain c \<le> j * PollInterval c" for j
    unfolding n_def by (rule ceil_div_char [OF assms(2)])
  have "n \<le> 2 ^ 32 - 1" using char [of "2 ^ 32 - 1"] assms(3) by simp
  moreover have "0 \<le> n" using assms by (simp add: n_def pos_imp_zdiv_nonneg_iff)
  ultimately have "uint (word_of_int n :: u32) = n" by (intro uint_of_int_u32) simp_all
  moreover have "minSustainPollPeriods c = word_of_int n"
    using assms by (simp add: minSustainPollPeriods_def go_div_pos go_mod_pos Let_def n_def)
  ultimately have "int (unat (minSustainPollPeriods c)) = n" by simp
  with char [of "int k"] show ?thesis by (metis of_nat_le_iff)
qed

theorem minSustainPollPeriods_least_witness:
  "unat (minSustainPollPeriods (sample_cfg\<lparr>MinSustain := 11000000000, PollInterval := 2000000000\<rparr>)) \<le> 6"
  using minSustainPollPeriods_least [of "sample_cfg\<lparr>MinSustain := 11000000000, PollInterval := 2000000000\<rparr>" 6]
  by simp

text \<open>
  Beyond 32 bits the number of periods is truncated: with \<open>MinSustain\<close> of \<open>2 ^ 32\<close> poll
  intervals it is 0, the value that means that no sustained blocking is required.
\<close>

theorem minSustainPollPeriods_truncates:
  "minSustainPollPeriods (sample_cfg\<lparr>MinSustain := 4294967296, PollInterval := 1\<rparr>) = 0"
  by (simp add: minSustainPollPeriods_def go_mod_def go_div_def Let_def)

text \<open>
  C29. As long as the products stay within 53 bits, the floating-point computation of
  \<open>rateAsCount\<close> is exact: for a whole rate \<open>r\<close> it is the number of notifications that \<open>r\<close> per
  second allows in the adjusted sustain period, rounded down.
\<close>

theorem rateAsCount_exact:
  assumes "MaxRate c = Fin (of_int r)" and "0 < r" and "0 < MinSustain c" and "0 < PollInterval c"
    and "0 < minSustainPollPeriods c"
    and "r * uint (minSustainPollPeriods c) * PollInterval c \<le> 2 ^ 53"
  shows "uint (rateAsCount oor c)
         = r * uint (minSustainPollPeriods c) * PollInterval c div 1000000000"
proof -
  define n where "n = uint (minSustainPollPeriods c)"
  define P where "P = r * n * PollInterval c"
  have n: "0 < n" "n < 2 ^ 32"
    using assms(5) unsigned_less [where 'a = int and w = "minSustainPollPeriods c"]
    by (simp_all add: n_def word_less_def)
  have rn: "0 < r * n" "r * n \<le> P" "PollInterval c \<le> P"
    using assms n mult_le_mono2 mult_left_mono [of 1 "PollInterval c" "r * n"]
      mult_right_mono [of 1 "r * n" "PollInterval c"]
    by (simp_all add: P_def int_one_le_iff_zero_less)
  have P: "0 < P" "P \<le> 2 ^ 53" using rn assms(6) by (simp_all add: P_def n_def)
  have e1: "fp_of_int f64 n = Fin (of_int n)"
    using n by (simp add: fp_of_int_def f64_int)
  have e2: "fp_of_int f64 (PollInterval c) = Fin (of_int (PollInterval c))"
    using rn P assms(4) by (simp add: fp_of_int_def f64_int)
  have e3: "mtimes (Fin (of_int r)) (Fin (of_int n)) = Fin (of_int (r * n))"
    using rn P f64_int [of "r * n"] by simp
  have e4: "mtimes (Fin (of_int (r * n))) (Fin (of_int (PollInterval c))) = Fin (of_int P)"
    using P f64_int [of P] by (simp add: P_def)
  have conv: "fp_to_u64 oor (Fin (of_int P)) = word_of_int P"
    using P by (simp add: fp_to_u64_def rat_trunc_def)
  have "rateAsCount oor c = word_of_int P div word_of_int 1000000000"
    using assms
    by (simp add: rateAsCount_def Let_def Second_ns e1 e2 e3 e4 conv del: fp_mul.simps of_int_mult
        flip: n_def)
  moreover have "uint (word_of_int P :: u64) = P" "uint (word_of_int 1000000000 :: u64) = 1000000000"
    using P by (simp_all add: uint_of_int_u64)
  ultimately show ?thesis by (simp add: uint_div P_def n_def)
qed

theorem rateAsCount_exact_witness:
  "uint (rateAsCount (\<lambda>_. 0) (sample_cfg\<lparr>MaxRate := Fin 1000, MinSustain := 11000000000,
     PollInterval := 2000000000\<rparr>)) = 12000"
proof -
  let ?c = "sample_cfg\<lparr>MaxRate := Fin 1000, MinSustain := 11000000000, PollInterval := 2000000000\<rparr>"
  have "minSustainPollPeriods ?c = 6"
    by (simp add: minSustainPollPeriods_def go_mod_def go_div_def Let_def)
  with rateAsCount_exact [of ?c 1000 "\<lambda>_. 0"] show ?thesis by simp
qed

text \<open>
  A positive scaling decision never oversteps \<open>MaxConns\<close>: it is only taken while the
  governor is not closing and no launcher is pending, and the streamers there are plus the
  ones to launch are at most \<open>MaxConns\<close>, whatever the scaler computes (overflow included).
\<close>

theorem scale_up_within_MaxConns:
  assumes "allowedScaleDelta oor now g True > 0" and "length (streamers g) < 2 ^ 32"
  shows "\<not> isClosing g \<and> launchers g = [] \<and>
         int (length (streamers g)) + allowedScaleDelta oor now g True \<le> uint (MaxConns (cfg g))"
  using allowedScaleDelta_up [OF assms] by simp

theorem scale_up_within_MaxConns_witness:
  "allowedScaleDelta (\<lambda>_. 0) 1 (init_governor (\<lambda>_. 0) MinBlockingProcConfig CommsFast) True = 1 \<and>
   1 \<le> uint (MaxConns MinBlockingProcConfig)"
proof -
  let ?g = "init_governor (\<lambda>_. 0) MinBlockingProcConfig CommsFast"
  have d: "allowedScaleDelta (\<lambda>_. 0) 1 ?g True = 1"
    by (simp add: allowedScaleDelta_def init_governor_def Let_def MinBlockingProcConfig_def
        After_def blackoutEnd_def init_tracker_def)
  moreover have "streamers ?g = []" "cfg ?g = MinBlockingProcConfig"
    by (simp_all add: init_governor_def Let_def)
  ultimately show ?thesis using scale_up_within_MaxConns [of "\<lambda>_. 0" 1 ?g] by simp
qed

end
