(* ===== verification/Governor.thy ===== *)
theory Governor
  imports Dispatch
begin

text \<open>
  The governor's event loop (\<open>governor.run\<close> in \<open>apns2/dispatch.go\<close>) with the launchers and
  streamers it controls. The governor's reaction to each event is a function on its record;
  the goroutines are a step relation: each launcher and each streamer has a program counter,
  and any goroutine that can move may move next, so every interleaving is covered. The clock
  readings \<open>now\<close>, the counters that other goroutines advance, and the outcome of starting a
  streamer are chosen freely by the relation.
\<close>

section \<open>Handlers\<close>

definition launchStreamer :: "governor \<Rightarrow> governor" where
  "launchStreamer g = g\<lparr>launchers := launchers g @ [nextWId g], nextWId := nextWId g + 1\<rparr>"

definition tryScaleUp :: "(fp \<Rightarrow> int) \<Rightarrow> gotime \<Rightarrow> governor \<Rightarrow> governor" where
  "tryScaleUp oor now g =
     (let delta = allowedScaleDelta oor now g True
      in if delta \<le> 0 then g else (launchStreamer ^^ nat delta) g)"

definition tryWindDown :: "governor \<Rightarrow> governor" where
  "tryWindDown g = g"

text \<open>A launcher reports: \<open>err\<close> is its error, and without one its streamer is registered.\<close>

definition on_lexit ::
  "(fp \<Rightarrow> int) \<Rightarrow> (int \<Rightarrow> int) \<Rightarrow> gotime \<Rightarrow> gotime \<Rightarrow> governor \<Rightarrow> nat \<Rightarrow> goerr option \<Rightarrow> governor option" where
  "on_lexit oor rnd now now' g l err =
     (case update oor rnd now (tracker g) err of
        None \<Rightarrow> None
      | Some t \<Rightarrow>
          let g1 = g\<lparr>launchers := removeAll l (launchers g), tracker := t\<rparr>;
              g2 = (if err = None then g1\<lparr>streamers := List.insert l (streamers g1)\<rparr> else g1)
          in Some (if launchers g2 = [] then g2\<lparr>lastScale := now'\<rparr> else g2))"

definition on_wexit :: "governor \<Rightarrow> nat \<Rightarrow> bool \<Rightarrow> bool \<Rightarrow> governor" where
  "on_wexit g w didQuit inClosed =
     (let g1 = (if inClosed \<and> \<not> isClosing g then g\<lparr>isClosing := True\<rparr> else g);
          g2 = g1\<lparr>streamers := removeAll w (streamers g1)\<rparr>
      in if didQuit then launchStreamer g2 else g2)"

definition on_tick :: "(fp \<Rightarrow> int) \<Rightarrow> gotime \<Rightarrow> governor \<Rightarrow> counters \<Rightarrow> (governor \<times> counters) option" where
  "on_tick oor now g cs =
     (if isClosing g then Some (g, cs)
      else case updateCountersAndEvalScaling g cs of
             None \<Rightarrow> None
           | Some ((g', s), cs') \<Rightarrow>
               Some (if s > 0 then tryScaleUp oor now g' else if s < 0 then tryWindDown g' else g', cs'))"

text \<open>The test at the end of each round of the loop.\<close>

definition loop_done :: "governor \<Rightarrow> bool" where
  "loop_done g = (isClosing g \<and> length (streamers g) = 0 \<and> length (launchers g) = 0)"

section \<open>The goroutines\<close>

text \<open>
  \<open>LReport e\<close>: the launcher has run \<open>start\<close> (with error \<open>e\<close>, or none) and waits to send itself
  on \<open>lExits\<close>. \<open>WExit q c\<close>: the streamer has left its loop with \<open>didQuit = q\<close> and
  \<open>inClosed = c\<close> and waits to send itself on \<open>wExits\<close>. \<open>w_silent\<close> is a streamer that takes a
  second quit token from its own round trips while it waits, and leaves without reporting
  (theory \<open>Streamer\<close> shows how).
\<close>

datatype lpc = LStarting | LReport "goerr option" | LDone

datatype wpc = WNone | WLive | WExit bool bool | WGone

record gsys =
  gov :: governor
  ctrs :: counters
  lst :: "nat \<Rightarrow> lpc"
  wst :: "nat \<Rightarrow> wpc"
  outClosed :: bool
  gdone :: bool
  lctl :: "nat list"
  wctl :: "nat list"

text \<open>After a handler: the goroutines it started, and whether the loop ends.\<close>

definition settle :: "gsys \<Rightarrow> governor \<Rightarrow> gsys" where
  "settle s g' =
     s\<lparr>gov := g',
       lst := (\<lambda>i. if nextWId (gov s) \<le> i \<and> i < nextWId g' then LStarting else lst s i),
       gdone := loop_done g'\<rparr>"

datatype gevent =
    StartOk nat | StartFail nat goerr | WQuit nat | WClosed nat | CloseOut
  | Poll | LExit nat | WExits nat | Ctl | LAbort nat | WTerm nat | WSilent nat | Count

inductive gstep :: "(fp \<Rightarrow> int) \<Rightarrow> (int \<Rightarrow> int) \<Rightarrow> gsys \<Rightarrow> gevent \<Rightarrow> gsys \<Rightarrow> bool" for oor rnd where
  start_ok: "lst s i = LStarting \<Longrightarrow>
     gstep oor rnd s (StartOk i) (s\<lparr>lst := (lst s)(i := LReport None), wst := (wst s)(i := WLive)\<rparr>)"
| start_fail: "lst s i = LStarting \<Longrightarrow>
     gstep oor rnd s (StartFail i e) (s\<lparr>lst := (lst s)(i := LReport (Some e))\<rparr>)"
| w_quit: "wst s i = WLive \<Longrightarrow>
     gstep oor rnd s (WQuit i) (s\<lparr>wst := (wst s)(i := WExit True False)\<rparr>)"
| w_closed: "wst s i = WLive \<Longrightarrow> outClosed s \<Longrightarrow>
     gstep oor rnd s (WClosed i) (s\<lparr>wst := (wst s)(i := WExit False True)\<rparr>)"
| close_out: "gstep oor rnd s CloseOut (s\<lparr>outClosed := True\<rparr>)"
| count: "gstep oor rnd s Count (s\<lparr>ctrs := cs\<rparr>)"
| poll: "\<not> gdone s \<Longrightarrow> 0 < PollInterval (cfg (gov s)) \<Longrightarrow>
     on_tick oor now (gov s) (ctrs s) = Some (g', cs') \<Longrightarrow>
     gstep oor rnd s Poll ((settle s g')\<lparr>ctrs := cs'\<rparr>)"
| lexit: "\<not> gdone s \<Longrightarrow> lst s i = LReport e \<Longrightarrow>
     on_lexit oor rnd now now' (gov s) i e = Some g' \<Longrightarrow>
     gstep oor rnd s (LExit i) ((settle s g')\<lparr>lst := (lst (settle s g'))(i := LDone)\<rparr>)"
| wexit: "\<not> gdone s \<Longrightarrow> wst s i = WExit q c \<Longrightarrow>
     gstep oor rnd s (WExits i)
       ((settle s (on_wexit (gov s) i q c))\<lparr>wst := (wst s)(i := WGone)\<rparr>)"
| ctl: "\<not> gdone s \<Longrightarrow>
     gstep oor rnd s Ctl (s\<lparr>gdone := True, lctl := launchers (gov s), wctl := streamers (gov s)\<rparr>)"
| l_abort: "lst s i = LReport e \<Longrightarrow> i \<in> set (lctl s) \<Longrightarrow>
     gstep oor rnd s (LAbort i) (s\<lparr>lst := (lst s)(i := LDone)\<rparr>)"
| w_term: "wst s i = WLive \<or> wst s i = WExit q c \<Longrightarrow> i \<in> set (wctl s) \<Longrightarrow>
     gstep oor rnd s (WTerm i) (s\<lparr>wst := (wst s)(i := WGone)\<rparr>)"
| w_silent: "wst s i = WExit True False \<Longrightarrow>
     gstep oor rnd s (WSilent i) (s\<lparr>wst := (wst s)(i := WGone)\<rparr>)"

definition gsys_of :: "governor \<Rightarrow> counters \<Rightarrow> gsys" where
  "gsys_of g cs =
     \<lparr>gov = g, ctrs = cs, lst = (\<lambda>i. if i < nextWId g then LStarting else LDone), wst = (\<lambda>_. WNone),
      outClosed = False, gdone = False, lctl = [], wctl = []\<rparr>"

text \<open>The state in which \<open>run\<close> enters its loop: the first streamers are being launched.\<close>

definition ginit :: "(fp \<Rightarrow> int) \<Rightarrow> gotime \<Rightarrow> ProcCfg \<Rightarrow> CommsCfg \<Rightarrow> counters \<Rightarrow> gsys" where
  "ginit oor now pcfg comms cs = gsys_of (tryScaleUp oor now (init_governor oor pcfg comms)) cs"

inductive greach :: "(fp \<Rightarrow> int) \<Rightarrow> (int \<Rightarrow> int) \<Rightarrow> ProcCfg \<Rightarrow> CommsCfg \<Rightarrow> gsys \<Rightarrow> bool"
  for oor rnd pcfg comms where
  init: "greach oor rnd pcfg comms (ginit oor now pcfg comms cs)"
| step: "greach oor rnd pcfg comms s \<Longrightarrow> gstep oor rnd s ev s' \<Longrightarrow> greach oor rnd pcfg comms s'"

text \<open>Steps other than the hard stop, and what they can lead to.\<close>

inductive soft_steps :: "(fp \<Rightarrow> int) \<Rightarrow> (int \<Rightarrow> int) \<Rightarrow> gsys \<Rightarrow> gsys \<Rightarrow> bool" for oor rnd where
  refl: "soft_steps oor rnd s s"
| step: "soft_steps oor rnd s s' \<Longrightarrow> gstep oor rnd s' ev s'' \<Longrightarrow> ev \<noteq> Ctl \<Longrightarrow> soft_steps oor rnd s s''"

text \<open>
  The slots in use: a streamer being started, running, or waiting to report its end. This is
  what \<open>MaxConns\<close> is about, since each holds or is about to open one connection.
\<close>

fun occupied :: "lpc \<Rightarrow> wpc \<Rightarrow> bool" where
  "occupied LStarting _ = True"
| "occupied _ WLive = True"
| "occupied _ (WExit _ _) = True"
| "occupied _ _ = False"

definition live :: "gsys \<Rightarrow> nat set" where
  "live s = {i. occupied (lst s i) (wst s i)}"

section \<open>What the handlers change\<close>

lemma launch_n:
  "(launchStreamer ^^ n) g =
     g\<lparr>launchers := launchers g @ [nextWId g..<nextWId g + n], nextWId := nextWId g + n\<rparr>"
  by (induction n) (simp_all add: launchStreamer_def)

lemma evalScaling_frame:
  assumes "evalScaling g s = Some (g', v)"
  shows "cfg g' = cfg g" "streamers g' = streamers g" "launchers g' = launchers g"
    "nextWId g' = nextWId g" "isClosing g' = isClosing g"
  using assms
  by (auto simp: evalScaling_def Let_def split: prod.splits option.splits)

lemma on_tick_cases:
  assumes "on_tick oor now g cs = Some (g', cs')" and "length (streamers g) < 2 ^ 32"
  obtains (same) "cfg g' = cfg g" "streamers g' = streamers g" "launchers g' = launchers g"
      "nextWId g' = nextWId g" "isClosing g' = isClosing g"
  | (up) n where "cfg g' = cfg g" "streamers g' = streamers g" "launchers g = []"
      "launchers g' = [nextWId g..<nextWId g + n]" "nextWId g' = nextWId g + n"
      "isClosing g' = isClosing g" "length (streamers g) + n \<le> unat (MaxConns (cfg g))"
proof (cases "isClosing g")
  case True
  with assms(1) same show thesis by (simp add: on_tick_def)
next
  case False
  with assms(1) obtain g1 v cs1 where
    up1: "updateCountersAndEvalScaling g cs = Some ((g1, v), cs1)"
    and g': "g' = (if v > 0 then tryScaleUp oor now g1 else if v < 0 then tryWindDown g1 else g1)"
    by (auto simp: on_tick_def split: option.splits)
  from up1 obtain sample where "evalScaling g sample = Some (g1, v)"
    by (auto simp: updateCountersAndEvalScaling_def Let_def split: prod.splits option.splits)
  note fr = evalScaling_frame [OF this]
  show thesis
  proof (cases "v > 0 \<and> allowedScaleDelta oor now g1 True > 0")
    case False
    with g' fr same show thesis
      by (auto simp: tryScaleUp_def tryWindDown_def Let_def split: if_splits)
  next
    case True
    define n where "n = nat (allowedScaleDelta oor now g1 True)"
    have len: "length (streamers g1) < 2 ^ 32" using assms(2) fr by simp
    have d: "allowedScaleDelta oor now g1 True = int n" using True by (simp add: n_def)
    have "g' = (launchStreamer ^^ n) g1"
      using True g' by (simp add: tryScaleUp_def Let_def n_def)
    moreover have "launchers g1 = []"
      using allowedScaleDelta_up(1) True len by blast
    moreover have "length (streamers g1) + n \<le> unat (MaxConns (cfg g1))"
    proof -
      have "int (length (streamers g1) + n) \<le> int (unat (MaxConns (cfg g1)))"
        using allowedScaleDelta_up(3) [of oor now g1] True len d by simp
      then show ?thesis by (simp only: of_nat_le_iff)
    qed
    ultimately show thesis using fr by (intro up [of n]) (simp_all add: launch_n)
  qed
qed

lemma on_lexit_frame:
  assumes "on_lexit oor rnd now now' g l e = Some g'"
  shows "cfg g' = cfg g" "nextWId g' = nextWId g" "isClosing g' = isClosing g"
    "launchers g' = removeAll l (launchers g)"
    "streamers g' = (if e = None then List.insert l (streamers g) else streamers g)"
  using assms by (auto simp: on_lexit_def Let_def split: option.splits if_splits)

lemma on_wexit_frame:
  "cfg (on_wexit g w q c) = cfg g"
  "nextWId (on_wexit g w q c) = (if q then nextWId g + 1 else nextWId g)"
  "isClosing (on_wexit g w q c) = (isClosing g \<or> c)"
  "launchers (on_wexit g w q c) = (if q then launchers g @ [nextWId g] else launchers g)"
  "streamers (on_wexit g w q c) = removeAll w (streamers g)"
  by (auto simp: on_wexit_def launchStreamer_def Let_def)

section \<open>The invariant of the goroutines\<close>

text \<open>
  While the loop runs, the launchers are exactly the goroutines that have not reported yet,
  and every streamer goroutine is registered or its launcher still has to report.
\<close>

definition pending :: "lpc \<Rightarrow> bool" where
  "pending l = (l \<noteq> LDone)"

fun running :: "wpc \<Rightarrow> bool" where
  "running WLive = True"
| "running (WExit _ _) = True"
| "running _ = False"

text \<open>What holds of one goroutine pair, and what the loop keeps of it while it runs.\<close>

definition pair_ok :: "nat \<Rightarrow> nat \<Rightarrow> lpc \<Rightarrow> wpc \<Rightarrow> bool" where
  "pair_ok n i l w \<longleftrightarrow>
     (n \<le> i \<longrightarrow> l = LDone \<and> w = WNone) \<and>
     (w \<noteq> WNone \<longrightarrow> l = LReport None \<or> l = LDone) \<and>
     (l = LReport None \<longrightarrow> w \<noteq> WNone)"

definition reg_ok :: "governor \<Rightarrow> nat \<Rightarrow> lpc \<Rightarrow> wpc \<Rightarrow> bool" where
  "reg_ok g i l w \<longleftrightarrow>
     (i \<in> set (launchers g) \<longleftrightarrow> pending l) \<and>
     (running w \<and> l = LDone \<longrightarrow> i \<in> set (streamers g)) \<and>
     (i \<in> set (streamers g) \<longrightarrow> w \<noteq> WNone)"

definition ginv :: "ProcCfg \<Rightarrow> gsys \<Rightarrow> bool" where
  "ginv pcfg s \<longleftrightarrow>
     cfg (gov s) = pcfg \<and>
     distinct (streamers (gov s)) \<and>
     (\<forall>i \<in> set (streamers (gov s)). i < nextWId (gov s)) \<and>
     (\<forall>i. pair_ok (nextWId (gov s)) i (lst s i) (wst s i)) \<and>
     (\<not> gdone s \<longrightarrow> \<not> loop_done (gov s) \<and> (\<forall>i. reg_ok (gov s) i (lst s i) (wst s i)))"

lemma pair_ok_old: "pair_ok n i l w \<Longrightarrow> n \<le> n' \<Longrightarrow> pair_ok n' i l w"
  by (auto simp: pair_ok_def)

lemma pair_ok_new: "n \<le> i \<Longrightarrow> i < n' \<Longrightarrow> pair_ok n i l w \<Longrightarrow> pair_ok n' i LStarting w"
  by (auto simp: pair_ok_def)

lemma ginv_init: "ginv pcfg (ginit oor now pcfg comms cs)"
proof -
  have g0: "launchers (init_governor oor pcfg comms) = []" "nextWId (init_governor oor pcfg comms) = 0"
    "streamers (init_governor oor pcfg comms) = []" "\<not> isClosing (init_governor oor pcfg comms)"
    "cfg (init_governor oor pcfg comms) = pcfg"
    by (simp_all add: init_governor_def Let_def)
  let ?g = "tryScaleUp oor now (init_governor oor pcfg comms)"
  have "cfg ?g = pcfg \<and> streamers ?g = [] \<and> \<not> isClosing ?g \<and> launchers ?g = [0..<nextWId ?g]"
    using g0 by (simp add: tryScaleUp_def Let_def launch_n)
  then show ?thesis
    by (auto simp: ginit_def gsys_of_def ginv_def loop_done_def pending_def pair_ok_def reg_ok_def)
qed

lemma ginv_settled:
  assumes "cfg (gov s) = pcfg" and "distinct (streamers (gov s))"
    and "\<forall>j \<in> set (streamers (gov s)). j < nextWId (gov s)"
    and "\<And>j. pair_ok (nextWId (gov s)) j (lst s j) (wst s j)"
    and "\<And>j. reg_ok (gov s) j (lst s j) (wst s j)"
    and "gdone s = loop_done (gov s)"
  shows "ginv pcfg s"
  using assms by (simp add: ginv_def)

lemma ginv_poll:
  assumes "ginv pcfg s" and nd: "\<not> gdone s" and tick: "on_tick oor now (gov s) (ctrs s) = Some (g', cs')"
    and small: "length (streamers (gov s)) < 2 ^ 32"
  shows "ginv pcfg ((settle s g')\<lparr>ctrs := cs'\<rparr>)"
  using tick small
proof (cases rule: on_tick_cases)
  case same
  with assms(1) nd show ?thesis
    by (auto simp: ginv_def settle_def loop_done_def reg_ok_def)
next
  case (up n)
  have "\<And>i. lst s i = LDone" using assms(1) nd up(3) by (auto simp: ginv_def reg_ok_def pending_def)
  with assms(1) nd up show ?thesis
    by (force simp: ginv_def settle_def loop_done_def pending_def reg_ok_def pair_ok_def)
qed

lemma ginv_lexit:
  assumes inv: "ginv pcfg s" and nd: "\<not> gdone s" and l: "lst s i = LReport e"
    and upd: "on_lexit oor rnd now now' (gov s) i e = Some g'"
  shows "ginv pcfg ((settle s g')\<lparr>lst := (lst (settle s g'))(i := LDone)\<rparr>)"
proof -
  note fr = on_lexit_frame [OF upd]
  have pair: "pair_ok (nextWId (gov s)) j (lst s j) (wst s j)"
    and reg: "reg_ok (gov s) j (lst s j) (wst s j)" for j
    using inv nd by (simp_all add: ginv_def)
  have i: "i < nextWId (gov s)" and w: "wst s i \<noteq> WNone \<longleftrightarrow> e = None"
    using pair [of i] l by (auto simp: pair_ok_def not_le [symmetric])
  let ?l = "(lst s)(i := LDone)"
  have "lst ((settle s g')\<lparr>lst := (lst (settle s g'))(i := LDone)\<rparr>) j = ?l j" for j
    using fr(2) by (auto simp: settle_def)
  moreover have "pair_ok (nextWId g') j (?l j) (wst s j)" for j
    using pair [of j] i w fr(2) by (auto simp: pair_ok_def)
  moreover have "reg_ok g' j (?l j) (wst s j)" for j
    using reg [of j] w by (cases "wst s j") (auto simp: reg_ok_def fr pending_def)
  moreover have "cfg g' = pcfg" "distinct (streamers g')" "\<forall>j \<in> set (streamers g'). j < nextWId g'"
    using inv i by (auto simp: ginv_def fr distinct_insert)
  ultimately show ?thesis by (intro ginv_settled) (auto simp: settle_def)
qed

lemma ginv_wexit:
  assumes inv: "ginv pcfg s" and nd: "\<not> gdone s" and x: "wst s i = WExit q c"
  shows "ginv pcfg ((settle s (on_wexit (gov s) i q c))\<lparr>wst := (wst s)(i := WGone)\<rparr>)"
proof -
  define g' where "g' = on_wexit (gov s) i q c"
  note fr = on_wexit_frame [of "gov s" i q c, folded g'_def]
  let ?n = "nextWId (gov s)"
  let ?l = "\<lambda>j. if ?n \<le> j \<and> j < nextWId g' then LStarting else lst s j"
  have pair: "pair_ok ?n j (lst s j) (wst s j)"
    and reg: "reg_ok (gov s) j (lst s j) (wst s j)" for j
    using inv nd by (simp_all add: ginv_def)
  have i: "i < ?n" using pair [of i] x by (auto simp: pair_ok_def not_le [symmetric])
  have "pair_ok (nextWId g') j (?l j) (((wst s)(i := WGone)) j)" for j
    using pair [of j] i x fr(2) by (auto simp: pair_ok_def)
  moreover have "reg_ok g' j (?l j) (((wst s)(i := WGone)) j)" for j
    using reg [of j] pair [of j] i by (auto simp: reg_ok_def pair_ok_def pending_def fr split: if_splits)
  moreover have "cfg g' = pcfg" "distinct (streamers g')" "\<forall>j \<in> set (streamers g'). j < nextWId g'"
    using inv by (auto simp: ginv_def fr distinct_removeAll)
  ultimately show ?thesis
    unfolding g'_def [symmetric] by (intro ginv_settled) (simp_all add: settle_def)
qed

text \<open>A goroutine moving by itself keeps the pair consistent and stays registered.\<close>

lemma ginv_local:
  assumes "ginv pcfg s" and "pair_ok (nextWId (gov s)) i l w"
    and "\<not> gdone s \<Longrightarrow> reg_ok (gov s) i l w"
  shows "ginv pcfg (s\<lparr>lst := (lst s)(i := l), wst := (wst s)(i := w)\<rparr>)"
  using assms by (auto simp: ginv_def)

lemma ginv_lst: "ginv pcfg (s\<lparr>lst := (lst s)(i := l), wst := (wst s)(i := wst s i)\<rparr>) \<Longrightarrow>
    ginv pcfg (s\<lparr>lst := (lst s)(i := l)\<rparr>)"
  by (simp add: ginv_def)

lemma ginv_wst: "ginv pcfg (s\<lparr>lst := (lst s)(i := lst s i), wst := (wst s)(i := w)\<rparr>) \<Longrightarrow>
    ginv pcfg (s\<lparr>wst := (wst s)(i := w)\<rparr>)"
  by (simp add: ginv_def)

lemma ginv_parts:
  assumes "ginv pcfg s"
  shows "pair_ok (nextWId (gov s)) i (lst s i) (wst s i)"
    and "\<not> gdone s \<Longrightarrow> reg_ok (gov s) i (lst s i) (wst s i)"
  using assms by (simp_all add: ginv_def)

lemma ginv_step:
  assumes "gstep oor rnd s ev s'" and "ginv pcfg s"
    and "0 < PollInterval pcfg \<Longrightarrow> length (streamers (gov s)) < 2 ^ 32"
    and ctl: "\<not> gdone s \<Longrightarrow> lctl s = [] \<and> wctl s = []"
  shows "ginv pcfg s'"
  using assms
proof (cases rule: gstep.cases)
  case (start_ok i)
  with ginv_parts [OF assms(2), of i] assms(2) show ?thesis
    by (simp add: ginv_local pair_ok_def reg_ok_def pending_def)
next
  case (start_fail i e)
  with ginv_parts [OF assms(2), of i] assms(2) show ?thesis
    unfolding start_fail(2) by (intro ginv_lst ginv_local) (auto simp: pair_ok_def reg_ok_def pending_def)
next
  case (w_quit i)
  with ginv_parts [OF assms(2), of i] assms(2) show ?thesis
    unfolding w_quit(2) by (intro ginv_wst ginv_local) (auto simp: pair_ok_def reg_ok_def)
next
  case (w_closed i)
  with ginv_parts [OF assms(2), of i] assms(2) show ?thesis
    unfolding w_closed(2) by (intro ginv_wst ginv_local) (auto simp: pair_ok_def reg_ok_def)
next
  case (l_abort i e)
  with ginv_parts [OF assms(2), of i] assms(2) ctl show ?thesis
    unfolding l_abort(2) by (intro ginv_lst ginv_local) (auto simp: pair_ok_def reg_ok_def)
next
  case (w_term i q c)
  with ginv_parts [OF assms(2), of i] assms(2) ctl show ?thesis
    unfolding w_term(2) by (intro ginv_wst ginv_local) (auto simp: pair_ok_def reg_ok_def)
next
  case (w_silent i)
  with ginv_parts [OF assms(2), of i] assms(2) show ?thesis
    unfolding w_silent(2) by (intro ginv_wst ginv_local) (auto simp: pair_ok_def reg_ok_def)
next
  case poll
  moreover have "cfg (gov s) = pcfg" using assms(2) by (simp add: ginv_def)
  ultimately show ?thesis using assms by (simp add: ginv_poll)
next
  case lexit
  with assms show ?thesis by (simp add: ginv_lexit)
next
  case wexit
  with assms show ?thesis by (simp add: ginv_wexit)
qed (simp_all add: ginv_def)

section \<open>How many slots are occupied\<close>

lemma ginv_streamers_len: "ginv pcfg s \<Longrightarrow> length (streamers (gov s)) \<le> nextWId (gov s)"
proof -
  assume inv: "ginv pcfg s"
  then have "card (set (streamers (gov s))) \<le> card {..<nextWId (gov s)}"
    by (intro card_mono) (auto simp: ginv_def)
  with inv show ?thesis by (simp add: ginv_def distinct_card)
qed

lemma occupied_eq: "occupied l w \<longleftrightarrow> l = LStarting \<or> running w"
  by (cases l; cases w) simp_all

lemma live_bound: "ginv pcfg s \<Longrightarrow> live s \<subseteq> {..<nextWId (gov s)}"
  by (auto simp: live_def ginv_def pair_ok_def occupied_eq not_le [symmetric])

lemma live_finite: "ginv pcfg s \<Longrightarrow> finite (live s)"
  using live_bound finite_subset by blast

lemma live_registered:
  assumes "ginv pcfg s" and "\<not> gdone s" and "launchers (gov s) = []"
  shows "live s \<subseteq> set (streamers (gov s))"
proof
  fix i
  assume "i \<in> live s"
  with ginv_parts [OF assms(1), of i] assms(2,3) show "i \<in> set (streamers (gov s))"
    by (auto simp: live_def occupied_eq reg_ok_def pending_def)
qed

lemma live_poll:
  assumes inv: "ginv pcfg s" and nd: "\<not> gdone s" and tick: "on_tick oor now (gov s) (ctrs s) = Some (g', cs')"
    and small: "length (streamers (gov s)) < 2 ^ 32"
  shows "card (live ((settle s g')\<lparr>ctrs := cs'\<rparr>)) \<le> max (card (live s)) (unat (MaxConns pcfg))"
  using tick small
proof (cases rule: on_tick_cases)
  case same
  then have "live ((settle s g')\<lparr>ctrs := cs'\<rparr>) = live s"
    by (auto simp: live_def settle_def)
  then show ?thesis by simp
next
  case (up n)
  let ?new = "{nextWId (gov s)..<nextWId (gov s) + n}"
  have "live ((settle s g')\<lparr>ctrs := cs'\<rparr>) \<subseteq> live s \<union> ?new"
    using up(5) by (auto simp: live_def settle_def split: if_splits)
  also have "\<dots> \<subseteq> set (streamers (gov s)) \<union> ?new"
    using live_registered [OF inv nd up(3)] by blast
  finally have "card (live ((settle s g')\<lparr>ctrs := cs'\<rparr>)) \<le> card (set (streamers (gov s)) \<union> ?new)"
    by (intro card_mono) auto
  also have "\<dots> \<le> card (set (streamers (gov s))) + card ?new" by (rule card_Un_le)
  also have "\<dots> \<le> unat (MaxConns pcfg)"
    using inv up(7) by (simp add: ginv_def distinct_card)
  finally show ?thesis by simp
qed

lemma live_wexit:
  assumes inv: "ginv pcfg s" and x: "wst s i = WExit q c"
  shows "card (live ((settle s (on_wexit (gov s) i q c))\<lparr>wst := (wst s)(i := WGone)\<rparr>)) \<le> card (live s)"
proof -
  let ?s' = "(settle s (on_wexit (gov s) i q c))\<lparr>wst := (wst s)(i := WGone)\<rparr>"
  have i: "i \<in> live s" using x by (simp add: live_def occupied_eq)
  have "lst s i \<noteq> LStarting" using ginv_parts(1) [OF inv, of i] x by (auto simp: pair_ok_def)
  then have "live ?s' \<subseteq> insert (nextWId (gov s)) (live s - {i})"
    by (auto simp: live_def occupied_eq settle_def on_wexit_frame split: if_splits)
  then have "card (live ?s') \<le> card (insert (nextWId (gov s)) (live s - {i}))"
    using live_finite [OF inv] by (intro card_mono) auto
  also have "\<dots> \<le> Suc (card (live s - {i}))" using live_finite [OF inv] by (simp add: card_insert_if)
  also have "\<dots> = card (live s)" using card_Suc_Diff1 [OF live_finite [OF inv] i] by simp
  finally show ?thesis .
qed

lemma live_step:
  assumes "gstep oor rnd s ev s'" and inv: "ginv pcfg s"
    and small: "0 < PollInterval pcfg \<Longrightarrow> length (streamers (gov s)) < 2 ^ 32"
  shows "card (live s') \<le> (if 0 < PollInterval pcfg then max (card (live s)) (unat (MaxConns pcfg))
                           else card (live s))"
proof -
  have shrink: "card (live s') \<le> card (live s)" if "live s' \<subseteq> live s"
    using that live_finite [OF inv] by (rule card_mono [rotated])
  from assms(1) have "card (live s') \<le> card (live s) \<or>
      0 < PollInterval pcfg \<and> card (live s') \<le> max (card (live s)) (unat (MaxConns pcfg))"
  proof (cases rule: gstep.cases)
    case (poll now g' cs')
    moreover have "cfg (gov s) = pcfg" using inv by (simp add: ginv_def)
    ultimately show ?thesis using live_poll [OF inv] small by simp
  next
    case (lexit i e now now' g')
    have "live s' \<subseteq> live s"
      using lexit on_lexit_frame(2) [OF lexit(5)]
      by (auto simp: live_def occupied_eq settle_def split: if_splits)
    then show ?thesis using shrink by blast
  next
    case (wexit i q c)
    then show ?thesis using live_wexit [OF inv] by simp
  qed (use shrink in \<open>auto simp: live_def occupied_eq subset_iff\<close>)
  then show ?thesis by auto
qed

lemma on_tick_nextWId:
  assumes "on_tick oor now g cs = Some (g', cs')"
  shows "nextWId g \<le> nextWId g'"
proof (cases "isClosing g")
  case True
  with assms show ?thesis by (simp add: on_tick_def)
next
  case False
  with assms obtain g1 v cs1 where
    up: "updateCountersAndEvalScaling g cs = Some ((g1, v), cs1)"
    and g': "g' = (if v > 0 then tryScaleUp oor now g1 else if v < 0 then tryWindDown g1 else g1)"
    by (auto simp: on_tick_def split: option.splits)
  from up have "nextWId g1 = nextWId g"
    using evalScaling_frame(4)
    by (auto simp: updateCountersAndEvalScaling_def Let_def split: prod.splits option.splits)
  with g' show ?thesis by (auto simp: tryScaleUp_def tryWindDown_def Let_def launch_n)
qed

lemma nextWId_mono:
  assumes "gstep oor rnd s ev s'"
  shows "nextWId (gov s) \<le> nextWId (gov s')"
  using assms
  by (cases rule: gstep.cases) (auto simp: settle_def on_lexit_frame on_wexit_frame dest: on_tick_nextWId)

section \<open>Reachable states\<close>

definition first_launch :: "(fp \<Rightarrow> int) \<Rightarrow> gotime \<Rightarrow> ProcCfg \<Rightarrow> CommsCfg \<Rightarrow> nat" where
  "first_launch oor now pcfg comms = nextWId (tryScaleUp oor now (init_governor oor pcfg comms))"

definition small_if_polling :: "ProcCfg \<Rightarrow> gsys \<Rightarrow> bool" where
  "small_if_polling pcfg s \<longleftrightarrow> (0 < PollInterval pcfg \<longrightarrow> nextWId (gov s) < 2 ^ 32)"

lemma ctl_lists: "gstep oor rnd s ev s' \<Longrightarrow> (\<not> gdone s \<Longrightarrow> lctl s = [] \<and> wctl s = []) \<Longrightarrow>
    \<not> gdone s' \<Longrightarrow> lctl s' = [] \<and> wctl s' = []"
  by (erule gstep.cases) (auto simp: settle_def)

lemma gdone_stays: "gstep oor rnd s ev s' \<Longrightarrow> gdone s \<Longrightarrow> gdone s'"
  by (erule gstep.cases) auto

lemma live_init: "live (ginit oor now pcfg comms cs) = {..<first_launch oor now pcfg comms}"
  by (auto simp: live_def ginit_def gsys_of_def first_launch_def)

lemma greach_invariant:
  assumes "greach oor rnd pcfg comms s" and "small_if_polling pcfg s"
    and first: "\<And>now. first_launch oor now pcfg comms \<le> B"
    and cap: "0 < PollInterval pcfg \<Longrightarrow> unat (MaxConns pcfg) \<le> B"
  shows "ginv pcfg s \<and> (\<not> gdone s \<longrightarrow> lctl s = [] \<and> wctl s = []) \<and> card (live s) \<le> B"
  using assms(1,2)
proof (induction rule: greach.induct)
  case (init now cs)
  show ?case
    using first [of now] ginv_init [of pcfg oor now comms cs]
    by (simp add: live_init) (simp add: ginit_def gsys_of_def)
next
  case (step s ev s')
  have small: "small_if_polling pcfg s"
    using step.prems nextWId_mono [OF step.hyps(2)] by (auto simp: small_if_polling_def)
  with step.IH have IH: "ginv pcfg s" "\<not> gdone s \<Longrightarrow> lctl s = [] \<and> wctl s = []" "card (live s) \<le> B"
    by auto
  have len: "length (streamers (gov s)) < 2 ^ 32" if "0 < PollInterval pcfg"
    using ginv_streamers_len [OF IH(1)] small that by (simp add: small_if_polling_def)
  have "ginv pcfg s'" using ginv_step [OF step.hyps(2) IH(1) len IH(2)] by blast
  moreover have "\<not> gdone s' \<longrightarrow> lctl s' = [] \<and> wctl s' = []"
    using ctl_lists [OF step.hyps(2) IH(2)] by blast
  moreover have "card (live s') \<le> B"
    using live_step [OF step.hyps(2) IH(1) len] IH(3) cap by (auto split: if_splits)
  ultimately show ?case by blast
qed

lemma first_launch_le: "first_launch oor now pcfg comms \<le> unat (MaxConns pcfg)"
proof -
  let ?g = "init_governor oor pcfg comms"
  have g0: "nextWId ?g = 0" "streamers ?g = []" "cfg ?g = pcfg"
    by (simp_all add: init_governor_def Let_def)
  show ?thesis
  proof (cases "allowedScaleDelta oor now ?g True > 0")
    case True
    from allowedScaleDelta_up(3) [OF True] g0 have
      "int (nat (allowedScaleDelta oor now ?g True)) \<le> int (unat (MaxConns pcfg))" by simp
    then show ?thesis
      using True g0 by (simp only: of_nat_le_iff) (simp add: first_launch_def tryScaleUp_def Let_def launch_n)
  next
    case False
    then show ?thesis using g0 by (simp add: first_launch_def tryScaleUp_def Let_def)
  qed
qed

lemma first_launch_unlimited: "first_launch oor now UnlimitedProcConfig comms \<le> 1"
proof -
  let ?g = "init_governor oor UnlimitedProcConfig comms"
  have g0: "nextWId ?g = 0" "streamers ?g = []" "launchers ?g = []" "cfg ?g = UnlimitedProcConfig"
    by (simp_all add: init_governor_def Let_def)
  have "fp_mul f32 (Fin 2) (fp_of_int f32 0) = Fin 0" by code_simp
  then have "Apply oor (Exponential (Fin 2)) 0 = 1"
    by (simp add: fp_to_u32_def rat_trunc_def Let_def)
  then have "allowedScaleDelta oor now ?g True \<le> 1"
    by (simp add: allowedScaleDelta_def g0 Let_def) (simp add: UnlimitedProcConfig_def)
  then show ?thesis using g0 by (auto simp: first_launch_def tryScaleUp_def Let_def launch_n)
qed

section \<open>Runs without a hard stop\<close>

lemma soft_invariant:
  assumes "soft_steps oor rnd s s'" and "I s"
    and "\<And>s ev s'. I s \<Longrightarrow> gstep oor rnd s ev s' \<Longrightarrow> ev \<noteq> Ctl \<Longrightarrow> I s'"
  shows "I s'"
  using assms by (induction rule: soft_steps.induct) blast+

text \<open>
  Two dead ends. \<open>hung\<close>: closing, no goroutine left, but a streamer still registered.
  \<open>dead\<close>: not closing, no goroutine left, nothing registered, and no ticker.
\<close>

definition quiet :: "gsys \<Rightarrow> bool" where
  "quiet s \<longleftrightarrow> (\<forall>i. lst s i = LDone \<and> \<not> running (wst s i))"

definition hung :: "gsys \<Rightarrow> bool" where
  "hung s \<longleftrightarrow> \<not> gdone s \<and> isClosing (gov s) \<and> streamers (gov s) \<noteq> [] \<and> quiet s"

definition dead :: "gsys \<Rightarrow> bool" where
  "dead s \<longleftrightarrow> \<not> gdone s \<and> \<not> isClosing (gov s) \<and> PollInterval (cfg (gov s)) \<le> 0 \<and> quiet s"

lemma quietD: "quiet s \<Longrightarrow> lst s i = LDone" "quiet s \<Longrightarrow> \<not> running (wst s i)"
  by (simp_all add: quiet_def)

lemma quiet_step:
  assumes "quiet s" and "gstep oor rnd s ev s'" and "ev \<noteq> Ctl"
  shows "ev = CloseOut \<and> s' = s\<lparr>outClosed := True\<rparr> \<or> ev = Count \<and> (\<exists>cs. s' = s\<lparr>ctrs := cs\<rparr>) \<or>
    ev = Poll \<and> \<not> gdone s \<and> 0 < PollInterval (cfg (gov s)) \<and>
      (\<exists>now g' cs'. on_tick oor now (gov s) (ctrs s) = Some (g', cs') \<and>
        s' = (settle s g')\<lparr>ctrs := cs'\<rparr>)"
  using assms(2,3) quietD [OF assms(1)]
  by (cases rule: gstep.cases) (auto, (metis running.simps(1,2))+)

lemma hung_step: "hung s \<Longrightarrow> gstep oor rnd s ev s' \<Longrightarrow> ev \<noteq> Ctl \<Longrightarrow> hung s'"
  using quiet_step [of s oor rnd ev s']
  by (auto simp: hung_def quiet_def on_tick_def settle_def loop_done_def)

lemma dead_step: "dead s \<Longrightarrow> gstep oor rnd s ev s' \<Longrightarrow> ev \<noteq> Ctl \<Longrightarrow> dead s'"
  using quiet_step [of s oor rnd ev s'] by (auto simp: dead_def quiet_def)

lemma hung_stays: "hung s \<Longrightarrow> soft_steps oor rnd s s' \<Longrightarrow> hung s'"
  by (rule soft_invariant [where I = hung]) (auto intro: hung_step)

lemma dead_stays: "dead s \<Longrightarrow> soft_steps oor rnd s s' \<Longrightarrow> dead s'"
  by (rule soft_invariant [where I = dead]) (auto intro: dead_step)

text \<open>A streamer that was started, the loop has ended, and its channel was not closed.\<close>

definition orphan :: "nat \<Rightarrow> gsys \<Rightarrow> bool" where
  "orphan i s \<longleftrightarrow> gdone s \<and> wst s i \<noteq> WNone \<and> i \<notin> set (wctl s)"

lemma orphan_step: "orphan i s \<Longrightarrow> gstep oor rnd s ev s' \<Longrightarrow> orphan i s'"
  by (erule gstep.cases) (auto simp: orphan_def)

lemma orphan_stays: "orphan i s \<Longrightarrow> soft_steps oor rnd s s' \<Longrightarrow> orphan i s'"
  by (rule soft_invariant [where I = "orphan i"]) (auto intro: orphan_step)

section \<open>A first streamer\<close>

definition no_counts :: counters where
  "no_counts = \<lparr>c_wait = 0, c_rate = 0, s_wait = (\<lambda>_. 0), s_size = (\<lambda>_. 0)\<rparr>"

definition started :: "(fp \<Rightarrow> int) \<Rightarrow> gsys" where
  "started oor = ginit oor 1 MinBlockingProcConfig CommsFast no_counts"

lemma started_gov:
  "gov (started oor) = launchStreamer (init_governor oor MinBlockingProcConfig CommsFast)"
proof -
  have "allowedScaleDelta oor 1 (init_governor oor MinBlockingProcConfig CommsFast) True = 1"
    by (simp add: allowedScaleDelta_def init_governor_def Let_def MinBlockingProcConfig_def
        After_def blackoutEnd_def init_tracker_def)
  then show ?thesis by (simp add: started_def ginit_def gsys_of_def tryScaleUp_def)
qed

lemma started_simps:
  "launchers (gov (started oor)) = [0]" "streamers (gov (started oor)) = []"
  "nextWId (gov (started oor)) = 1" "\<not> isClosing (gov (started oor))"
  "cfg (gov (started oor)) = MinBlockingProcConfig"
  "tracker (gov (started oor)) = init_tracker CommsFast"
  by (simp_all add: started_gov launchStreamer_def init_governor_def Let_def)

lemma started_state:
  "lst (started oor) = (\<lambda>i. if i < 1 then LStarting else LDone)" "wst (started oor) = (\<lambda>_. WNone)"
  "\<not> gdone (started oor)" "\<not> outClosed (started oor)" "lctl (started oor) = []"
  "wctl (started oor) = []"
  using started_simps(3) [of oor] by (simp_all add: started_def ginit_def gsys_of_def)

lemma started_reach: "greach oor rnd MinBlockingProcConfig CommsFast (started oor)"
  unfolding started_def by (rule greach.init)

lemma up_reach:
  "greach oor rnd MinBlockingProcConfig CommsFast
     ((started oor)\<lparr>lst := (\<lambda>i. if i = 0 then LReport None else LDone),
                     wst := (\<lambda>i. if i = 0 then WLive else WNone)\<rparr>)"
proof -
  have "gstep oor rnd (started oor) (StartOk 0)
      ((started oor)\<lparr>lst := (lst (started oor))(0 := LReport None),
                     wst := (wst (started oor))(0 := WLive)\<rparr>)"
    by (rule gstep.start_ok) (simp add: started_state)
  moreover have "(lst (started oor))(0 := LReport None) = (\<lambda>i. if i = 0 then LReport None else LDone)"
    "(wst (started oor))(0 := WLive) = (\<lambda>i. if i = 0 then WLive else WNone)"
    by (auto simp: started_state)
  ultimately show ?thesis using greach.step [OF started_reach] by metis
qed

lemma preset_jitter:
  "\<exists>j. mtimes (typed 10) Percent = Fin j \<and> 0 < j \<and> j \<le> 1 \<and> 1 \<le> 4000000000 * j"
proof -
  have "(case mtimes (typed 10) Percent of
      Fin j \<Rightarrow> 0 < j \<and> j \<le> 1 \<and> 1 \<le> 4000000000 * j | _ \<Rightarrow> False)"
    by code_simp
  then show ?thesis by (auto split: fp.splits)
qed

lemma preset_trackers: "tracker_ok (init_tracker CommsFast)" "tracker_ok (init_tracker CommsSlow)"
  using preset_jitter
  by (auto simp: tracker_ok_def init_tracker_def CommsFast_def CommsSlow_def seconds_def nano_def
      jitter_ok_def)

lemma overtaken_hung:
  "\<exists>s. greach oor rnd MinBlockingProcConfig CommsFast s \<and> outClosed s \<and> hung s \<and>
       nextWId (gov s) = 1"
proof -
  let ?r = "greach oor rnd MinBlockingProcConfig CommsFast"
  let ?g = "gov (started oor)"
  define s1 where "s1 = (started oor)\<lparr>lst := (\<lambda>i. if i = 0 then LReport None else LDone),
                     wst := (\<lambda>i. if i = 0 then WLive else WNone)\<rparr>"
  define s2 where "s2 = s1\<lparr>outClosed := True\<rparr>"
  define s3 where "s3 = s2\<lparr>wst := (wst s2)(0 := WExit False True)\<rparr>"
  define s4 where "s4 = (settle s3 (on_wexit (gov s3) 0 False True))\<lparr>wst := (wst s3)(0 := WGone)\<rparr>"
  have r1: "?r s1" unfolding s1_def by (rule up_reach)
  have r2: "?r s2" unfolding s2_def by (rule greach.step [OF r1 gstep.close_out])
  have r3: "?r s3" unfolding s3_def
    by (rule greach.step [OF r2 gstep.w_closed]) (simp_all add: s2_def s1_def)
  have s3: "gov s3 = ?g" "lst s3 = (\<lambda>i. if i = 0 then LReport None else LDone)"
    "wst s3 0 = WExit False True" "\<And>i. i \<noteq> 0 \<Longrightarrow> wst s3 i = WNone" "\<not> gdone s3" "outClosed s3"
    by (simp_all add: s3_def s2_def s1_def started_state)
  have r4: "?r s4" unfolding s4_def
    by (rule greach.step [OF r3 gstep.wexit]) (simp_all add: s3)
  have g4: "gov s4 = ?g\<lparr>isClosing := True\<rparr>" "outClosed s4"
    by (simp_all add: s4_def settle_def s3 on_wexit_def Let_def started_simps)
  have s4: "lst s4 = (\<lambda>i. if i = 0 then LReport None else LDone)" "\<not> gdone s4"
    "\<And>i. \<not> running (wst s4 i)"
    using s3(4) by (auto simp: s4_def settle_def s3 on_wexit_frame loop_done_def started_simps)
  obtain g5 where g5: "on_lexit oor rnd 1 1 (gov s4) 0 None = Some g5"
    by (simp add: on_lexit_def success_step Let_def)
  note fr = on_lexit_frame [OF g5]
  define s5 where "s5 = (settle s4 g5)\<lparr>lst := (lst (settle s4 g5))(0 := LDone)\<rparr>"
  have r5: "?r s5" unfolding s5_def
    by (rule greach.step [OF r4 gstep.lexit [OF s4(2) _ g5]]) (simp add: s4)
  have "isClosing g5" "streamers g5 = [0]"
    by (simp_all add: fr g4 started_simps)
  then have "hung s5"
    by (auto simp: hung_def quiet_def s5_def settle_def fr s4 loop_done_def)
  moreover have "outClosed s5" "nextWId (gov s5) = 1"
    using g4 by (simp_all add: s5_def settle_def fr started_simps)
  ultimately show ?thesis using r5 by blast
qed

lemma failed_dead:
  "\<exists>s. greach (\<lambda>_. 0) (\<lambda>_. 0) MinBlockingProcConfig CommsFast s \<and> outClosed s \<and> dead s \<and>
       launchers (gov s) = [] \<and> streamers (gov s) = []"
proof -
  let ?r = "greach (\<lambda>_. 0) (\<lambda>_. 0) MinBlockingProcConfig CommsFast"
  let ?s0 = "started (\<lambda>_. 0)"
  let ?e = "Foreign ''connection refused''"
  define s1 where "s1 = ?s0\<lparr>lst := (lst ?s0)(0 := LReport (Some ?e))\<rparr>"
  have r1: "?r s1" unfolding s1_def
    by (rule greach.step [OF started_reach gstep.start_fail]) (simp add: started_state)
  have s1: "gov s1 = gov ?s0" "\<not> gdone s1" "lst s1 0 = LReport (Some ?e)"
    "\<And>i. i \<noteq> 0 \<Longrightarrow> lst s1 i = LDone" "\<And>i. wst s1 i = WNone"
    by (simp_all add: s1_def started_state)
  obtain t where "update (\<lambda>_. 0) (\<lambda>_. 0) 1 (init_tracker CommsFast) (Some ?e) = Some t"
    using update_ok [OF preset_trackers(1), of "\<lambda>_. 0" "\<lambda>_. 0" 1 "Some ?e"]
    by (auto simp: rnd_ok_def)
  then obtain g2 where g2: "on_lexit (\<lambda>_. 0) (\<lambda>_. 0) 1 1 (gov s1) 0 (Some ?e) = Some g2"
    by (simp add: on_lexit_def s1 started_simps Let_def)
  note fr = on_lexit_frame [OF g2]
  define s2 where "s2 = (settle s1 g2)\<lparr>lst := (lst (settle s1 g2))(0 := LDone)\<rparr>"
  have r2: "?r s2" unfolding s2_def
    by (rule greach.step [OF r1 gstep.lexit [OF s1(2,3) g2]])
  have g: "\<not> isClosing g2" "streamers g2 = []" "launchers g2 = []" "PollInterval (cfg g2) = 0"
    by (simp_all add: fr s1 started_simps) (simp add: MinBlockingProcConfig_def)
  have "lst s2 i = LDone" for i
    using s1(4) by (cases "i = 0") (auto simp: s2_def settle_def fr)
  then have "dead s2" using g by (simp add: dead_def quiet_def s2_def settle_def loop_done_def s1)
  then have "dead (s2\<lparr>outClosed := True\<rparr>)" by (simp add: dead_def quiet_def)
  moreover have "?r (s2\<lparr>outClosed := True\<rparr>)" by (rule greach.step [OF r2 gstep.close_out])
  ultimately show ?thesis using g by (intro exI [of _ "s2\<lparr>outClosed := True\<rparr>"]) (simp add: s2_def settle_def)
qed

lemma occupied_running: "l = LDone \<and> \<not> running w \<Longrightarrow> \<not> occupied l w"
  by (cases w) simp_all

lemma killed_orphan:
  "\<exists>s. greach oor rnd MinBlockingProcConfig CommsFast s \<and> wst s 0 = WLive \<and> orphan 0 s"
proof -
  define s1 where "s1 = (started oor)\<lparr>lst := (\<lambda>i. if i = 0 then LReport None else LDone),
                     wst := (\<lambda>i. if i = 0 then WLive else WNone)\<rparr>"
  let ?s2 = "s1\<lparr>gdone := True, lctl := launchers (gov s1), wctl := streamers (gov s1)\<rparr>"
  have "greach oor rnd MinBlockingProcConfig CommsFast s1" unfolding s1_def by (rule up_reach)
  then have "greach oor rnd MinBlockingProcConfig CommsFast ?s2"
    by (rule greach.step [OF _ gstep.ctl]) (simp add: s1_def started_state)
  moreover have "wst ?s2 0 = WLive" "orphan 0 ?s2"
    by (simp_all add: orphan_def s1_def started_simps)
  ultimately show ?thesis by blast
qed

section \<open>Properties\<close>

text \<open>
  C1. The number of connections is bounded: in every interleaving of the governor, its
  launchers and its streamers (failed starts, streamers that quit and are replaced, streamers
  that end before their launcher has reported), the streamers being started, running or
  ending are never more than \<open>MaxConns\<close>. Fewer than \<open>2 ^ 32\<close> launches are assumed, since the
  code converts the counts to 32 bits.
\<close>

theorem live_within_MaxConns:
  assumes "greach oor rnd pcfg comms s" and "nextWId (gov s) < 2 ^ 32"
  shows "card (live s) \<le> unat (MaxConns pcfg)"
  using greach_invariant [OF assms(1), of "unat (MaxConns pcfg)"] assms(2) first_launch_le
  by (simp add: small_if_polling_def)

theorem live_within_MaxConns_witness:
  "card (live ((started (\<lambda>_. 0))\<lparr>lst := (\<lambda>i. if i = 0 then LReport None else LDone),
                     wst := (\<lambda>i. if i = 0 then WLive else WNone)\<rparr>))
     \<le> unat (MaxConns MinBlockingProcConfig)"
  by (rule live_within_MaxConns [OF up_reach]) (simp add: started_simps)

text \<open>
  \<open>UnlimitedProcConfig\<close>, documented as unlimited exponential scaling, never scales: it
  leaves \<open>PollInterval\<close> zero, so the governor has no ticker, and in no reachable state is there
  more than one streamer.
\<close>

theorem unlimited_never_scales:
  assumes "greach oor rnd UnlimitedProcConfig comms s"
  shows "card (live s) \<le> 1"
proof -
  have "PollInterval UnlimitedProcConfig = 0" by (simp add: UnlimitedProcConfig_def)
  then show ?thesis
    using greach_invariant [OF assms, of 1] first_launch_unlimited
    by (simp add: small_if_polling_def)
qed

theorem unlimited_never_scales_witness:
  "card (live (ginit (\<lambda>_. 0) 1 UnlimitedProcConfig CommsFast no_counts)) \<le> 1"
  by (rule unlimited_never_scales [of "\<lambda>_. 0" "\<lambda>_. 0" CommsFast]) (rule greach.init)





text \<open>
  Without polling, a failed start is final: when the only launcher of the minimal
  configuration reports an error, nothing starts another one, and closing the outbound channel
  does not end the loop either, because no streamer is there to notice.
\<close>

theorem failed_start_hangs:
  "\<exists>s. greach (\<lambda>_. 0) (\<lambda>_. 0) MinBlockingProcConfig CommsFast s \<and> outClosed s \<and>
       launchers (gov s) = [] \<and> streamers (gov s) = [] \<and>
       (\<forall>s'. soft_steps (\<lambda>_. 0) (\<lambda>_. 0) s s' \<longrightarrow> \<not> gdone s' \<and> live s' = {})"
proof -
  obtain s where s: "greach (\<lambda>_. 0) (\<lambda>_. 0) MinBlockingProcConfig CommsFast s" "outClosed s"
    "dead s" "launchers (gov s) = []" "streamers (gov s) = []"
    using failed_dead by blast
  have "\<not> gdone s' \<and> live s' = {}" if "soft_steps (\<lambda>_. 0) (\<lambda>_. 0) s s'" for s'
    using dead_stays [OF s(3) that] by (auto simp: dead_def live_def quiet_def occupied_running)
  with s show ?thesis by blast
qed

theorem failed_start_hangs_witness:
  "\<exists>s. greach (\<lambda>_. 0) (\<lambda>_. 0) MinBlockingProcConfig CommsFast s \<and> outClosed s \<and> live s = {}"
  using failed_start_hangs soft_steps.refl by blast

text \<open>
  A hard stop can leave a streamer behind: if it comes after a launcher has started its
  streamer and before the governor has taken the report, the loop ends without closing that
  streamer's control channel, and no later step closes it.
\<close>

theorem kill_leaves_orphan:
  "\<exists>s. greach oor rnd MinBlockingProcConfig CommsFast s \<and> gdone s \<and> wst s 0 = WLive \<and>
       (\<forall>s'. soft_steps oor rnd s s' \<longrightarrow> 0 \<notin> set (wctl s'))"
proof -
  obtain s where "greach oor rnd MinBlockingProcConfig CommsFast s" "wst s 0 = WLive" and o: "orphan 0 s"
    using killed_orphan by blast
  moreover have "gdone s" using o by (simp add: orphan_def)
  moreover have "0 \<notin> set (wctl s')" if "soft_steps oor rnd s s'" for s'
    using orphan_stays [OF o that] by (simp add: orphan_def)
  ultimately show ?thesis by blast
qed

theorem kill_leaves_orphan_witness:
  "\<exists>s. greach (\<lambda>_. 0) (\<lambda>_. 0) MinBlockingProcConfig CommsFast s \<and> gdone s \<and> wst s 0 = WLive"
  using kill_leaves_orphan [of "\<lambda>_. 0" "\<lambda>_. 0"] by blast

section \<open>The governor's record stays well formed\<close>

text \<open>Its counters and ring buffers stand for some history of samples, and its tracker is in range.\<close>

definition well_formed :: "governor \<Rightarrow> bool" where
  "well_formed g \<longleftrightarrow> (\<exists>hist. tracks g hist) \<and> tracker_ok (tracker g)"

lemma tracks_same:
  assumes "inCtr g' = inCtr g" "outCtr g' = outCtr g" "countAcc g' = countAcc g" "sizeAcc g' = sizeAcc g"
    and "cfg g' = cfg g" "minSust g' = minSust g"
  shows "tracks g' hist = tracks g hist"
  using assms by (simp add: tracks_def shouldCount_def shouldSize_def)

lemma well_formed_launch: "well_formed g \<Longrightarrow> well_formed (launchStreamer g)"
proof -
  have "tracks (launchStreamer g) hist = tracks g hist" for hist
    by (intro tracks_same) (simp_all add: launchStreamer_def)
  moreover have "tracker (launchStreamer g) = tracker g" by (simp add: launchStreamer_def)
  ultimately show "well_formed g \<Longrightarrow> well_formed (launchStreamer g)" by (simp add: well_formed_def)
qed

lemma well_formed_launches: "well_formed g \<Longrightarrow> well_formed ((launchStreamer ^^ n) g)"
  by (induction n) (simp_all add: well_formed_launch)

lemma well_formed_scale: "well_formed g \<Longrightarrow> well_formed (tryScaleUp oor now g)"
  by (simp add: tryScaleUp_def Let_def well_formed_launches)

lemma on_tick_well_formed:
  assumes "well_formed g"
  shows "\<exists>g' cs'. on_tick oor now g cs = Some (g', cs') \<and> well_formed g'"
proof (cases "isClosing g")
  case False
  obtain sample cs1 where gather: "gather g cs = (sample, cs1)" by (cases "gather g cs")
  obtain hist where hist: "tracks g hist" using assms by (auto simp: well_formed_def)
  from evalScaling_step [OF hist, of sample] obtain g1 v where
    g1: "evalScaling g sample = Some (g1, v)" "tracks g1 (hist @ [sample])" by blast
  have "tracker g1 = tracker g"
    using g1(1) by (auto simp: evalScaling_def Let_def split: prod.splits option.splits)
  with g1(2) assms have "well_formed g1" by (auto simp: well_formed_def)
  with False gather g1(1) show ?thesis
    by (simp add: on_tick_def updateCountersAndEvalScaling_def well_formed_scale tryWindDown_def)
qed (use assms in \<open>simp add: on_tick_def\<close>)

lemma on_lexit_well_formed:
  assumes "well_formed g" and "rnd_ok rnd"
  shows "\<exists>g'. on_lexit oor rnd now now' g l err = Some g' \<and> well_formed g'"
proof -
  obtain t where t: "update oor rnd now (tracker g) err = Some t" "tracker_ok t"
    using update_ok [of "tracker g" rnd oor now err] assms by (auto simp: well_formed_def)
  let ?g' = "the (on_lexit oor rnd now now' g l err)"
  have g': "on_lexit oor rnd now now' g l err = Some ?g'" and "tracker ?g' = t"
    using t(1) by (simp_all add: on_lexit_def Let_def)
  moreover have "tracks ?g' hist = tracks g hist" for hist
    using t(1) by (intro tracks_same) (simp_all add: on_lexit_def Let_def)
  ultimately have "well_formed ?g'" using assms(1) t(2) by (simp add: well_formed_def)
  with g' show ?thesis by blast
qed

lemma on_wexit_well_formed:
  assumes "well_formed g"
  shows "well_formed (on_wexit g w q c)"
proof -
  have "tracker (on_wexit g w q c) = tracker g"
    by (simp add: on_wexit_def launchStreamer_def Let_def)
  moreover have "tracks (on_wexit g w q c) hist = tracks g hist" for hist
    by (intro tracks_same) (simp_all add: on_wexit_def launchStreamer_def Let_def)
  ultimately show ?thesis using assms by (simp add: well_formed_def)
qed

lemma well_formed_step:
  assumes "gstep oor rnd s ev s'" and "rnd_ok rnd" and wf: "well_formed (gov s)"
  shows "well_formed (gov s')"
  using assms(1)
proof (cases rule: gstep.cases)
  case (poll now g' cs')
  with on_tick_well_formed [OF wf, of oor now "ctrs s"] show ?thesis by (simp add: settle_def)
next
  case (lexit i e now now' g')
  with on_lexit_well_formed [OF wf assms(2), of oor now now' i e] show ?thesis
    by (simp add: settle_def)
next
  case (wexit i q c)
  with on_wexit_well_formed [OF wf] show ?thesis by (simp add: settle_def)
qed (use wf in simp_all)

lemma well_formed_reach:
  assumes "greach oor rnd pcfg comms s" and "tracker_ok (init_tracker comms)" and "rnd_ok rnd"
  shows "well_formed (gov s)"
  using assms(1)
proof (induction rule: greach.induct)
  case (init now cs)
  have "well_formed (init_governor oor pcfg comms)"
    unfolding well_formed_def
    by (intro conjI exI [of _ "[]"] tracks_init) (simp add: init_governor_def Let_def assms(2))
  then show ?case by (simp add: ginit_def gsys_of_def well_formed_scale)
next
  case (step s ev s')
  then show ?case using assms(3) well_formed_step by blast
qed



end
