(* ===== verification/Notification.thy ===== *)
theory Notification
  imports Response "HOL-Library.AList"
begin

text \<open>
  \<open>apns2/notification.go\<close>: notifications, the routing headers with their cache, what
  \<open>Notification.write\<close> puts on a request, and the reader of the payload. Strings and byte
  slices are both lists of bytes. \<open>json.Marshal\<close> of a payload that is neither text nor bytes is
  the argument \<open>marshal\<close>.
\<close>

section \<open>HTTP requests\<close>

text \<open>
  \<open>http.Header.Set\<close>: names are kept in their canonical form, in which a letter is upper case at
  the start and after a hyphen and lower case elsewhere. A name with a byte that is no token
  byte is kept as it is.
\<close>

definition is_upper :: "char \<Rightarrow> bool" where
  "is_upper c = (65 \<le> (of_char c :: nat) \<and> (of_char c :: nat) \<le> 90)"

definition is_lower :: "char \<Rightarrow> bool" where
  "is_lower c = (97 \<le> (of_char c :: nat) \<and> (of_char c :: nat) \<le> 122)"

definition to_upper :: "char \<Rightarrow> char" where
  "to_upper c = (if is_lower c then char_of ((of_char c :: nat) - 32) else c)"

definition to_lower :: "char \<Rightarrow> char" where
  "to_lower c = (if is_upper c then char_of ((of_char c :: nat) + 32) else c)"

definition is_token :: "char \<Rightarrow> bool" where
  "is_token c = (is_upper c \<or> is_lower c \<or> is_digit c \<or> c \<in> set ''!#$%&*+-.^_|~'' \<or>
                 (of_char c :: nat) = 39 \<or> (of_char c :: nat) = 96)"

fun canonical_from :: "bool \<Rightarrow> string \<Rightarrow> string" where
  "canonical_from up [] = []"
| "canonical_from up (c # cs) =
     (if up then to_upper c else to_lower c) # canonical_from (c = CHR ''-'') cs"

definition canonical_key :: "string \<Rightarrow> string" where
  "canonical_key k = (if list_all is_token k then canonical_from True k else k)"

type_synonym http_header = "(string \<times> string list) list"

definition Header_Set :: "string \<Rightarrow> string \<Rightarrow> http_header \<Rightarrow> http_header" where
  "Header_Set k v h = AList.update (canonical_key k) [v] h"

definition Header_Get :: "string \<Rightarrow> http_header \<Rightarrow> string" where
  "Header_Get k h =
     (case map_of h (canonical_key k) of Some (v # _) \<Rightarrow> v | _ \<Rightarrow> [])"

section \<open>The payload reader\<close>

record sliceReader =
  buf :: string
  off :: nat

definition newSliceReader :: "string \<Rightarrow> sliceReader" where
  "newSliceReader b = \<lparr>buf = b, off = 0\<rparr>"

text \<open>\<open>Read\<close> into a slice of \<open>n\<close> bytes: the bytes copied, and whether the error is \<open>io.EOF\<close>.\<close>

definition sliceReader_Read :: "nat \<Rightarrow> sliceReader \<Rightarrow> (string \<times> bool) \<times> sliceReader" where
  "sliceReader_Read n r =
     (if off r \<ge> length (buf r) then (if n = 0 then (([], False), r) else (([], True), r))
      else let d = take n (drop (off r) (buf r)) in ((d, False), r\<lparr>off := off r + length d\<rparr>))"

definition sliceReader_Len :: "sliceReader \<Rightarrow> int" where
  "sliceReader_Len r = int (length (buf r))"

definition ResetClone :: "sliceReader \<Rightarrow> sliceReader" where
  "ResetClone r = \<lparr>buf = buf r, off = 0\<rparr>"

record http_request =
  rMethod :: string
  rHost :: string
  rRawPath :: string
  rHeader :: http_header
  rBody :: "sliceReader option"
  rContentLength :: int

section \<open>Notifications and their headers\<close>

definition PriorityLow :: int where
  "PriorityLow = 5"

definition PriorityHigh :: int where
  "PriorityHigh = 10"

record Header =
  Topic :: string
  CollapseID :: string
  Priority :: int
  Expiration :: gotime
  httpHeaders :: "(string \<times> string) list option"

datatype 'j payload = PBytes string | PString string | PValue 'j

record 'j Notification =
  nApnsID :: string
  Recipient :: string
  nHeader :: "Header option"
  nPayload :: "'j payload"

definition build_headers :: "Header \<Rightarrow> (string \<times> string) list" where
  "build_headers h =
     (if Topic h \<noteq> [] then [(''apns-topic'', Topic h)] else []) @
     (if CollapseID h \<noteq> [] then [(''apns-collapse-id'', CollapseID h)] else []) @
     (if Priority h > 0 then [(''apns-priority'', dec_int (Priority h))] else []) @
     (if Expiration h \<noteq> 0 then [(''apns-expiration'', dec_int (Time_Unix (Expiration h)))] else [])"

definition getHTTPHeaders :: "Header \<Rightarrow> (string \<times> string) list \<times> Header" where
  "getHTTPHeaders h =
     (case httpHeaders h of
        Some res \<Rightarrow> (res, h)
      | None \<Rightarrow> let hdrs = build_headers h in (hdrs, h\<lparr>httpHeaders := Some hdrs\<rparr>))"

definition Header_write :: "Header \<Rightarrow> http_request \<Rightarrow> http_request \<times> Header" where
  "Header_write h r =
     (let (hdrs, h') = getHTTPHeaders h
      in (r\<lparr>rHeader := fold (\<lambda>(k, v). Header_Set k v) hdrs (rHeader r)\<rparr>, h'))"

definition newPayloadReader :: "('j \<Rightarrow> goerr + string) \<Rightarrow> 'j payload \<Rightarrow> goerr + sliceReader" where
  "newPayloadReader marshal p =
     (case p of
        PBytes b \<Rightarrow> Inr (newSliceReader b)
      | PString s \<Rightarrow> Inr (newSliceReader s)
      | PValue v \<Rightarrow> (case marshal v of Inl e \<Rightarrow> Inl e | Inr b \<Rightarrow> Inr (newSliceReader b)))"

text \<open>
  The request and the notification afterwards (its header may have been given its cache), with
  the error if there is one. A notification without a header panics (\<open>None\<close>).
\<close>

definition Notification_write ::
  "('j \<Rightarrow> goerr + string) \<Rightarrow> 'j Notification \<Rightarrow> http_request \<Rightarrow>
   (http_request \<times> 'j Notification \<times> goerr option) option" where
  "Notification_write marshal n r =
     (let r1 = r\<lparr>rHeader := Header_Set ''Content-Type'' ''application/json; charset=utf-8'' (rHeader r)\<rparr>;
          r2 = (if nApnsID n \<noteq> [] then r1\<lparr>rHeader := Header_Set ''apns-id'' (nApnsID n) (rHeader r1)\<rparr>
                else r1)
      in case nHeader n of
           None \<Rightarrow> None
         | Some h \<Rightarrow>
             let (r3, h') = Header_write h r2;
                 n' = n\<lparr>nHeader := Some h'\<rparr>
             in case newPayloadReader marshal (nPayload n) of
                  Inl e \<Rightarrow> Some (r3, n', Some e)
                | Inr body \<Rightarrow>
                    Some (r3\<lparr>rBody := Some body, rContentLength := sliceReader_Len body\<rparr>, n', None))"

text \<open>A consumer that reads through a buffer of \<open>n\<close> bytes, \<open>n > 0\<close>, until \<open>io.EOF\<close>.\<close>

function drain :: "nat \<Rightarrow> sliceReader \<Rightarrow> string" where
  "drain n r =
     (case sliceReader_Read (Suc n) r of
        ((_, True), _) \<Rightarrow> []
      | ((d, False), r') \<Rightarrow> d @ drain n r')"
  by pat_completeness auto
termination
  by (relation "measure (\<lambda>(_, r). length (buf r) - off r)")
     (auto simp: sliceReader_Read_def Let_def split: if_splits)

declare drain.simps [simp del]

section \<open>The cache of the headers: the interface\<close>

text \<open>
  A getter that keeps its first result: it changes nothing that the result is computed from,
  and a filled cache is what it returns. Then every call returns what the first one computed.
\<close>

locale memo =
  fixes get :: "'s \<Rightarrow> 'r \<times> 's"
    and fresh :: "'s \<Rightarrow> 'r"
    and cached :: "'s \<Rightarrow> 'r option"
  assumes get_hit: "cached s = Some x \<Longrightarrow> get s = (x, s)"
    and get_miss: "cached s = None \<Longrightarrow> fst (get s) = fresh s"
    and get_stores: "cached (snd (get s)) = Some (fst (get s))"
    and get_frame: "fresh (snd (get s)) = fresh s"
begin

definition coherent :: "'s \<Rightarrow> bool" where
  "coherent s = (cached s = None \<or> cached s = Some (fresh s))"

lemma get_fresh: "coherent s \<Longrightarrow> fst (get s) = fresh s"
  using get_hit get_miss by (cases "cached s") (auto simp: coherent_def)

lemma get_coherent: "coherent s \<Longrightarrow> coherent (snd (get s))"
  using get_stores [of s] get_fresh [of s] get_frame [of s] by (simp add: coherent_def)

lemma get_again: "get (snd (get s)) = (fst (get s), snd (get s))"
  using get_stores get_hit by metis

end

lemma build_headers_frame: "build_headers (h\<lparr>httpHeaders := c\<rparr>) = build_headers h"
  by (simp add: build_headers_def)

interpretation hdrs: memo getHTTPHeaders build_headers httpHeaders
  by unfold_locales (auto simp: getHTTPHeaders_def Let_def build_headers_frame split: option.splits)

section \<open>What is written\<close>

lemma map_of_Set: "map_of (Header_Set k v h) = (map_of h)(canonical_key k \<mapsto> [v])"
  by (simp add: Header_Set_def update_conv')

lemma canonical_keys:
  "canonical_key ''Content-Type'' = ''Content-Type''" "canonical_key ''apns-id'' = ''Apns-Id''"
  "canonical_key ''apns-topic'' = ''Apns-Topic''"
  "canonical_key ''apns-collapse-id'' = ''Apns-Collapse-Id''"
  "canonical_key ''apns-priority'' = ''Apns-Priority''"
  "canonical_key ''apns-expiration'' = ''Apns-Expiration''"
  "canonical_key ''Authorization'' = ''Authorization''"
  by code_simp+

text \<open>The headers that a notification asks for, by their names on the wire.\<close>

definition wanted :: "'j Notification \<Rightarrow> Header \<Rightarrow> string \<Rightarrow> string list option" where
  "wanted n h k =
     (if k = ''Content-Type'' then Some [''application/json; charset=utf-8'']
      else if k = ''Apns-Id'' \<and> nApnsID n \<noteq> [] then Some [nApnsID n]
      else if k = ''Apns-Topic'' \<and> Topic h \<noteq> [] then Some [Topic h]
      else if k = ''Apns-Collapse-Id'' \<and> CollapseID h \<noteq> [] then Some [CollapseID h]
      else if k = ''Apns-Priority'' \<and> Priority h > 0 then Some [dec_int (Priority h)]
      else if k = ''Apns-Expiration'' \<and> Expiration h \<noteq> 0
        then Some [dec_int (Time_Unix (Expiration h))]
      else None)"

definition opt_upd :: "bool \<Rightarrow> string \<Rightarrow> string \<Rightarrow> (string \<Rightarrow> string list option) \<Rightarrow>
    string \<Rightarrow> string list option" where
  "opt_upd c k v m = (if c then m(k \<mapsto> [v]) else m)"

lemma opt_upd_apply: "opt_upd c k v m x = (if x = k \<and> c then Some [v] else m x)"
  by (simp add: opt_upd_def)

abbreviation set_all :: "(string \<times> string) list \<Rightarrow> http_header \<Rightarrow> http_header" where
  "set_all \<equiv> fold (\<lambda>(k, v). Header_Set k v)"

lemma set_all_opt:
  "map_of (set_all (if c then [(k, v)] else []) r) = opt_upd c (canonical_key k) v (map_of r)"
  by (simp add: map_of_Set opt_upd_def)

lemma set_all_built:
  "map_of (set_all (build_headers h) r) =
     opt_upd (Expiration h \<noteq> 0) ''Apns-Expiration'' (dec_int (Time_Unix (Expiration h)))
       (opt_upd (Priority h > 0) ''Apns-Priority'' (dec_int (Priority h))
         (opt_upd (CollapseID h \<noteq> []) ''Apns-Collapse-Id'' (CollapseID h)
           (opt_upd (Topic h \<noteq> []) ''Apns-Topic'' (Topic h) (map_of r))))"
  unfolding build_headers_def fold_append comp_def set_all_opt canonical_keys ..

lemma opt_upds:
  assumes "distinct [k0, k1, k2, k3, k4, k5]"
  shows "opt_upd c5 k5 v5 (opt_upd c4 k4 v4 (opt_upd c3 k3 v3 (opt_upd c2 k2 v2 (opt_upd c1 k1 v1
           [k0 \<mapsto> v0])))) =
         (\<lambda>k. if k = k0 then Some v0
              else if k = k1 \<and> c1 then Some [v1]
              else if k = k2 \<and> c2 then Some [v2]
              else if k = k3 \<and> c3 then Some [v3]
              else if k = k4 \<and> c4 then Some [v4]
              else if k = k5 \<and> c5 then Some [v5]
              else None)"
  using assms by (auto simp: opt_upd_apply)

lemma wire_names_distinct:
  "distinct [''Content-Type'', ''Apns-Id'', ''Apns-Topic'', ''Apns-Collapse-Id'', ''Apns-Priority'',
     ''Apns-Expiration'']"
  by simp

lemma wanted_upds:
  "opt_upd (Expiration h \<noteq> 0) ''Apns-Expiration'' (dec_int (Time_Unix (Expiration h)))
     (opt_upd (Priority h > 0) ''Apns-Priority'' (dec_int (Priority h))
       (opt_upd (CollapseID h \<noteq> []) ''Apns-Collapse-Id'' (CollapseID h)
         (opt_upd (Topic h \<noteq> []) ''Apns-Topic'' (Topic h)
           (opt_upd (nApnsID n \<noteq> []) ''Apns-Id'' (nApnsID n)
             [''Content-Type'' \<mapsto> [''application/json; charset=utf-8'']])))) = wanted n h"
  unfolding opt_upds [OF wire_names_distinct] wanted_def by (rule refl)

lemma write_headers:
  assumes "nHeader n = Some h"
  shows "\<exists>r' n' err. Notification_write marshal n r = Some (r', n', err) \<and>
    rHeader r' = set_all (fst (getHTTPHeaders h))
      (let r1 = Header_Set ''Content-Type'' ''application/json; charset=utf-8'' (rHeader r)
       in if nApnsID n \<noteq> [] then Header_Set ''apns-id'' (nApnsID n) r1 else r1)"
  using assms
  by (cases "newPayloadReader marshal (nPayload n)")
     (simp_all add: Notification_write_def Let_def Header_write_def split_beta)

lemma drain_drop: "drain n r = drop (off r) (buf r)"
proof (induction n r rule: drain.induct)
  case (1 n r)
  show ?case
  proof (cases "off r \<ge> length (buf r)")
    case True
    then show ?thesis by (subst drain.simps) (simp add: sliceReader_Read_def)
  next
    case False
    let ?d = "take (Suc n) (drop (off r) (buf r))"
    have read: "sliceReader_Read (Suc n) r = ((?d, False), r\<lparr>off := off r + length ?d\<rparr>)"
      using False by (simp add: sliceReader_Read_def Let_def)
    have "drain n r = ?d @ drain n (r\<lparr>off := off r + length ?d\<rparr>)"
      by (subst drain.simps) (simp only: read prod.case bool.case)
    also have "drain n (r\<lparr>off := off r + length ?d\<rparr>) = drop (off r + length ?d) (buf r)"
      using "1.IH" [OF read [symmetric] refl refl] by simp
    also have "\<dots> = drop (length ?d) (drop (off r) (buf r))" by (simp add: add.commute)
    also have "?d @ \<dots> = drop (off r) (buf r)"
      by (metis append_take_drop_id length_take min.absorb_iff2 nat_le_linear take_all drop_all)
    finally show ?thesis .
  qed
qed

section \<open>Properties\<close>

text \<open>
  C22. A request carries exactly the headers its notification asks for: written on a request
  without headers, with a cache that is empty or was filled from the header as it is, each of
  the six names of the protocol is present with its value exactly when its field is set, and
  nothing else is.
\<close>

theorem write_headers_exact:
  assumes "nHeader n = Some h" and "httpHeaders h = None \<or> httpHeaders h = Some (build_headers h)"
    and "rHeader r = []"
  shows "\<exists>r' n' err. Notification_write marshal n r = Some (r', n', err) \<and>
           map_of (rHeader r') = wanted n h"
proof -
  have g: "fst (getHTTPHeaders h) = build_headers h"
    using assms(2) by (intro hdrs.get_fresh) (simp add: hdrs.coherent_def)
  obtain r' n' err where w: "Notification_write marshal n r = Some (r', n', err)"
    "rHeader r' = set_all (build_headers h)
      (let r1 = Header_Set ''Content-Type'' ''application/json; charset=utf-8'' []
       in if nApnsID n \<noteq> [] then Header_Set ''apns-id'' (nApnsID n) r1 else r1)"
    using write_headers [OF assms(1), of marshal r] unfolding g assms(3) by blast
  have "map_of (rHeader r') = wanted n h"
    unfolding w(2) set_all_built wanted_upds [symmetric] Let_def
    by (cases "nApnsID n = []")
       (simp_all only: map_of_Set canonical_keys opt_upd_def map_of.simps if_True if_False simp_thms)
  with w(1) show ?thesis by blast
qed

definition sample_header :: Header where
  "sample_header = \<lparr>Topic = ''t'', CollapseID = [], Priority = 5, Expiration = 0, httpHeaders = None\<rparr>"

definition sample_notification :: "nat Notification" where
  "sample_notification = \<lparr>nApnsID = [], Recipient = ''ab'', nHeader = Some sample_header,
     nPayload = PString ''{}''\<rparr>"

definition blank_request :: http_request where
  "blank_request = \<lparr>rMethod = ''POST'', rHost = [], rRawPath = [], rHeader = [], rBody = None,
     rContentLength = 0\<rparr>"

theorem write_headers_exact_witness:
  "\<exists>r' n' err. Notification_write (\<lambda>_. Inl ErrCanceled) sample_notification blank_request
      = Some (r', n', err) \<and> map_of (rHeader r') ''Apns-Topic'' = Some [''t''] \<and>
      map_of (rHeader r') ''Apns-Expiration'' = None"
proof -
  have "\<exists>r' n' err. Notification_write (\<lambda>_. Inl ErrCanceled) sample_notification blank_request
      = Some (r', n', err) \<and> map_of (rHeader r') = wanted sample_notification sample_header"
    by (rule write_headers_exact)
       (simp_all add: sample_notification_def sample_header_def blank_request_def)
  moreover have "wanted sample_notification sample_header ''Apns-Topic'' = Some [''t'']"
    "wanted sample_notification sample_header ''Apns-Expiration'' = None"
    by (simp_all add: wanted_def sample_header_def)
  ultimately show ?thesis by metis
qed

text \<open>
  C34. The body is delivered whole: a consumer that reads it through a buffer of any size until
  \<open>io.EOF\<close> gets exactly the bytes of the payload, their number is the content length, and a
  clone that is reset after reading delivers them again.
\<close>

theorem payload_delivered:
  assumes "newPayloadReader marshal p = Inr body" and "off r = k" and "buf r = buf body"
  shows "(case p of PBytes b \<Rightarrow> drain n body = b | PString s \<Rightarrow> drain n body = s
           | PValue v \<Rightarrow> marshal v = Inr (drain n body)) \<and>
         sliceReader_Len body = int (length (drain n body)) \<and>
         drain n (ResetClone r) = drain n body"
  using assms
  by (auto simp: newPayloadReader_def newSliceReader_def drain_drop sliceReader_Len_def
      ResetClone_def split: payload.splits sum.splits)

theorem payload_delivered_witness:
  "drain 2 (newSliceReader ''payload'') = ''payload''"
  using payload_delivered [of "\<lambda>_. Inl ErrCanceled" "PString ''payload''" "newSliceReader ''payload''"
      "newSliceReader ''payload''" 0 2]
  by (simp add: newPayloadReader_def newSliceReader_def)

text \<open>
  The headers of a \<open>Header\<close> are settled by its first use: whatever is changed in it
  afterwards, later requests still get the values of the first one.
\<close>

theorem header_changes_ignored:
  assumes "httpHeaders h = None"
  shows "fst (getHTTPHeaders ((snd (getHTTPHeaders h))\<lparr>Topic := t, CollapseID := c, Priority := p,
           Expiration := e\<rparr>)) = build_headers h"
  using assms by (simp add: getHTTPHeaders_def Let_def)

theorem header_changes_ignored_witness:
  "fst (getHTTPHeaders ((snd (getHTTPHeaders \<lparr>Topic = ''a'', CollapseID = [], Priority = 0,
      Expiration = 0, httpHeaders = None\<rparr>))\<lparr>Topic := ''b'', CollapseID := [], Priority := 10,
      Expiration := 0\<rparr>)) = [(''apns-topic'', ''a'')]"
  by (subst header_changes_ignored) (simp_all add: build_headers_def)

end
