(* ===== verification/Request.thy ===== *)
theory Request
  imports Notification
begin

text \<open>
  \<open>apns2/request.go\<close> and \<open>apns2/result.go\<close>, with the two places that decide whether a request can
  be authenticated (\<open>Client.Push\<close> and \<open>streamer.exec\<close>) and the signer a streamer then uses.
  Signers, contexts and channels that the user supplies are numbered.
\<close>

section \<open>Requests and results\<close>

text \<open>
  \<open>DefaultSigner\<close> and \<open>DefaultCallback\<close> are the nil values; \<open>NoSigner\<close> and \<open>NoCallback\<close> are the
  package's markers; \<open>NoContext\<close> is the nil context.
\<close>

datatype signer = DefaultSigner | NoSigner | UserSigner nat

datatype callback = DefaultCallback | NoCallback | UserChan nat

datatype ctx = NoContext | UserContext nat

record 'j Request =
  reqNotification :: "'j Notification"
  reqSigner :: signer
  reqContext :: ctx
  reqCallback :: callback
  attemptCnt :: int

record 'j Result =
  resNotification :: "'j Notification"
  resSigner :: signer
  resContext :: ctx
  resResponse :: "Response option"
  resErr :: "goerr option"

definition Request_HasSigner :: "'j Request \<Rightarrow> bool" where
  "Request_HasSigner r = (reqSigner r \<noteq> DefaultSigner)"

definition Result_IsAccepted :: "'j Result \<Rightarrow> bool" where
  "Result_IsAccepted r =
     (resErr r = None \<and>
      (case resResponse r of None \<Rightarrow> False | Some resp \<Rightarrow> StatusCode resp = StatusAcccepted))"

section \<open>Authentication\<close>

definition Client_HasSigner :: "signer \<Rightarrow> bool" where
  "Client_HasSigner csigner = (csigner \<noteq> DefaultSigner)"

text \<open>The check of \<open>Client.Push\<close>, for the signer it is given.\<close>

definition push_missing_auth :: "bool \<Rightarrow> signer \<Rightarrow> signer \<Rightarrow> bool" where
  "push_missing_auth has_cert csigner sg =
     (\<not> has_cert \<and> (sg = NoSigner \<or> \<not> Client_HasSigner csigner \<and> sg = DefaultSigner))"

text \<open>The check of \<open>streamer.exec\<close>.\<close>

definition exec_missing_auth :: "bool \<Rightarrow> signer \<Rightarrow> 'j Request \<Rightarrow> bool" where
  "exec_missing_auth has_cert csigner req =
     (\<not> has_cert \<and>
      (reqSigner req = NoSigner \<or> \<not> Client_HasSigner csigner \<and> \<not> Request_HasSigner req))"

text \<open>The signer that \<open>streamer.submit\<close> asks.\<close>

definition effective_signer :: "signer \<Rightarrow> 'j Request \<Rightarrow> signer" where
  "effective_signer csigner req =
     (if reqSigner req = DefaultSigner then csigner else reqSigner req)"

text \<open>A request to evaluate definitions on.\<close>

definition sample_request :: "nat Request" where
  "sample_request =
     \<lparr>reqNotification = \<lparr>nApnsID = [], Recipient = ''a1b2'',
        nHeader = Some \<lparr>Topic = ''t'', CollapseID = [], Priority = 10, Expiration = 0, httpHeaders = None\<rparr>,
        nPayload = PString ''{}''\<rparr>,
      reqSigner = DefaultSigner, reqContext = NoContext, reqCallback = DefaultCallback, attemptCnt = 0\<rparr>"

section \<open>Properties\<close>

text \<open>
  What passes is authenticated: a request that either check lets through comes from a client
  with a certificate or is signed by a signer of the user, unless the client's own signer is
  \<open>NoSigner\<close>; and the check of \<open>Push\<close> is the one of the streamers.
\<close>

theorem auth_checks_sound:
  assumes "csigner \<noteq> NoSigner"
  shows "(push_missing_auth has_cert csigner (reqSigner req) \<longleftrightarrow> exec_missing_auth has_cert csigner req) \<and>
         (\<not> exec_missing_auth has_cert csigner req \<longrightarrow>
            has_cert \<or> (\<exists>k. effective_signer csigner req = UserSigner k))"
  using assms
  by (cases csigner; cases "reqSigner req")
     (auto simp: push_missing_auth_def exec_missing_auth_def effective_signer_def
        Client_HasSigner_def Request_HasSigner_def)

theorem auth_checks_sound_witness:
  "\<exists>k. effective_signer (UserSigner 7) sample_request = UserSigner k"
  using auth_checks_sound [of "UserSigner 7" False sample_request]
  by (simp add: exec_missing_auth_def Client_HasSigner_def sample_request_def)

end
