(* ===== verification/Client.thy ===== *)
theory Client
  imports Request Syncx "HOL-Library.Multiset"
begin

text \<open>
  \<open>apns2/client.go\<close>: the life cycle of a client (\<open>Start\<close>, \<open>Stop\<close>, \<open>Kill\<close>), \<open>Push\<close> and the submitter.
  What happens under the client's mutex is a function on its record, with \<open>None\<close> for a panic;
  callers, the submitter, the governor's end and the users of the channels are a step relation.
  Requests are numbered.
\<close>

section \<open>The client\<close>

datatype client_state =
  stateInitial | stateStarting | stateRunning | stateStopping | stateTerminating | stateClosed

fun cstate_rank :: "client_state \<Rightarrow> nat" where
  "cstate_rank stateInitial = 0"
| "cstate_rank stateStarting = 1"
| "cstate_rank stateRunning = 2"
| "cstate_rank stateStopping = 3"
| "cstate_rank stateTerminating = 4"
| "cstate_rank stateClosed = 5"

lemma cstate_rank_inj: "cstate_rank a = cstate_rank b \<Longrightarrow> a = b"
  by (cases a; cases b) simp_all

instantiation client_state :: linorder
begin

definition less_eq_client_state :: "client_state \<Rightarrow> client_state \<Rightarrow> bool" where
  "less_eq_client_state a b = (cstate_rank a \<le> cstate_rank b)"

definition less_client_state :: "client_state \<Rightarrow> client_state \<Rightarrow> bool" where
  "less_client_state a b = (cstate_rank a < cstate_rank b)"

instance
  by standard (auto simp: less_eq_client_state_def less_client_state_def cstate_rank_inj)

end

lemmas cstate_order = less_eq_client_state_def less_client_state_def

record client =
  Certificate :: bool
  Signer :: signer
  Callback :: callback
  cstate :: client_state
  c_ctl :: chan
  c_cctl :: chan
  c_gctl :: chan
  c_cdone :: chan
  c_out :: chan
  c_cb :: chan
  c_waitCtr :: u64
  c_rateCtr :: u64

text \<open>As the user fills it in; \<open>c_cb\<close> is the user's callback channel.\<close>

definition new_client :: "bool \<Rightarrow> signer \<Rightarrow> callback \<Rightarrow> client" where
  "new_client cert sg cb =
     \<lparr>Certificate = cert, Signer = sg, Callback = cb, cstate = stateInitial, c_ctl = ChanNil,
      c_cctl = ChanNil, c_gctl = ChanNil, c_cdone = ChanNil, c_out = ChanNil, c_cb = ChanOpen,
      c_waitCtr = 0, c_rateCtr = 0\<rparr>"

definition Client_Start :: "client \<Rightarrow> client \<times> goerr option" where
  "Client_Start c =
     (if cstate c \<ge> stateStarting then (c, Some ErrClientAlreadyStarted)
      else (c\<lparr>cstate := stateStarting, c_ctl := ChanOpen, c_cctl := ChanOpen, c_gctl := ChanOpen,
              c_cdone := ChanOpen, c_out := ChanOpen\<rparr>, None))"

text \<open>\<open>Stop\<close> in its three parts: under the mutex, after the submitter, after the pipeline.\<close>

definition Stop_begin :: "client \<Rightarrow> (client \<times> goerr option) option" where
  "Stop_begin c =
     (if cstate c \<ge> stateStopping then Some (c, Some ErrClientAlreadyClosed)
      else case close_chan (c_cctl c) of
             None \<Rightarrow> None
           | Some ch \<Rightarrow> Some (c\<lparr>cstate := stateStopping, c_cctl := ch\<rparr>, None))"

definition Stop_close_out :: "client \<Rightarrow> client option" where
  "Stop_close_out c = map_option (\<lambda>ch. c\<lparr>c_out := ch\<rparr>) (close_chan (c_out c))"

definition Stop_finish :: "client \<Rightarrow> client option" where
  "Stop_finish c =
     (if Callback c \<noteq> DefaultCallback \<and> Callback c \<noteq> NoCallback
      then map_option (\<lambda>ch. c\<lparr>c_cb := ch\<rparr>) (close_chan (c_cb c))
      else Some c)"

definition Client_Kill :: "client \<Rightarrow> (client \<times> goerr option) option" where
  "Client_Kill c =
     (if cstate c \<ge> stateTerminating then Some (c, Some ErrClientAlreadyClosed)
      else let wasStopping = (cstate c = stateStopping);
               c1 = c\<lparr>cstate := stateTerminating\<rparr>
           in case (if wasStopping then Some (c_cctl c1) else close_chan (c_cctl c1)) of
                None \<Rightarrow> None
              | Some cc \<Rightarrow>
                 (case close_chan (c_gctl c1) of
                    None \<Rightarrow> None
                  | Some gc \<Rightarrow>
                     (case close_chan (c_ctl c1) of
                        None \<Rightarrow> None
                      | Some ct \<Rightarrow> Some (c1\<lparr>c_cctl := cc, c_gctl := gc, c_ctl := ct\<rparr>, None))))"

definition Push_check :: "client \<Rightarrow> signer \<Rightarrow> goerr option" where
  "Push_check c sg =
     (if cstate c < stateStarting \<or> cstate c > stateRunning then Some ErrClientNotRunning
      else if push_missing_auth (Certificate c) (Signer c) sg then Some ErrMissingAuth
      else None)"

text \<open>The beginning and the end of \<open>runSubmitter\<close>; the former says whether the loop is entered.\<close>

definition submitter_begin :: "client \<Rightarrow> client \<times> bool" where
  "submitter_begin c =
     (if cstate c \<noteq> stateStarting then (c, False) else (c\<lparr>cstate := stateRunning\<rparr>, True))"

definition submitter_end :: "client \<Rightarrow> client" where
  "submitter_end c = c\<lparr>cstate := stateClosed\<rparr>"

text \<open>The counting parts of \<open>submit\<close>.\<close>

definition submit_begin :: "client \<Rightarrow> client" where
  "submit_begin c = c\<lparr>c_rateCtr := Counter_Add (c_rateCtr c) 1\<rparr>"

definition submit_tick :: "client \<Rightarrow> client" where
  "submit_tick c = c\<lparr>c_waitCtr := TickTockCounter_op (c_waitCtr c) Tick\<rparr>"

definition submit_tock :: "client \<Rightarrow> client" where
  "submit_tock c = c\<lparr>c_waitCtr := TickTockCounter_op (c_waitCtr c) Tock\<rparr>"

section \<open>The goroutines\<close>

text \<open>
  The submitter: not started, started, at its \<open>select\<close>, in \<open>submit\<close> of a request (before the
  first \<open>select\<close>, or blocked in the second), past its loop, ended. A call of \<open>Push\<close>: likewise,
  or returned. A call of \<open>Stop\<close>: waiting for the submitter, waiting for the pipeline, returned.
\<close>

datatype subm = MNone | MInit | MLoop | MTry nat | MWait nat | MEnding | MEnd

datatype pusher = PIdle | PTry | PWait | PRet "goerr option"

datatype stopper = TIdle | TWg | TPipe | TRet "goerr option"

datatype item = FromQueue nat | FromPush nat

text \<open>
  \<open>taken\<close> counts the requests the submitter has received, \<open>passed\<close> lists what was sent on
  \<open>c.out\<close>, \<open>dropped\<close> what the submitter gave up on, and \<open>results\<close> counts the results that
  streamers have sent on the client's callback channel.
\<close>

record csys =
  cl :: client
  sub :: subm
  psh :: "nat \<Rightarrow> pusher"
  stp :: "nat \<Rightarrow> stopper"
  queue_closed :: bool
  panicked :: bool
  taken :: nat
  passed :: "item list"
  dropped :: "nat list"
  results :: nat

text \<open>A result of a part that can panic.\<close>

fun or_panic :: "csys \<Rightarrow> 'a option \<Rightarrow> ('a \<Rightarrow> csys) \<Rightarrow> csys" where
  "or_panic s None k = s\<lparr>panicked := True\<rparr>"
| "or_panic s (Some x) k = k x"

definition do_start :: "csys \<Rightarrow> csys" where
  "do_start s =
     (case Client_Start (cl s) of
        (c, None) \<Rightarrow> s\<lparr>cl := c, sub := MInit\<rparr>
      | (c, Some _) \<Rightarrow> s\<lparr>cl := c\<rparr>)"

definition do_stop :: "nat \<Rightarrow> csys \<Rightarrow> csys" where
  "do_stop i s =
     or_panic s (Stop_begin (cl s)) (\<lambda>(c, r).
       s\<lparr>cl := c, stp := (stp s)(i := (case r of None \<Rightarrow> TWg | Some e \<Rightarrow> TRet (Some e)))\<rparr>)"

definition do_push :: "nat \<Rightarrow> signer \<Rightarrow> csys \<Rightarrow> csys" where
  "do_push i sg s =
     (case Push_check (cl s) sg of
        Some e \<Rightarrow> s\<lparr>psh := (psh s)(i := PRet (Some e))\<rparr>
      | None \<Rightarrow> s\<lparr>cl := submit_begin (cl s), psh := (psh s)(i := PTry)\<rparr>)"

inductive cstep :: "csys \<Rightarrow> csys \<Rightarrow> bool" where
  start: "\<not> panicked s \<Longrightarrow> cstep s (do_start s)"
| stop: "\<not> panicked s \<Longrightarrow> stp s i = TIdle \<Longrightarrow> cstep s (do_stop i s)"
| stop_wg: "\<not> panicked s \<Longrightarrow> stp s i = TWg \<Longrightarrow> sub s = MEnd \<Longrightarrow>
     cstep s (or_panic s (Stop_close_out (cl s)) (\<lambda>c. s\<lparr>cl := c, stp := (stp s)(i := TPipe)\<rparr>))"
| stop_pipe: "\<not> panicked s \<Longrightarrow> stp s i = TPipe \<Longrightarrow>
     c_cdone (cl s) = ChanClosed \<or> c_ctl (cl s) = ChanClosed \<Longrightarrow>
     cstep s (or_panic s (Stop_finish (cl s)) (\<lambda>c. s\<lparr>cl := c, stp := (stp s)(i := TRet None)\<rparr>))"
| kill: "\<not> panicked s \<Longrightarrow> cstep s (or_panic s (Client_Kill (cl s)) (\<lambda>(c, r). s\<lparr>cl := c\<rparr>))"
| push: "\<not> panicked s \<Longrightarrow> psh s i = PIdle \<Longrightarrow> cstep s (do_push i sg s)"
| push_sent: "\<not> panicked s \<Longrightarrow> psh s i = PTry \<Longrightarrow> c_out (cl s) = ChanOpen \<Longrightarrow>
     cstep s (s\<lparr>psh := (psh s)(i := PRet None), passed := passed s @ [FromPush i]\<rparr>)"
| push_blocks: "\<not> panicked s \<Longrightarrow> psh s i = PTry \<Longrightarrow> c_out (cl s) = ChanOpen \<Longrightarrow>
     cstep s (s\<lparr>cl := submit_tick (cl s), psh := (psh s)(i := PWait)\<rparr>)"
| push_sent_late: "\<not> panicked s \<Longrightarrow> psh s i = PWait \<Longrightarrow> c_out (cl s) = ChanOpen \<Longrightarrow>
     cstep s (s\<lparr>cl := submit_tock (cl s), psh := (psh s)(i := PRet None),
                passed := passed s @ [FromPush i]\<rparr>)"
| push_interrupted: "\<not> panicked s \<Longrightarrow> psh s i = PWait \<Longrightarrow> c_cctl (cl s) = ChanClosed \<Longrightarrow>
     cstep s (s\<lparr>cl := submit_tock (cl s), psh := (psh s)(i := PRet (Some ErrPushInterrupted))\<rparr>)"
| push_panics: "\<not> panicked s \<Longrightarrow> psh s i = PTry \<or> psh s i = PWait \<Longrightarrow> c_out (cl s) = ChanClosed \<Longrightarrow>
     cstep s (s\<lparr>panicked := True\<rparr>)"
| sub_begin: "\<not> panicked s \<Longrightarrow> sub s = MInit \<Longrightarrow> submitter_begin (cl s) = (c, go) \<Longrightarrow>
     cstep s (s\<lparr>cl := c, sub := (if go then MLoop else MEnding)\<rparr>)"
| sub_take: "\<not> panicked s \<Longrightarrow> sub s = MLoop \<Longrightarrow>
     cstep s (s\<lparr>cl := submit_begin (cl s), sub := MTry (taken s), taken := Suc (taken s)\<rparr>)"
| sub_queue: "\<not> panicked s \<Longrightarrow> sub s = MLoop \<Longrightarrow> queue_closed s \<Longrightarrow> cstep s (s\<lparr>sub := MEnding\<rparr>)"
| sub_stop: "\<not> panicked s \<Longrightarrow> sub s = MLoop \<Longrightarrow> c_cctl (cl s) = ChanClosed \<Longrightarrow>
     cstep s (s\<lparr>sub := MEnding\<rparr>)"
| sub_sent: "\<not> panicked s \<Longrightarrow> sub s = MTry r \<Longrightarrow> c_out (cl s) = ChanOpen \<Longrightarrow>
     cstep s (s\<lparr>sub := MLoop, passed := passed s @ [FromQueue r]\<rparr>)"
| sub_blocks: "\<not> panicked s \<Longrightarrow> sub s = MTry r \<Longrightarrow> c_out (cl s) = ChanOpen \<Longrightarrow>
     cstep s (s\<lparr>cl := submit_tick (cl s), sub := MWait r\<rparr>)"
| sub_sent_late: "\<not> panicked s \<Longrightarrow> sub s = MWait r \<Longrightarrow> c_out (cl s) = ChanOpen \<Longrightarrow>
     cstep s (s\<lparr>cl := submit_tock (cl s), sub := MLoop, passed := passed s @ [FromQueue r]\<rparr>)"
| sub_interrupted: "\<not> panicked s \<Longrightarrow> sub s = MWait r \<Longrightarrow> c_cctl (cl s) = ChanClosed \<Longrightarrow>
     cstep s (s\<lparr>cl := submit_tock (cl s), sub := MLoop, dropped := dropped s @ [r]\<rparr>)"
| sub_panics: "\<not> panicked s \<Longrightarrow> sub s = MTry r \<or> sub s = MWait r \<Longrightarrow> c_out (cl s) = ChanClosed \<Longrightarrow>
     cstep s (s\<lparr>panicked := True\<rparr>)"
| sub_end: "\<not> panicked s \<Longrightarrow> sub s = MEnding \<Longrightarrow>
     cstep s (s\<lparr>cl := submitter_end (cl s), sub := MEnd\<rparr>)"
| gov_done: "\<not> panicked s \<Longrightarrow> c_cdone (cl s) = ChanOpen \<Longrightarrow>
     c_gctl (cl s) = ChanClosed \<or> c_out (cl s) = ChanClosed \<Longrightarrow>
     cstep s (s\<lparr>cl := (cl s)\<lparr>c_cdone := ChanClosed\<rparr>\<rparr>)"
| close_queue: "\<not> panicked s \<Longrightarrow> cstep s (s\<lparr>queue_closed := True\<rparr>)"
| result: "\<not> panicked s \<Longrightarrow> Callback (cl s) = UserChan ch \<Longrightarrow> results s < length (passed s) \<Longrightarrow>
     cstep s (if c_cb (cl s) = ChanOpen then s\<lparr>results := Suc (results s)\<rparr> else s\<lparr>panicked := True\<rparr>)"

definition cinit :: "client \<Rightarrow> csys" where
  "cinit c = \<lparr>cl = c, sub = MNone, psh = (\<lambda>_. PIdle), stp = (\<lambda>_. TIdle), queue_closed = False,
     panicked = False, taken = 0, passed = [], dropped = [], results = 0\<rparr>"

inductive creach :: "client \<Rightarrow> csys \<Rightarrow> bool" for c0 where
  init: "creach c0 (cinit c0)"
| step: "creach c0 s \<Longrightarrow> cstep s s' \<Longrightarrow> creach c0 s'"

section \<open>The invariant of the life cycle\<close>

fun active :: "stopper \<Rightarrow> bool" where
  "active TWg = True"
| "active TPipe = True"
| "active _ = False"

text \<open>What the channels and the submitter are in each state.\<close>

fun stage :: "client_state \<Rightarrow> client \<Rightarrow> subm \<Rightarrow> bool" where
  "stage stateInitial c m =
     (m = MNone \<and> c_cctl c = ChanNil \<and> c_gctl c = ChanNil \<and> c_ctl c = ChanNil \<and> c_out c = ChanNil)"
| "stage stateStarting c m =
     (m = MInit \<and> c_cctl c = ChanOpen \<and> c_gctl c = ChanOpen \<and> c_ctl c = ChanOpen \<and> c_out c = ChanOpen)"
| "stage stateRunning c m =
     (m \<notin> {MNone, MInit, MEnd} \<and> c_cctl c = ChanOpen \<and> c_gctl c = ChanOpen \<and> c_ctl c = ChanOpen \<and>
      c_out c = ChanOpen)"
| "stage stateStopping c m =
     (m \<notin> {MNone, MEnd} \<and> c_cctl c = ChanClosed \<and> c_gctl c = ChanOpen \<and> c_ctl c = ChanOpen \<and>
      c_out c = ChanOpen)"
| "stage stateTerminating c m =
     (m \<notin> {MNone, MEnd} \<and> c_cctl c = ChanClosed \<and> c_gctl c = ChanClosed \<and> c_ctl c = ChanClosed \<and>
      c_out c = ChanOpen)"
| "stage stateClosed c m = (m = MEnd \<and> c_out c \<noteq> ChanNil)"

text \<open>
  At most one call of \<open>Stop\<close> gets past its test, only from the stopping state on; while it waits
  for the submitter nobody has closed \<open>c.out\<close>, and while it waits at all nobody has closed the
  callback channel.
\<close>

definition stops_ok :: "client \<Rightarrow> subm \<Rightarrow> (nat \<Rightarrow> stopper) \<Rightarrow> bool" where
  "stops_ok c m st \<longleftrightarrow>
     (\<forall>i j. active (st i) \<and> active (st j) \<longrightarrow> i = j) \<and>
     (\<forall>i. active (st i) \<longrightarrow> stateStopping \<le> cstate c \<and> c_cb c = ChanOpen) \<and>
     (\<forall>i. st i = TWg \<longrightarrow> c_out c = ChanOpen) \<and>
     (\<forall>i. st i = TPipe \<longrightarrow> m = MEnd) \<and>
     (cstate c < stateStopping \<longrightarrow> c_cb c = ChanOpen)"

definition cinv :: "csys \<Rightarrow> bool" where
  "cinv s \<longleftrightarrow> stage (cstate (cl s)) (cl s) (sub s) \<and> stops_ok (cl s) (sub s) (stp s)"

lemma cstate_facts [simp]:
  "stateStopping \<le> x \<longleftrightarrow> x \<in> {stateStopping, stateTerminating, stateClosed}"
  "stateTerminating \<le> x \<longleftrightarrow> x \<in> {stateTerminating, stateClosed}"
  "stateStarting \<le> x \<longleftrightarrow> x \<noteq> stateInitial"
  "x < stateStopping \<longleftrightarrow> x \<in> {stateInitial, stateStarting, stateRunning}"
  "x < stateStarting \<longleftrightarrow> x = stateInitial"
  "stateRunning < x \<longleftrightarrow> x \<in> {stateStopping, stateTerminating, stateClosed}"
  by (cases x; simp add: cstate_order)+

lemma stops_okD:
  assumes "stops_ok c m st"
  shows "active (st i) \<Longrightarrow> active (st j) \<Longrightarrow> i = j" and "active (st i) \<Longrightarrow> c_cb c = ChanOpen"
    and "st i = TWg \<Longrightarrow> c_out c = ChanOpen" and "st i = TPipe \<Longrightarrow> m = MEnd"
    and "active (st i) \<Longrightarrow> stateStopping \<le> cstate c"
    and "cstate c < stateStopping \<Longrightarrow> c_cb c = ChanOpen"
  using assms by (auto simp: stops_ok_def simp del: cstate_facts)

lemma stops_ok_one:
  assumes "\<And>j. j \<noteq> i \<Longrightarrow> \<not> active (st j)" and "stateStopping \<le> cstate c"
    and "active (st i) \<Longrightarrow> c_cb c = ChanOpen" and "st i = TWg \<Longrightarrow> c_out c = ChanOpen"
    and "st i = TPipe \<Longrightarrow> m = MEnd"
  shows "stops_ok c m st"
proof -
  have "j = i" if "active (st j)" for j using assms(1) that by blast
  moreover have "active (st j)" if "st j = TWg \<or> st j = TPipe" for j using that by auto
  moreover have "\<not> cstate c < stateStopping" using assms(2) by (simp del: cstate_facts add: not_less)
  ultimately show ?thesis using assms(2-) unfolding stops_ok_def by (metis (no_types, lifting))
qed

lemma stops_ok_raise:
  assumes "stops_ok c m st" and "c_cb c' = c_cb c" and "c_out c' = c_out c"
    and "stateStopping \<le> cstate c'"
  shows "stops_ok c' m st"
  using assms by (auto simp: stops_ok_def simp del: cstate_facts)

text \<open>Changes that the invariant does not see.\<close>

definition same_life :: "client \<Rightarrow> client \<Rightarrow> bool" where
  "same_life c c' \<longleftrightarrow> cstate c' = cstate c \<and> c_ctl c' = c_ctl c \<and> c_cctl c' = c_cctl c \<and>
     c_gctl c' = c_gctl c \<and> c_out c' = c_out c \<and> c_cb c' = c_cb c"

lemma same_life_simps [simp]:
  "same_life c c" "same_life c (submit_begin c)" "same_life c (submit_tick c)"
  "same_life c (submit_tock c)" "same_life c (c\<lparr>c_cdone := x\<rparr>)"
  by (simp_all add: same_life_def submit_begin_def submit_tick_def submit_tock_def)

lemma stage_same: "same_life c c' \<Longrightarrow> stage st c' m = stage st c m"
  by (cases st) (simp_all add: same_life_def)

lemma cinv_same:
  assumes "cinv s" and "same_life (cl s) (cl s')" and "sub s' = sub s" and "stp s' = stp s"
  shows "cinv s'"
proof -
  have "stage (cstate (cl s')) (cl s') (sub s') = stage (cstate (cl s)) (cl s) (sub s)"
    using assms(2,3) stage_same [OF assms(2)] by (simp add: same_life_def)
  moreover have "stops_ok (cl s') (sub s') (stp s') = stops_ok (cl s) (sub s) (stp s)"
    using assms(2-) by (simp add: stops_ok_def same_life_def)
  ultimately show ?thesis using assms(1) by (simp add: cinv_def)
qed

text \<open>The submitter moves inside its loop.\<close>

definition looping :: "subm \<Rightarrow> bool" where
  "looping m \<longleftrightarrow> m \<notin> {MNone, MInit, MEnd}"

lemma cinv_loop:
  assumes "cinv s" and "same_life (cl s) (cl s')" and "stp s' = stp s"
    and "looping (sub s)" and "looping (sub s')"
  shows "cinv s'"
proof -
  have "stage (cstate (cl s)) (cl s) (sub s') = stage (cstate (cl s)) (cl s) (sub s)"
    using assms(1,4,5) by (cases "cstate (cl s)") (auto simp: cinv_def looping_def)
  then have "stage (cstate (cl s')) (cl s') (sub s')"
    using assms(1,2) stage_same [OF assms(2)] by (simp add: same_life_def cinv_def)
  moreover have "stops_ok (cl s') (sub s') (stp s')"
    using assms by (auto simp: stops_ok_def same_life_def cinv_def looping_def)
  ultimately show ?thesis by (simp add: cinv_def)
qed

lemma cinv_panic [simp]: "cinv (s\<lparr>panicked := x\<rparr>) = cinv s"
  by (simp add: cinv_def)

lemma Kill_cases:
  assumes "stage (cstate c) c m"
  obtains "cstate c = stateInitial" "Client_Kill c = None"
  | "cstate c \<in> {stateTerminating, stateClosed}" "Client_Kill c = Some (c, Some ErrClientAlreadyClosed)"
  | "cstate c \<in> {stateStarting, stateRunning, stateStopping}"
    "Client_Kill c = Some (c\<lparr>cstate := stateTerminating, c_cctl := ChanClosed, c_gctl := ChanClosed,
       c_ctl := ChanClosed\<rparr>, None)"
  using assms by (cases "cstate c") (simp_all add: Client_Kill_def)

lemma Stop_cases:
  assumes "stage (cstate c) c m"
  obtains "cstate c = stateInitial" "Stop_begin c = None"
  | "stateStopping \<le> cstate c" "Stop_begin c = Some (c, Some ErrClientAlreadyClosed)"
  | "cstate c \<in> {stateStarting, stateRunning}"
    "Stop_begin c = Some (c\<lparr>cstate := stateStopping, c_cctl := ChanClosed\<rparr>, None)"
  using assms by (cases "cstate c") (simp_all add: Stop_begin_def)

lemma stops_ok_ret:
  assumes "stops_ok c m st" and "st i = TIdle"
  shows "stops_ok c m (st(i := TRet r))"
proof -
  have "active ((st(i := TRet r)) j) = active (st j)" "((st(i := TRet r)) j = TWg) = (st j = TWg)"
    "((st(i := TRet r)) j = TPipe) = (st j = TPipe)" for j
    using assms(2) by simp_all
  with assms(1) show ?thesis by (simp only: stops_ok_def)
qed

lemma cinv_start: "cinv s \<Longrightarrow> cinv (do_start s)"
  by (cases "cstate (cl s)") (auto simp: cinv_def do_start_def Client_Start_def stops_ok_def)

lemma cinv_stop:
  assumes "cinv s" and "stp s i = TIdle"
  shows "cinv (do_stop i s)"
proof -
  have stg: "stage (cstate (cl s)) (cl s) (sub s)" and so: "stops_ok (cl s) (sub s) (stp s)"
    using assms(1) by (simp_all add: cinv_def)
  show ?thesis
  proof (rule Stop_cases [OF stg])
    assume k: "stateStopping \<le> cstate (cl s)" "Stop_begin (cl s) = Some (cl s, Some ErrClientAlreadyClosed)"
    show ?thesis
      using stg stops_ok_ret [OF so assms(2)] by (simp add: cinv_def do_stop_def k(2))
  next
    assume k: "cstate (cl s) \<in> {stateStarting, stateRunning}"
      "Stop_begin (cl s) = Some ((cl s)\<lparr>cstate := stateStopping, c_cctl := ChanClosed\<rparr>, None)"
    let ?c = "(cl s)\<lparr>cstate := stateStopping, c_cctl := ChanClosed\<rparr>"
    have "stage stateStopping ?c (sub s)" using stg k(1) by auto
    moreover have "stops_ok ?c (sub s) ((stp s)(i := TWg))"
    proof (rule stops_ok_one [where i = i])
      show "\<not> active (((stp s)(i := TWg)) j)" if "j \<noteq> i" for j
        using stops_okD(5) [OF so, of j] k(1) that by auto
      show "c_cb ?c = ChanOpen" using stops_okD(6) [OF so] k(1) by auto
      show "c_out ?c = ChanOpen" using stg k(1) by auto
    qed simp_all
    ultimately show ?thesis by (simp add: cinv_def do_stop_def k(2))
  qed (use assms in \<open>simp_all add: do_stop_def\<close>)
qed

lemma cinv_stop_wg:
  assumes "cinv s" and "stp s i = TWg" and "sub s = MEnd"
  shows "cinv (or_panic s (Stop_close_out (cl s)) (\<lambda>c. s\<lparr>cl := c, stp := (stp s)(i := TPipe)\<rparr>))"
proof -
  have st: "cstate (cl s) = stateClosed"
    using assms(1,3) by (cases "cstate (cl s)") (simp_all add: cinv_def)
  have so: "stops_ok (cl s) (sub s) (stp s)" using assms(1) by (simp add: cinv_def)
  have out: "c_out (cl s) = ChanOpen" by (rule stops_okD(3) [OF so assms(2)])
  have "stops_ok ((cl s)\<lparr>c_out := ChanClosed\<rparr>) (sub s) ((stp s)(i := TPipe))"
  proof (rule stops_ok_one [where i = i])
    show "\<not> active (((stp s)(i := TPipe)) j)" if "j \<noteq> i" for j
      using stops_okD(1) [OF so, of i j] assms(2) that by auto
    show "c_cb ((cl s)\<lparr>c_out := ChanClosed\<rparr>) = ChanOpen"
      using stops_okD(2) [OF so, of i] assms(2) by simp
  qed (use st assms(3) in simp_all)
  then show ?thesis using st out assms(3) by (simp add: cinv_def Stop_close_out_def)
qed

lemma cinv_stop_pipe:
  assumes "cinv s" and "stp s i = TPipe"
  shows "cinv (or_panic s (Stop_finish (cl s)) (\<lambda>c. s\<lparr>cl := c, stp := (stp s)(i := TRet None)\<rparr>))"
proof -
  have so: "stops_ok (cl s) (sub s) (stp s)" and stg: "stage (cstate (cl s)) (cl s) (sub s)"
    using assms(1) by (simp_all add: cinv_def)
  have m: "sub s = MEnd" by (rule stops_okD(4) [OF so assms(2)])
  then have st: "cstate (cl s) = stateClosed"
    using stg by (cases "cstate (cl s)") simp_all
  have cb: "c_cb (cl s) = ChanOpen" using stops_okD(2) [OF so, of i] assms(2) by simp
  have "stops_ok c (sub s) ((stp s)(i := TRet None))" if "cstate c = stateClosed" for c
  proof (rule stops_ok_one [where i = i])
    show "\<not> active (((stp s)(i := TRet None)) j)" if "j \<noteq> i" for j
      using stops_okD(1) [OF so, of i j] assms(2) that by auto
  qed (use that in simp_all)
  then show ?thesis using st m stg cb by (simp add: cinv_def Stop_finish_def)
qed

lemma cinv_kill:
  assumes "cinv s"
  shows "cinv (or_panic s (Client_Kill (cl s)) (\<lambda>(c, r). s\<lparr>cl := c\<rparr>))"
proof -
  have stg: "stage (cstate (cl s)) (cl s) (sub s)" and so: "stops_ok (cl s) (sub s) (stp s)"
    using assms by (simp_all add: cinv_def)
  show ?thesis
  proof (rule Kill_cases [OF stg])
    assume k: "cstate (cl s) \<in> {stateStarting, stateRunning, stateStopping}"
      "Client_Kill (cl s) = Some ((cl s)\<lparr>cstate := stateTerminating, c_cctl := ChanClosed,
         c_gctl := ChanClosed, c_ctl := ChanClosed\<rparr>, None)"
    let ?c = "(cl s)\<lparr>cstate := stateTerminating, c_cctl := ChanClosed, c_gctl := ChanClosed,
      c_ctl := ChanClosed\<rparr>"
    have "stage stateTerminating ?c (sub s)" using stg k(1) by auto
    moreover have "stops_ok ?c (sub s) (stp s)" by (rule stops_ok_raise [OF so]) simp_all
    ultimately show ?thesis unfolding k(2) by (simp add: cinv_def)
  qed (use assms in simp_all)
qed

lemma cinv_step:
  assumes "cstep s s'" and inv: "cinv s"
  shows "cinv s'"
  using assms(1)
proof (cases rule: cstep.cases)
  case start
  with inv show ?thesis by (simp add: cinv_start)
next
  case (stop i)
  with inv show ?thesis by (simp add: cinv_stop)
next
  case (stop_wg i)
  with inv show ?thesis by (simp add: cinv_stop_wg)
next
  case (stop_pipe i)
  with inv show ?thesis by (simp add: cinv_stop_pipe)
next
  case kill
  with inv show ?thesis by (simp add: cinv_kill)
next
  case (push i sg)
  have "cinv (do_push i sg s)"
    by (rule cinv_same [OF inv]) (simp_all add: do_push_def split: option.split)
  with push show ?thesis by simp
next
  case (sub_begin c go)
  with inv show ?thesis
    by (cases "cstate (cl s)")
       (auto simp: cinv_def submitter_begin_def stops_ok_def split: if_splits)
next
  case sub_end
  with inv show ?thesis
    by (cases "cstate (cl s)") (auto simp: cinv_def submitter_end_def stops_ok_def)
next
  case (result ch)
  with inv show ?thesis by (auto simp: cinv_def)
qed (use inv in \<open>auto intro: cinv_same cinv_loop simp: looping_def\<close>)

lemma cinv_reach: "creach (new_client cert sg cb) s \<Longrightarrow> cinv s"
proof (induction rule: creach.induct)
  case init
  show ?case by (simp add: cinv_def cinit_def new_client_def stops_ok_def)
next
  case (step s s')
  then show ?case using cinv_step by blast
qed

section \<open>What becomes of requests\<close>

definition from_queue :: "item list \<Rightarrow> nat list" where
  "from_queue xs = concat (map (\<lambda>x. case x of FromQueue r \<Rightarrow> [r] | FromPush _ \<Rightarrow> []) xs)"

lemma from_queue_simps [simp]:
  "from_queue [] = []" "from_queue (xs @ [FromQueue r]) = from_queue xs @ [r]"
  "from_queue (xs @ [FromPush i]) = from_queue xs"
  by (simp_all add: from_queue_def)

fun in_submitter :: "subm \<Rightarrow> nat multiset" where
  "in_submitter (MTry r) = {#r#}"
| "in_submitter (MWait r) = {#r#}"
| "in_submitter _ = {#}"

definition accounted :: "csys \<Rightarrow> bool" where
  "accounted s \<longleftrightarrow>
     mset [0..<taken s] = mset (from_queue (passed s)) + mset (dropped s) + in_submitter (sub s) \<and>
     (dropped s \<noteq> [] \<longrightarrow> c_cctl (cl s) = ChanClosed)"

definition pushes_ok :: "csys \<Rightarrow> bool" where
  "pushes_ok s \<longleftrightarrow> (\<forall>i. count_list (passed s) (FromPush i) = (if psh s i = PRet None then 1 else 0))"

lemma do_push_frame:
  "passed (do_push i sg s) = passed s" "stp (do_push i sg s) = stp s" "sub (do_push i sg s) = sub s"
  "dropped (do_push i sg s) = dropped s" "taken (do_push i sg s) = taken s"
  "c_cctl (cl (do_push i sg s)) = c_cctl (cl s)"
  by (simp_all add: do_push_def submit_begin_def split: option.split)

lemma do_push_psh:
  "psh s i = PIdle \<Longrightarrow> psh (do_push i sg s) j = PRet None \<longleftrightarrow> psh s j = PRet None"
  by (simp add: do_push_def split: option.split)

lemma other_frame:
  "passed (do_start s) = passed s" "psh (do_start s) = psh s"
  "passed (do_stop i s) = passed s" "psh (do_stop i s) = psh s"
  by (simp_all add: do_start_def do_stop_def split: prod.split option.split)
     (cases "Stop_begin (cl s)"; simp add: split_beta)+

lemma or_panic_frame:
  assumes "\<And>x. passed (k x) = passed s" "\<And>x. psh (k x) = psh s"
  shows "passed (or_panic s r k) = passed s" "psh (or_panic s r k) = psh s"
  using assms by (cases r; simp)+

lemma pushes_step: "cstep s s' \<Longrightarrow> pushes_ok s \<Longrightarrow> pushes_ok s'"
  by (erule cstep.cases)
     (auto simp: pushes_ok_def do_push_frame do_push_psh other_frame or_panic_frame split_beta)

lemma pushes_reach: "creach c0 s \<Longrightarrow> pushes_ok s"
  by (induction rule: creach.induct) (simp add: pushes_ok_def cinit_def, rule pushes_step)

text \<open>Closed control channels stay closed.\<close>

lemma or_panic_cl:
  "P (cl s) \<Longrightarrow> (\<And>x. r = Some x \<Longrightarrow> P (cl (k x))) \<Longrightarrow> P (cl (or_panic s r k))"
  by (cases r) simp_all

lemma op_cctl:
  "Stop_begin c = Some (c', r) \<Longrightarrow> c_cctl c = ChanClosed \<Longrightarrow> c_cctl c' = ChanClosed"
  "Client_Kill c = Some (c', r) \<Longrightarrow> c_cctl c = ChanClosed \<Longrightarrow> c_cctl c' = ChanClosed"
  "Stop_close_out c = Some c' \<Longrightarrow> c_cctl c' = c_cctl c"
  "Stop_finish c = Some c' \<Longrightarrow> c_cctl c' = c_cctl c"
  by (auto simp: Stop_begin_def Client_Kill_def Stop_close_out_def Stop_finish_def Let_def
      split: if_splits option.splits)

lemma cctl_stays:
  assumes "cstep s s'" and "cinv s" and closed: "c_cctl (cl s) = ChanClosed"
  shows "c_cctl (cl s') = ChanClosed"
  using assms(1)
proof (cases rule: cstep.cases)
  case start
  have "cstate (cl s) \<noteq> stateInitial" using assms(2) closed by (auto simp: cinv_def)
  with start closed show ?thesis by (simp add: do_start_def Client_Start_def)
next
  case (stop i)
  have "c_cctl (cl (do_stop i s)) = ChanClosed" unfolding do_stop_def
    by (rule or_panic_cl) (use closed op_cctl(1) in auto)
  with stop show ?thesis by simp
next
  case (stop_wg i)
  show ?thesis unfolding stop_wg(1)
    by (rule or_panic_cl) (use closed op_cctl(3) in auto)
next
  case (stop_pipe i)
  show ?thesis unfolding stop_pipe(1)
    by (rule or_panic_cl) (use closed op_cctl(4) in auto)
next
  case kill
  show ?thesis unfolding kill(1)
    by (rule or_panic_cl) (use closed op_cctl(2) in auto)
next
  case (sub_begin c go)
  with closed show ?thesis by (auto simp: submitter_begin_def split: if_splits)
qed (use closed in \<open>auto simp: do_push_frame submitter_end_def submit_begin_def submit_tick_def
       submit_tock_def\<close>)

lemma op_queue:
  "taken (do_start s) = taken s" "dropped (do_start s) = dropped s"
  "taken (do_stop i s) = taken s" "dropped (do_stop i s) = dropped s" "sub (do_stop i s) = sub s"
  by (simp_all add: do_start_def do_stop_def split: prod.split option.split)
     (cases "Stop_begin (cl s)"; simp add: split_beta)+

lemma or_panic_queue:
  assumes "\<And>x. taken (k x) = taken s" "\<And>x. dropped (k x) = dropped s" "\<And>x. sub (k x) = sub s"
  shows "taken (or_panic s r k) = taken s" "dropped (or_panic s r k) = dropped s"
    "sub (or_panic s r k) = sub s"
  using assms by (cases r; simp)+

lemma start_sub: "cinv s \<Longrightarrow> in_submitter (sub (do_start s)) = in_submitter (sub s)"
  by (cases "cstate (cl s)") (auto simp: cinv_def do_start_def Client_Start_def)

definition counts_ok :: "csys \<Rightarrow> bool" where
  "counts_ok s \<longleftrightarrow>
     mset [0..<taken s] = mset (from_queue (passed s)) + mset (dropped s) + in_submitter (sub s)"

lemma counts_step: "cstep s s' \<Longrightarrow> cinv s \<Longrightarrow> counts_ok s \<Longrightarrow> counts_ok s'"
  by (erule cstep.cases)
     (auto simp: counts_ok_def do_push_frame other_frame op_queue or_panic_frame or_panic_queue
        start_sub split_beta)

lemma dropped_step:
  assumes "cstep s s'" and "cinv s" and "dropped s \<noteq> [] \<longrightarrow> c_cctl (cl s) = ChanClosed"
  shows "dropped s' \<noteq> [] \<longrightarrow> c_cctl (cl s') = ChanClosed"
proof (cases "c_cctl (cl s) = ChanClosed")
  case True
  with cctl_stays [OF assms(1,2)] show ?thesis by simp
next
  case False
  with assms(3) have "dropped s = []" by simp
  with assms(1) False have "dropped s' = []"
    by (cases rule: cstep.cases) (auto simp: do_push_frame op_queue or_panic_queue split_beta)
  then show ?thesis by simp
qed

lemma accounted_reach: "creach (new_client cert sg cb) s \<Longrightarrow> accounted s"
proof -
  assume "creach (new_client cert sg cb) s"
  then have "cinv s \<and> counts_ok s \<and> (dropped s \<noteq> [] \<longrightarrow> c_cctl (cl s) = ChanClosed)"
  proof (induction rule: creach.induct)
    case init
    have "cinv (cinit (new_client cert sg cb))" by (rule cinv_reach [OF creach.init])
    then show ?case by (simp add: counts_ok_def cinit_def)
  next
    case (step s s')
    then show ?case using cinv_step counts_step dropped_step by blast
  qed
  then show ?thesis by (simp add: accounted_def counts_ok_def)
qed

section \<open>Runs\<close>

text \<open>A client with a certificate and a callback channel, once its submitter runs.\<close>

definition user_client :: client where
  "user_client = new_client True DefaultSigner (UserChan 0)"

definition running_client :: client where
  "running_client = user_client\<lparr>cstate := stateRunning, c_ctl := ChanOpen, c_cctl := ChanOpen,
     c_gctl := ChanOpen, c_cdone := ChanOpen, c_out := ChanOpen\<rparr>"

definition running_sys :: csys where
  "running_sys = (cinit running_client)\<lparr>sub := MLoop\<rparr>"

lemma running_simps:
  "cstate running_client = stateRunning" "c_cctl running_client = ChanOpen" "c_out running_client = ChanOpen"
  "c_gctl running_client = ChanOpen" "c_ctl running_client = ChanOpen" "c_cb running_client = ChanOpen"
  "c_cdone running_client = ChanOpen" "Callback running_client = UserChan 0" "Certificate running_client"
  by (simp_all add: running_client_def user_client_def new_client_def)

lemma running_reach: "creach user_client running_sys"
proof -
  define s1 where "s1 = do_start (cinit user_client)"
  have s1: "s1 = (cinit user_client)\<lparr>cl := running_client\<lparr>cstate := stateStarting\<rparr>, sub := MInit\<rparr>"
    by (simp add: s1_def do_start_def Client_Start_def cinit_def running_client_def user_client_def new_client_def)
  have "creach user_client s1" unfolding s1_def
    by (rule creach.step [OF creach.init cstep.start]) (simp add: cinit_def)
  moreover have "submitter_begin (running_client\<lparr>cstate := stateStarting\<rparr>) = (running_client, True)"
    by (simp add: submitter_begin_def running_client_def)
  then have "cstep s1 (s1\<lparr>cl := running_client, sub := MLoop\<rparr>)"
    using cstep.sub_begin [of s1 running_client True] by (simp add: s1 cinit_def)
  moreover have "s1\<lparr>cl := running_client, sub := MLoop\<rparr> = running_sys"
    by (simp add: s1 running_sys_def cinit_def)
  ultimately show ?thesis by (metis creach.step)
qed

text \<open>From any running state, a call of \<open>Stop\<close> can get to wait for the pipeline.\<close>

definition stopped :: "csys \<Rightarrow> csys" where
  "stopped s = s\<lparr>sub := MEnd,
     cl := (cl s)\<lparr>c_cctl := ChanClosed, cstate := stateClosed, c_out := ChanClosed\<rparr>,
     stp := (stp s)(0 := TPipe)\<rparr>"

lemma stopped_reach:
  assumes "creach c0 s" and "\<not> panicked s" and "stp s 0 = TIdle" and "sub s = MLoop"
    and "cstate (cl s) = stateRunning" and "c_cctl (cl s) = ChanOpen" and "c_out (cl s) = ChanOpen"
  shows "creach c0 (stopped s)"
proof -
  define s1 where "s1 = s\<lparr>cl := (cl s)\<lparr>cstate := stateStopping, c_cctl := ChanClosed\<rparr>, stp := (stp s)(0 := TWg)\<rparr>"
  have "s1 = do_stop 0 s" using assms by (simp add: s1_def do_stop_def Stop_begin_def)
  then have "creach c0 s1" using creach.step [OF assms(1) cstep.stop] assms by simp
  then have "creach c0 (s1\<lparr>sub := MEnding\<rparr>)"
    by (rule creach.step [OF _ cstep.sub_stop]) (use assms in \<open>simp_all add: s1_def\<close>)
  from creach.step [OF this cstep.sub_end]
  have "creach c0 (s1\<lparr>cl := submitter_end (cl s1), sub := MEnd\<rparr>)" (is "creach c0 ?s2")
    using assms by (simp add: s1_def)
  from creach.step [OF this cstep.stop_wg [of _ 0]] show ?thesis
    using assms by (simp add: s1_def submitter_end_def Stop_close_out_def stopped_def)
qed

lemma stopped_running: "creach user_client (stopped running_sys)"
  by (rule stopped_reach [OF running_reach]) (simp_all add: running_sys_def cinit_def running_simps)

lemma pushed_reach:
  "creach user_client (running_sys\<lparr>cl := submit_begin running_client, psh := (\<lambda>_. PIdle)(0 := PTry)\<rparr>)"
proof -
  have "do_push 0 DefaultSigner running_sys
      = running_sys\<lparr>cl := submit_begin running_client, psh := (\<lambda>_. PIdle)(0 := PTry)\<rparr>"
    by (simp add: do_push_def Push_check_def push_missing_auth_def running_sys_def cinit_def running_simps)
  with creach.step [OF running_reach cstep.push [of _ 0 DefaultSigner]] show ?thesis
    by (simp add: running_sys_def cinit_def)
qed

lemma submit_begin_simps:
  "cstate (submit_begin c) = cstate c" "c_cctl (submit_begin c) = c_cctl c" "c_out (submit_begin c) = c_out c"
  "c_gctl (submit_begin c) = c_gctl c" "c_ctl (submit_begin c) = c_ctl c" "c_cb (submit_begin c) = c_cb c"
  "Callback (submit_begin c) = Callback c"
  by (simp_all add: submit_begin_def)

text \<open>A pipeline whose inbound queue was closed.\<close>

definition abandoned :: "csys \<Rightarrow> bool" where
  "abandoned s \<longleftrightarrow> cstate (cl s) = stateClosed \<and> sub s = MEnd \<and> c_out (cl s) = ChanOpen \<and>
     c_gctl (cl s) = ChanOpen \<and> c_cdone (cl s) = ChanOpen \<and> (\<forall>i. \<not> active (stp s i))"

lemma abandoned_step: "cstep s s' \<Longrightarrow> abandoned s \<Longrightarrow> abandoned s'"
proof -
  assume ab: "abandoned s" and "cstep s s'"
  have st: "stp s i \<noteq> TWg" "stp s i \<noteq> TPipe" for i
    using ab unfolding abandoned_def by (metis active.simps(1), metis active.simps(2))
  show ?thesis
    using \<open>cstep s s'\<close> ab st
    by (cases rule: cstep.cases)
       (auto simp: abandoned_def do_start_def Client_Start_def do_stop_def Stop_begin_def Client_Kill_def
          do_push_def submit_begin_def submit_tick_def submit_tock_def split: option.split)
qed

lemma abandoned_reach: "creach user_client (running_sys\<lparr>queue_closed := True, sub := MEnd,
    cl := submitter_end running_client\<rparr>)"
proof -
  have "creach user_client (running_sys\<lparr>queue_closed := True\<rparr>)"
    by (rule creach.step [OF running_reach cstep.close_queue]) (simp add: running_sys_def cinit_def)
  from creach.step [OF this cstep.sub_queue]
  have "creach user_client (running_sys\<lparr>queue_closed := True, sub := MEnding\<rparr>)"
    by (simp add: running_sys_def cinit_def)
  from creach.step [OF this cstep.sub_end] show ?thesis by (simp add: running_sys_def cinit_def)
qed

section \<open>Properties\<close>

text \<open>
  C9. Once started, a client never panics by itself: however calls of \<open>Start\<close>, \<open>Stop\<close>, \<open>Kill\<close> and
  \<open>Push\<close> interleave with the submitter and the pipeline, no call of \<open>Stop\<close> or \<open>Kill\<close> closes a
  channel that is closed, in any of their parts, and the submitter never sends on a closed one.
\<close>

theorem life_cycle_safe:
  assumes "creach (new_client cert sg cb) s" and "cstate (cl s) \<noteq> stateInitial"
  shows "Stop_begin (cl s) \<noteq> None \<and> Client_Kill (cl s) \<noteq> None \<and>
         (stp s i = TWg \<longrightarrow> Stop_close_out (cl s) \<noteq> None) \<and>
         (stp s i = TPipe \<longrightarrow> Stop_finish (cl s) \<noteq> None) \<and>
         (sub s = MTry r \<or> sub s = MWait r \<longrightarrow> c_out (cl s) = ChanOpen)"
proof -
  have stg: "stage (cstate (cl s)) (cl s) (sub s)" and so: "stops_ok (cl s) (sub s) (stp s)"
    using cinv_reach [OF assms(1)] by (simp_all add: cinv_def)
  have "Stop_begin (cl s) \<noteq> None" using Stop_cases [OF stg] assms(2) by (metis option.distinct(1))
  moreover have "Client_Kill (cl s) \<noteq> None" using Kill_cases [OF stg] assms(2) by (metis option.distinct(1))
  moreover have "stp s i = TWg \<longrightarrow> Stop_close_out (cl s) \<noteq> None"
    using stops_okD(3) [OF so] by (auto simp: Stop_close_out_def)
  moreover have "stp s i = TPipe \<longrightarrow> Stop_finish (cl s) \<noteq> None"
    using stops_okD(2) [OF so, of i] by (auto simp: Stop_finish_def)
  moreover have "sub s = MTry r \<or> sub s = MWait r \<longrightarrow> c_out (cl s) = ChanOpen"
    using stg assms(2) by (cases "cstate (cl s)") auto
  ultimately show ?thesis by blast
qed

theorem life_cycle_safe_witness:
  "Stop_finish (cl (stopped running_sys)) \<noteq> None"
  using life_cycle_safe [of True DefaultSigner "UserChan 0" "stopped running_sys" 0]
    stopped_running [unfolded user_client_def]
  by (simp add: stopped_def running_sys_def cinit_def)

text \<open>
  A client that was not started does panic: both \<open>Stop\<close> and \<open>Kill\<close> close channels that are
  still nil, instead of returning \<open>ErrClientNotRunning\<close>.
\<close>

theorem unstarted_panics:
  "Stop_begin (new_client cert sg cb) = None \<and> Client_Kill (new_client cert sg cb) = None"
  by (simp add: Stop_begin_def Client_Kill_def new_client_def Let_def)

text \<open>
  \<open>Kill\<close> does not unblock a pending \<open>Stop\<close>: when a call of \<open>Stop\<close> waits for the pipeline, the
  submitter has already set the closed state, so every call of \<open>Kill\<close> is refused and closes
  nothing.
\<close>

theorem kill_refused_while_stopping:
  assumes "creach (new_client cert sg cb) s" and "stp s i = TPipe"
  shows "Client_Kill (cl s) = Some (cl s, Some ErrClientAlreadyClosed)"
proof -
  have stg: "stage (cstate (cl s)) (cl s) (sub s)" and so: "stops_ok (cl s) (sub s) (stp s)"
    using cinv_reach [OF assms(1)] by (simp_all add: cinv_def)
  have "sub s = MEnd" by (rule stops_okD(4) [OF so assms(2)])
  with stg have "cstate (cl s) = stateClosed" by (cases "cstate (cl s)") simp_all
  then show ?thesis by (simp add: Client_Kill_def)
qed

theorem kill_refused_while_stopping_witness:
  "Client_Kill (cl (stopped running_sys)) = Some (cl (stopped running_sys), Some ErrClientAlreadyClosed)
   \<and> c_ctl (cl (stopped running_sys)) = ChanOpen"
  using kill_refused_while_stopping [of True DefaultSigner "UserChan 0" "stopped running_sys" 0]
    stopped_running [unfolded user_client_def]
  by (simp add: stopped_def running_sys_def cinit_def running_simps)

text \<open>
  Closing the queue does not shut the pipeline down: the submitter ends and marks the client
  closed, after which \<open>Stop\<close> and \<open>Kill\<close> are refused forever, the outbound channel and the
  governor's control channel stay open, and the pipeline is never done.
\<close>

theorem closed_queue_leaks:
  "\<exists>s. creach user_client s \<and>
       (\<forall>s'. rtranclp cstep s s' \<longrightarrow>
          c_out (cl s') = ChanOpen \<and> c_gctl (cl s') = ChanOpen \<and> c_cdone (cl s') = ChanOpen \<and>
          Stop_begin (cl s') = Some (cl s', Some ErrClientAlreadyClosed) \<and>
          Client_Kill (cl s') = Some (cl s', Some ErrClientAlreadyClosed))"
proof -
  let ?s = "running_sys\<lparr>queue_closed := True, sub := MEnd, cl := submitter_end running_client\<rparr>"
  have a: "abandoned ?s"
    by (simp add: abandoned_def running_sys_def cinit_def submitter_end_def running_simps)
  have "abandoned s'" if "rtranclp cstep ?s s'" for s'
    using that by (induction rule: rtranclp_induct) (simp_all add: a abandoned_step)
  then show ?thesis using abandoned_reach
    by (intro exI [of _ ?s]) (simp add: abandoned_def Stop_begin_def Client_Kill_def)
qed

theorem closed_queue_leaks_witness:
  "\<exists>s. creach user_client s \<and> Stop_begin (cl s) = Some (cl s, Some ErrClientAlreadyClosed) \<and>
       c_out (cl s) = ChanOpen"
  using closed_queue_leaks by blast


text \<open>
  A hard stop during a soft stop can panic: \<open>Kill\<close> lets the pending \<open>Stop\<close> go on to close the
  callback channel while the pipeline still has results to deliver to it.
\<close>

theorem callback_closed_early_panics:
  "\<exists>s. creach user_client s \<and> panicked s \<and> stp s 0 = TRet None \<and> results s < length (passed s)"
proof -
  let ?c = "submit_begin running_client"
  let ?p = "running_sys\<lparr>cl := ?c, psh := (\<lambda>_. PIdle)(0 := PRet None), passed := [FromPush 0]\<rparr>"
  have "creach user_client ?p"
    using creach.step [OF pushed_reach cstep.push_sent [of _ 0]]
    by (simp add: running_sys_def cinit_def running_simps submit_begin_simps)
  then have "creach user_client (do_stop 0 ?p)"
    by (rule creach.step [OF _ cstep.stop]) (simp_all add: running_sys_def cinit_def)
  moreover have "do_stop 0 ?p = ?p\<lparr>cl := ?c\<lparr>cstate := stateStopping, c_cctl := ChanClosed\<rparr>,
      stp := (\<lambda>_. TIdle)(0 := TWg)\<rparr>" (is "_ = ?s1")
    by (simp add: do_stop_def Stop_begin_def running_sys_def cinit_def running_simps submit_begin_simps)
  ultimately have "creach user_client ?s1" by simp
  from creach.step [OF this cstep.kill]
  have "creach user_client (?s1\<lparr>cl := ?c\<lparr>cstate := stateTerminating, c_cctl := ChanClosed,
      c_gctl := ChanClosed, c_ctl := ChanClosed\<rparr>\<rparr>)" (is "creach _ ?s2")
    by (simp add: Client_Kill_def running_sys_def cinit_def running_simps submit_begin_simps)
  from creach.step [OF this cstep.sub_stop]
  have "creach user_client (?s2\<lparr>sub := MEnding\<rparr>)" by (simp add: running_sys_def cinit_def)
  from creach.step [OF this cstep.sub_end]
  have "creach user_client (?s2\<lparr>cl := submitter_end (cl ?s2), sub := MEnd\<rparr>)" (is "creach _ ?s3")
    by (simp add: running_sys_def cinit_def)
  from creach.step [OF this cstep.stop_wg [of _ 0]]
  have "creach user_client (?s3\<lparr>cl := (cl ?s3)\<lparr>c_out := ChanClosed\<rparr>, stp := (\<lambda>_. TIdle)(0 := TPipe)\<rparr>)"
    (is "creach _ ?s4")
    by (simp add: running_sys_def cinit_def Stop_close_out_def submitter_end_def running_simps
        submit_begin_simps)
  from creach.step [OF this cstep.stop_pipe [of _ 0]]
  have "creach user_client (?s4\<lparr>cl := (cl ?s4)\<lparr>c_cb := ChanClosed\<rparr>, stp := (\<lambda>_. TIdle)(0 := TRet None)\<rparr>)"
    (is "creach _ ?s5")
    by (simp add: running_sys_def cinit_def Stop_finish_def submitter_end_def running_simps
        submit_begin_simps)
  from creach.step [OF this cstep.result [of _ 0]]
  have "creach user_client (?s5\<lparr>panicked := True\<rparr>)"
    by (simp add: running_sys_def cinit_def submitter_end_def running_simps submit_begin_simps)
  then show ?thesis
    by (intro exI conjI, assumption) (simp_all add: running_sys_def cinit_def)
qed

text \<open>
  C12. \<open>Push\<close> tells the truth: in every interleaving a call that returns no error has passed its
  request to the pipeline exactly once, and one that returns an error has not passed it.
\<close>

theorem push_exactly_once:
  assumes "creach c0 s" and "psh s i = PRet r"
  shows "count_list (passed s) (FromPush i) = (if r = None then 1 else 0)"
  using pushes_reach [OF assms(1)] assms(2) by (simp add: pushes_ok_def)

theorem push_exactly_once_witness:
  "\<exists>s. creach user_client s \<and> psh s 0 = PRet None \<and> count_list (passed s) (FromPush 0) = 1"
proof -
  let ?p = "running_sys\<lparr>cl := submit_begin running_client, psh := (\<lambda>_. PIdle)(0 := PRet None), passed := [FromPush 0]\<rparr>"
  have p: "creach user_client ?p"
    using creach.step [OF pushed_reach cstep.push_sent [of _ 0]]
    by (simp add: running_sys_def cinit_def running_simps submit_begin_simps)
  with push_exactly_once [OF p, of 0 None] show ?thesis by (intro exI [of _ ?p]) simp
qed

text \<open>
  C13. No request of the queue is lost while the client runs: every request the submitter has
  taken was passed to the pipeline once, is in its hands, or was dropped, and a request is
  dropped (silently: no result is ever reported for it) only after \<open>Stop\<close> or \<open>Kill\<close>.
\<close>

theorem queue_requests_accounted:
  assumes "creach (new_client cert sg cb) s"
  shows "mset [0..<taken s] = mset (from_queue (passed s)) + mset (dropped s) + in_submitter (sub s) \<and>
         (dropped s \<noteq> [] \<longrightarrow> c_cctl (cl s) = ChanClosed)"
  using accounted_reach [OF assms] by (simp add: accounted_def)

theorem queue_requests_accounted_witness:
  "\<exists>s. creach user_client s \<and> taken s = 1 \<and>
       mset [0] = mset (from_queue (passed s)) + mset (dropped s) + in_submitter (sub s)"
proof -
  have s: "creach user_client (running_sys\<lparr>cl := submit_begin running_client, sub := MTry 0, taken := 1\<rparr>)"
    using creach.step [OF running_reach cstep.sub_take] by (simp add: running_sys_def cinit_def)
  with queue_requests_accounted [OF s [unfolded user_client_def]] show ?thesis by force
qed

end
