(* ===== verification/Backpressure.thy ===== *)
theory Backpressure
  imports Client
begin

text \<open>
  How the client's wait counter (\<open>waitCtr\<close> of \<open>apns2/client.go\<close>, of package \<open>syncx\<close>) relates to the
  goroutines that are blocked in \<open>submit\<close>, while the governor folds the counter at any time: a fold
  loads the counter in one step and subtracts in a later one.
\<close>

section \<open>The client with the governor's folds\<close>

text \<open>The second part of \<open>TickTockCounter_Fold\<close>, for the value \<open>v\<close> that was loaded.\<close>

definition fold_rest :: "u64 \<Rightarrow> u64 \<Rightarrow> u64" where
  "fold_rest v c = c + NOT (push_bit 32 (ucast (ucast v :: u32)) + ucast (ucast v :: u32) - 1)"

lemma Fold_in_two_parts:
  "snd (TickTockCounter_Fold c xs) = fold_rest c (foldl TickTockCounter_op c xs)"
  by (simp add: TickTockCounter_Fold_def fold_rest_def Let_def)

record polled =
  csys_of :: csys
  loaded :: "u64 option"

definition set_wait_ctr :: "u64 \<Rightarrow> csys \<Rightarrow> csys" where
  "set_wait_ctr c s = s\<lparr>cl := (cl s)\<lparr>c_waitCtr := c\<rparr>\<rparr>"

inductive bstep :: "polled \<Rightarrow> polled \<Rightarrow> bool" where
  run: "cstep (csys_of b) s \<Longrightarrow> bstep b (b\<lparr>csys_of := s\<rparr>)"
| load: "loaded b = None \<Longrightarrow> bstep b (b\<lparr>loaded := Some (c_waitCtr (cl (csys_of b)))\<rparr>)"
| subtract: "loaded b = Some v \<Longrightarrow>
     bstep b (b\<lparr>csys_of := set_wait_ctr (fold_rest v (c_waitCtr (cl (csys_of b)))) (csys_of b),
                loaded := None\<rparr>)"

definition breach :: "client \<Rightarrow> polled \<Rightarrow> bool" where
  "breach c0 b \<longleftrightarrow> bstep\<^sup>*\<^sup>* \<lparr>csys_of = cinit c0, loaded = None\<rparr> b"

text \<open>The goroutines that are blocked in \<open>submit\<close>: callers of \<open>Push\<close>, and the submitter.\<close>

definition blocked_pushes :: "csys \<Rightarrow> nat set" where
  "blocked_pushes s = {i. psh s i = PWait}"

fun submitter_blocked :: "subm \<Rightarrow> nat" where
  "submitter_blocked (MWait _) = 1"
| "submitter_blocked _ = 0"

definition blocked_count :: "csys \<Rightarrow> nat" where
  "blocked_count s = card (blocked_pushes s) + submitter_blocked (sub s)"

section \<open>The counter's two halves and the blocked goroutines\<close>

lemma pack_add: "pack a b + pack c d = pack (a + c) (b + d)"
  by (simp add: pack_def algebra_simps)

lemma op_pack:
  "TickTockCounter_op (pack a b) Tick = pack (Suc a) b" "TickTockCounter_op (pack a b) Tock = pack a (Suc b)"
  by (simp_all add: pack_def algebra_simps push_bit_eq_mult)

lemma lower_pack_le: "unat (ucast (pack a b) :: u32) \<le> b"
proof -
  have "unat (pack a b) mod 2 ^ 32 = (a * 2 ^ 32 + b) mod 2 ^ 64 mod 2 ^ 32"
    by (simp add: pack_def unat_of_nat del: of_nat_add of_nat_mult)
  also have "\<dots> = (a * 2 ^ 32 + b) mod 2 ^ 32" by (rule mod_mod_cancel) simp
  also have "\<dots> \<le> b" by simp
  finally show ?thesis by (simp add: unat_lower_half lo32_def)
qed

lemma fold_rest_pack:
  assumes "unat (ucast v :: u32) \<le> b"
  shows "fold_rest v (pack (b + w) b) = pack (b - unat (ucast v :: u32) + w) (b - unat (ucast v :: u32))"
proof -
  let ?t = "unat (ucast v :: u32)"
  have "push_bit 32 (ucast (ucast v :: u32)) + ucast (ucast v :: u32) = pack ?t ?t"
    by (simp add: pack_def push_bit_eq_mult)
  then have "fold_rest v (pack (b + w) b) = pack (b + w) b - pack ?t ?t"
    by (simp add: fold_rest_def not_minus_one)
  moreover have "pack (b + w) b = pack (b - ?t + w) (b - ?t) + pack ?t ?t"
    using assms by (simp add: pack_add)
  ultimately show ?thesis by simp
qed

section \<open>The invariant\<close>

text \<open>A step of the client blocks one goroutine and ticks, or releases one and tocks, or neither.\<close>

definition balanced_step :: "csys \<Rightarrow> csys \<Rightarrow> bool" where
  "balanced_step s s' \<longleftrightarrow> finite (blocked_pushes s') \<and>
     (c_waitCtr (cl s') = c_waitCtr (cl s) \<and> blocked_count s' = blocked_count s \<or>
      c_waitCtr (cl s') = TickTockCounter_op (c_waitCtr (cl s)) Tick \<and> blocked_count s' = Suc (blocked_count s) \<or>
      c_waitCtr (cl s') = TickTockCounter_op (c_waitCtr (cl s)) Tock \<and> blocked_count s = Suc (blocked_count s'))"

lemma or_panic_wait:
  assumes "\<And>x. r = Some x \<Longrightarrow>
    c_waitCtr (cl (k x)) = c_waitCtr (cl s) \<and> psh (k x) = psh s \<and> sub (k x) = sub s"
  shows "c_waitCtr (cl (or_panic s r k)) = c_waitCtr (cl s)" "psh (or_panic s r k) = psh s"
    "sub (or_panic s r k) = sub s"
  using assms by (cases r; simp)+

lemma balanced_frame:
  assumes "c_waitCtr (cl s') = c_waitCtr (cl s)" "psh s' = psh s" "submitter_blocked (sub s') = submitter_blocked (sub s)"
    and "finite (blocked_pushes s)"
  shows "balanced_step s s'"
  using assms by (simp add: balanced_step_def blocked_count_def blocked_pushes_def)

lemma life_wait:
  "Stop_begin c = Some (c', r) \<Longrightarrow> c_waitCtr c' = c_waitCtr c"
  "Stop_close_out c = Some c' \<Longrightarrow> c_waitCtr c' = c_waitCtr c"
  "Stop_finish c = Some c' \<Longrightarrow> c_waitCtr c' = c_waitCtr c"
  "Client_Kill c = Some (c', r) \<Longrightarrow> c_waitCtr c' = c_waitCtr c"
  "Client_Start c = (c', r) \<Longrightarrow> c_waitCtr c' = c_waitCtr c"
  by (auto simp: Stop_begin_def Stop_close_out_def Stop_finish_def Client_Kill_def Client_Start_def
      Let_def split: if_splits option.splits)

lemma cstep_balanced:
  assumes "cstep s s'" and inv: "cinv s" and fin: "finite (blocked_pushes s)"
  shows "balanced_step s s'"
  using assms(1)
proof (cases rule: cstep.cases)
  case start
  have "submitter_blocked (sub (do_start s)) = submitter_blocked (sub s)"
    using inv by (cases "cstate (cl s)") (auto simp: do_start_def Client_Start_def cinv_def)
  moreover have "c_waitCtr (cl (do_start s)) = c_waitCtr (cl s)" "psh (do_start s) = psh s"
    by (auto simp: do_start_def Client_Start_def split: prod.split option.split)
  ultimately show ?thesis using start fin by (auto intro: balanced_frame)
next
  case (stop i)
  then show ?thesis using fin life_wait(1) [of "cl s"] unfolding do_stop_def
    by (auto intro!: balanced_frame or_panic_wait simp: or_panic_wait split: prod.splits)
next
  case (stop_wg i)
  then show ?thesis using fin life_wait(2) [of "cl s"]
    by (cases "Stop_close_out (cl s)") (auto intro!: balanced_frame)
next
  case (stop_pipe i)
  then show ?thesis using fin life_wait(3) [of "cl s"]
    by (cases "Stop_finish (cl s)") (auto intro!: balanced_frame)
next
  case kill
  then show ?thesis using fin life_wait(4) [of "cl s"]
    by (cases "Client_Kill (cl s)") (auto intro!: balanced_frame)
next
  case (push i sg)
  then have "blocked_pushes s' = blocked_pushes s"
    by (auto simp: do_push_def blocked_pushes_def split: option.splits if_splits)
  then show ?thesis using push fin
    by (auto simp: balanced_step_def do_push_def blocked_count_def submit_begin_def split: option.splits)
next
  case (push_blocks i)
  then have "blocked_pushes s' = insert i (blocked_pushes s)" "i \<notin> blocked_pushes s"
    by (auto simp: blocked_pushes_def)
  with push_blocks fin show ?thesis by (simp add: balanced_step_def blocked_count_def submit_tick_def)
next
  case (push_sent i)
  then have "blocked_pushes s' = blocked_pushes s" by (auto simp: blocked_pushes_def)
  with push_sent fin show ?thesis by (simp add: balanced_step_def blocked_count_def)
next
  case (push_sent_late i)
  then have "blocked_pushes s' = blocked_pushes s - {i}" "i \<in> blocked_pushes s"
    by (auto simp: blocked_pushes_def)
  with push_sent_late fin card_Suc_Diff1 [OF fin, of i] show ?thesis
    by (simp add: balanced_step_def blocked_count_def submit_tock_def)
next
  case (push_interrupted i)
  then have "blocked_pushes s' = blocked_pushes s - {i}" "i \<in> blocked_pushes s"
    by (auto simp: blocked_pushes_def)
  with push_interrupted fin card_Suc_Diff1 [OF fin, of i] show ?thesis
    by (simp add: balanced_step_def blocked_count_def submit_tock_def)
qed (use fin in \<open>auto simp: balanced_step_def blocked_count_def blocked_pushes_def submit_begin_def submit_tick_def
       submit_tock_def submitter_begin_def submitter_end_def split: if_splits\<close>)

definition ctr_inv :: "polled \<Rightarrow> bool" where
  "ctr_inv p \<longleftrightarrow> cinv (csys_of p) \<and> finite (blocked_pushes (csys_of p)) \<and>
     (\<exists>b. c_waitCtr (cl (csys_of p)) = pack (b + blocked_count (csys_of p)) b \<and>
          (\<forall>v. loaded p = Some v \<longrightarrow> unat (ucast v :: u32) \<le> b))"

lemma set_wait_ctr_simps [simp]:
  "c_waitCtr (cl (set_wait_ctr c s)) = c" "blocked_count (set_wait_ctr c s) = blocked_count s"
  "blocked_pushes (set_wait_ctr c s) = blocked_pushes s"
  by (simp_all add: set_wait_ctr_def blocked_count_def blocked_pushes_def)

lemma cinv_set_wait_ctr [simp]: "cinv s \<Longrightarrow> cinv (set_wait_ctr c s)"
  by (rule cinv_same) (simp_all add: set_wait_ctr_def same_life_def)

lemma ctr_inv_step:
  assumes "bstep p p'" and inv: "ctr_inv p"
  shows "ctr_inv p'"
  using assms(1)
proof (cases rule: bstep.cases)
  case (run s)
  from inv obtain b where b: "c_waitCtr (cl (csys_of p)) = pack (b + blocked_count (csys_of p)) b"
    "\<And>v. loaded p = Some v \<Longrightarrow> unat (ucast v :: u32) \<le> b" by (auto simp: ctr_inv_def)
  have bal: "balanced_step (csys_of p) s" and c: "cinv s"
    using cstep_balanced cinv_step run(2) inv by (auto simp: ctr_inv_def)
  have "\<exists>b'\<ge>b. c_waitCtr (cl s) = pack (b' + blocked_count s) b'"
    using bal unfolding balanced_step_def b(1) op_pack by (auto intro: exI [of _ b] exI [of _ "Suc b"])
  then obtain b' where "b \<le> b'" "c_waitCtr (cl s) = pack (b' + blocked_count s) b'" by blast
  with bal c b(2) run(1) show ?thesis
    by (auto simp: ctr_inv_def balanced_step_def intro!: exI [of _ b'] intro: order_trans)
next
  case load
  with inv lower_pack_le show ?thesis by (auto simp: ctr_inv_def)
next
  case (subtract v)
  with inv obtain b where b: "c_waitCtr (cl (csys_of p)) = pack (b + blocked_count (csys_of p)) b"
    "unat (ucast v :: u32) \<le> b" by (auto simp: ctr_inv_def)
  let ?b = "b - unat (ucast v :: u32)"
  from subtract b(1) fold_rest_pack [OF b(2)]
  have "c_waitCtr (cl (csys_of p')) = pack (?b + blocked_count (csys_of p')) ?b" by simp
  with inv subtract show ?thesis by (auto simp: ctr_inv_def)
qed

lemma ctr_inv_reach:
  assumes "breach (new_client cert sg cb) p"
  shows "ctr_inv p"
  using assms unfolding breach_def
proof (induction rule: rtranclp_induct)
  case base
  have "cinv (cinit (new_client cert sg cb))"
    by (rule cinv_reach) (rule creach.init)
  moreover have "c_waitCtr (new_client cert sg cb) = pack 0 0" by (simp add: new_client_def pack_def)
  ultimately show ?case
    by (auto simp: ctr_inv_def blocked_count_def blocked_pushes_def cinit_def)
next
  case (step p p')
  then show ?case by (blast intro: ctr_inv_step)
qed

section \<open>Properties\<close>


text \<open>A caller of \<open>Push\<close> is blocked, and the governor has loaded the counter.\<close>

definition waiting_push :: csys where
  "waiting_push = running_sys\<lparr>cl := submit_tick (submit_begin running_client), psh := (\<lambda>_. PIdle)(0 := PWait)\<rparr>"

lemma creach_breach: "creach c0 s \<Longrightarrow> breach c0 \<lparr>csys_of = s, loaded = None\<rparr>"
proof (induction rule: creach.induct)
  case init
  show ?case by (simp add: breach_def)
next
  case (step s s')
  from bstep.run [of "\<lparr>csys_of = s, loaded = None\<rparr>" s'] step.hyps(2)
  have "bstep \<lparr>csys_of = s, loaded = None\<rparr> \<lparr>csys_of = s', loaded = None\<rparr>" by simp
  with step.IH show ?case unfolding breach_def by (rule rtranclp.rtrancl_into_rtrancl)
qed

lemma waiting_push_reach: "creach user_client waiting_push"
  using creach.step [OF pushed_reach cstep.push_blocks [of _ 0]]
  by (simp add: waiting_push_def running_sys_def cinit_def submit_begin_simps running_simps)

lemma waiting_push_loaded:
  "breach user_client \<lparr>csys_of = waiting_push, loaded = Some (c_waitCtr (cl waiting_push))\<rparr>"
  using creach_breach [OF waiting_push_reach] bstep.load [of "\<lparr>csys_of = waiting_push, loaded = None\<rparr>"]
  unfolding breach_def by (auto intro: rtranclp.rtrancl_into_rtrancl)


end
