(* ===== verification/Http2x.thy ===== *)
theory Http2x
  imports Response
begin

text \<open>
  Package \<open>http2x\<close>: access to private fields of the HTTP/2 library by reflection. The library
  is not part of the program: the layout of its structures (which fields they have, of which
  type and at which index) and the state of its connections are arguments. What is modelled is
  the check that the package makes of the layout when it is initialised, and the accessors.
\<close>

section \<open>Layouts\<close>

text \<open>What reflection tells of a field: its index path and which of the tested types it has.\<close>

record field_info =
  Index :: "nat list"
  is_mutex :: bool
  is_uint32 :: bool
  is_bool :: bool
  is_goaway :: bool
  is_pool :: bool

type_synonym layout = "string \<Rightarrow> field_info option"

text \<open>The package's variables: \<open>clientConn\<close>, \<open>transport\<close> and \<open>http2Compat\<close>.\<close>

record http2x_vars =
  http2Compat :: bool
  cc_mu :: "nat list"
  cc_maxConcurrentStreams :: "nat list"
  cc_closed :: "nat list"
  cc_goAway :: "nat list"
  tr_connPoolOrDef :: "nat list"

text \<open>One field of the check: its index when it is there with the type, or the flag is cleared.\<close>

definition lookup_field :: "layout \<Rightarrow> string \<Rightarrow> (field_info \<Rightarrow> bool) \<Rightarrow> nat list option" where
  "lookup_field l name ty =
     (case l name of Some f \<Rightarrow> if ty f then Some (Index f) else None | None \<Rightarrow> None)"

definition put_field ::
  "nat list option \<Rightarrow> (nat list \<Rightarrow> http2x_vars \<Rightarrow> http2x_vars) \<Rightarrow> http2x_vars \<Rightarrow> http2x_vars" where
  "put_field found store v =
     (case found of Some ix \<Rightarrow> store ix v | None \<Rightarrow> v\<lparr>http2Compat := False\<rparr>)"

definition http2x_init :: "layout \<Rightarrow> layout \<Rightarrow> http2x_vars" where
  "http2x_init c t =
     (let v0 = \<lparr>http2Compat = True, cc_mu = [], cc_maxConcurrentStreams = [], cc_closed = [],
                cc_goAway = [], tr_connPoolOrDef = []\<rparr>;
          v1 = put_field (lookup_field c ''mu'' is_mutex) (\<lambda>ix v. v\<lparr>cc_mu := ix\<rparr>) v0;
          v2 = put_field (lookup_field c ''maxConcurrentStreams'' is_uint32)
                 (\<lambda>ix v. v\<lparr>cc_maxConcurrentStreams := ix\<rparr>) v1;
          v3 = put_field (lookup_field c ''closed'' is_bool) (\<lambda>ix v. v\<lparr>cc_closed := ix\<rparr>) v2;
          v4 = put_field (lookup_field c ''goAway'' is_goaway) (\<lambda>ix v. v\<lparr>cc_goAway := ix\<rparr>) v3
      in put_field (lookup_field t ''connPoolOrDef'' is_pool)
           (\<lambda>ix v. v\<lparr>tr_connPoolOrDef := ix\<rparr>) v4)"

section \<open>Accessors\<close>

text \<open>
  A connection of the library: whether it takes new requests, and the 32-bit value that lies
  at each index path of its structure.
\<close>

record client_conn =
  CanTakeNewRequest :: bool
  u32_at :: "nat list \<Rightarrow> u32"

definition GetMaxConcurrentStreams :: "http2x_vars \<Rightarrow> client_conn option \<Rightarrow> u32" where
  "GetMaxConcurrentStreams v c =
     (case c of
        None \<Rightarrow> 1
      | Some conn \<Rightarrow>
          if \<not> CanTakeNewRequest conn then 0
          else if \<not> http2Compat v then NOT 0
          else u32_at conn (cc_maxConcurrentStreams v))"

text \<open>
  The transports a client can be given: an \<open>*http2.Transport\<close> with the pool at each index path,
  a nil one, or some other implementation. \<open>'p\<close> is the library's pool.
\<close>

datatype 'p round_tripper = HTTP2Transport "nat list \<Rightarrow> 'p" | NilTransport | OtherTransport

definition GetClientConnPool :: "http2x_vars \<Rightarrow> 'p round_tripper \<Rightarrow> goerr + 'p" where
  "GetClientConnPool v t =
     (if \<not> http2Compat v then Inl ErrIncompatibleHTTP2Layer
      else case t of
             HTTP2Transport pool_at \<Rightarrow> Inr (pool_at (tr_connPoolOrDef v))
           | _ \<Rightarrow> Inl ErrUnsupportedTransport)"

section \<open>Properties\<close>

lemma put_field_compat:
  "(\<And>ix v. http2Compat (store ix v) = http2Compat v) \<Longrightarrow>
   http2Compat (put_field found store v) \<longleftrightarrow> http2Compat v \<and> found \<noteq> None"
  by (cases found) (simp_all add: put_field_def)

lemma http2x_init_compat:
  "http2Compat (http2x_init c t) \<longleftrightarrow>
     lookup_field c ''mu'' is_mutex \<noteq> None \<and>
     lookup_field c ''maxConcurrentStreams'' is_uint32 \<noteq> None \<and>
     lookup_field c ''closed'' is_bool \<noteq> None \<and>
     lookup_field c ''goAway'' is_goaway \<noteq> None \<and>
     lookup_field t ''connPoolOrDef'' is_pool \<noteq> None"
  by (simp add: http2x_init_def Let_def put_field_compat)

lemma http2x_init_index:
  assumes "http2Compat (http2x_init c t)"
  shows "cc_maxConcurrentStreams (http2x_init c t)
           = the (lookup_field c ''maxConcurrentStreams'' is_uint32)"
    and "tr_connPoolOrDef (http2x_init c t) = the (lookup_field t ''connPoolOrDef'' is_pool)"
  using assms unfolding http2x_init_compat
  by (auto simp: http2x_init_def Let_def put_field_def)

lemma lookup_field_Some:
  "lookup_field l name ty = Some ix \<longleftrightarrow> (\<exists>f. l name = Some f \<and> ty f \<and> Index f = ix)"
  by (auto simp: lookup_field_def split: option.splits)

text \<open>
  Reflection never reads a field of the wrong type, whatever the layout of the linked
  library: the number of streams of a usable connection is either the contents of a field
  named \<open>maxConcurrentStreams\<close> that is a 32-bit unsigned integer, or, when any of the checks of
  the layout failed, the maximal one.
\<close>

theorem max_streams_checked:
  assumes "CanTakeNewRequest conn"
  shows "GetMaxConcurrentStreams (http2x_init c t) (Some conn) = NOT 0 \<or>
         (\<exists>f. c ''maxConcurrentStreams'' = Some f \<and> is_uint32 f \<and>
              GetMaxConcurrentStreams (http2x_init c t) (Some conn) = u32_at conn (Index f))"
proof (cases "http2Compat (http2x_init c t)")
  case False
  with assms show ?thesis by (simp add: GetMaxConcurrentStreams_def)
next
  case True
  then obtain ix where ix: "lookup_field c ''maxConcurrentStreams'' is_uint32 = Some ix"
    unfolding http2x_init_compat by blast
  then have "cc_maxConcurrentStreams (http2x_init c t) = ix"
    using http2x_init_index(1) [OF True] by simp
  with True assms ix show ?thesis
    by (auto simp: GetMaxConcurrentStreams_def lookup_field_Some)
qed

theorem max_streams_checked_witness:
  "GetMaxConcurrentStreams (http2x_init (\<lambda>_. None) (\<lambda>_. None))
     (Some \<lparr>CanTakeNewRequest = True, u32_at = (\<lambda>_. 100)\<rparr>) = NOT 0"
  using max_streams_checked [of "\<lparr>CanTakeNewRequest = True, u32_at = (\<lambda>_. 100)\<rparr>" "\<lambda>_. None" "\<lambda>_. None"]
  by simp

end
