(* ===== verification/HttpClient.thy ===== *)
theory HttpClient
  imports Dispatch Http2x
begin

text \<open>
  \<open>apns2/http.go\<close>: the client that owns one HTTP/2 connection and hands out reservations of its
  streams. The critical sections under the mutex are functions on the client's record that also
  say whether they broadcast on the condition variable; requests, the goroutines that watch
  their contexts, the poller and the closers are a step relation over them. What the library's
  connection reports is the result of \<open>GetMaxConcurrentStreams\<close>, or an error: an argument of
  each refresh.
\<close>

section \<open>The client and its critical sections\<close>

record httpc =
  precise :: bool
  pollInt :: duration
  cfgCap :: u32
  connPool :: bool
  actCap :: u32
  effCap :: u32
  cnt :: u32
  closed :: bool
  h_tkr :: bool
  h_ctl :: chan

text \<open>As \<open>NewHTTPClient\<close> returns it and \<open>streamer.start\<close> sets it up.\<close>

definition NewHTTPClient :: "httpc" where
  "NewHTTPClient =
     \<lparr>precise = False, pollInt = 0, cfgCap = 1, connPool = False, actCap = 0, effCap = 0,
      cnt = 0, closed = False, h_tkr = False, h_ctl = ChanNil\<rparr>"

definition streamer_client :: "ProcCfg \<Rightarrow> CommsCfg \<Rightarrow> httpc" where
  "streamer_client p c =
     (let pi = (if AllowHTTP2Incursion p \<and> \<not> UsePreciseHTTP2Metrics p
                then HTTP2MetricsRefreshPeriod p else 0)
      in NewHTTPClient\<lparr>precise := AllowHTTP2Incursion p \<and> UsePreciseHTTP2Metrics p, pollInt := pi,
           cfgCap := MaxConcurrentStreams c\<rparr>)"

text \<open>The second component is whether the condition variable is broadcast.\<close>

definition refreshCapLocked :: "(goerr + u32) \<Rightarrow> httpc \<Rightarrow> httpc \<times> bool" where
  "refreshCapLocked report c =
     (if \<not> connPool c then (c, False)
      else case report of
             Inl _ \<Rightarrow> (c, False)
           | Inr n \<Rightarrow>
               let v = (if n > cfgCap c then cfgCap c else n);
                   notif = (effCap c < v \<or> (effCap c > 0 \<and> v = 0))
               in (c\<lparr>actCap := n, effCap := v\<rparr>, notif))"

definition release :: "httpc \<Rightarrow> httpc \<times> bool" where
  "release c =
     (if cnt c > 0
      then let c' = c\<lparr>cnt := cnt c - 1\<rparr> in (c', cnt c' < effCap c')
      else (c, False))"

text \<open>
  \<open>pool\<close> is what \<open>GetClientConnPool\<close> returns. The poller goroutine is started when the ticker
  is: \<open>h_tkr\<close>.
\<close>

definition init_client :: "(goerr + unit) \<Rightarrow> (goerr + u32) \<Rightarrow> httpc \<Rightarrow> httpc" where
  "init_client pool report c =
     (let c1 = c\<lparr>effCap := 1\<rparr>;
          c2 = (if precise c1 \<or> pollInt c1 > 0
                then fst (refreshCapLocked report (c1\<lparr>connPool := (case pool of Inl _ \<Rightarrow> False | Inr _ \<Rightarrow> True)\<rparr>))
                else c1)
      in if connPool c2 \<and> pollInt c2 > 0 then c2\<lparr>h_tkr := True, h_ctl := ChanOpen\<rparr> else c2)"

text \<open>One evaluation of the loop of \<open>ReservedStream\<close>, with the error seen so far.\<close>

definition blocked :: "httpc \<Rightarrow> bool" where
  "blocked c = (effCap c > 0 \<and> cnt c \<ge> effCap c)"

datatype reserve_result = MustWait | Failed goerr | Reserved httpc

definition try_reserve :: "httpc \<Rightarrow> goerr option \<Rightarrow> reserve_result" where
  "try_reserve c cerr =
     (if blocked c \<and> cerr = None then MustWait
      else case cerr of
             Some e \<Rightarrow> Failed e
           | None \<Rightarrow> Reserved (c\<lparr>cnt := cnt c + 1\<rparr>))"

text \<open>
  \<open>Close\<close>: the test of \<open>closed\<close> is made before the mutex is taken. The body is \<open>None\<close> when it
  panics.
\<close>

definition close_refused :: "httpc \<Rightarrow> bool" where
  "close_refused c = closed c"

definition close_body :: "httpc \<Rightarrow> httpc option" where
  "close_body c =
     (if h_tkr c
      then case close_chan (h_ctl c) of
             None \<Rightarrow> None
           | Some ch \<Rightarrow> Some (c\<lparr>h_ctl := ch, closed := True\<rparr>)
      else Some (c\<lparr>closed := True\<rparr>))"

definition HTTPClient_Close :: "httpc \<Rightarrow> (httpc \<times> goerr option) option" where
  "HTTPClient_Close c =
     (if close_refused c then Some (c, Some ErrHTTPClientClosed)
      else case close_body c of None \<Rightarrow> None | Some c' \<Rightarrow> Some (c', None))"

section \<open>Waiting on the condition variable: the interface\<close>

text \<open>
  What the waiting loop relies on: an action that does not broadcast does not make a request
  that had to wait able to proceed. Then nobody sleeps who could proceed.
\<close>

locale signalling =
  fixes act :: "'a \<Rightarrow> 's \<Rightarrow> 's \<times> bool"
    and waits :: "'s \<Rightarrow> bool"
  assumes silent_keeps: "waits s \<Longrightarrow> act a s = (s', False) \<Longrightarrow> waits s'"
begin

lemma sleeper_waits:
  assumes "asleep \<Longrightarrow> waits s" and "asleep' \<Longrightarrow> asleep \<and> \<not> snd (act a s)"
  shows "asleep' \<Longrightarrow> waits (fst (act a s))"
  using assms silent_keeps by (metis prod.collapse)

end

datatype monitor_action = Refresh "goerr + u32" | Release

fun monitor_act :: "monitor_action \<Rightarrow> httpc \<Rightarrow> httpc \<times> bool" where
  "monitor_act (Refresh r) c = refreshCapLocked r c"
| "monitor_act Release c = release c"

interpretation mon: signalling monitor_act blocked
proof
  fix c c' a
  assume b: "blocked c" and act: "monitor_act a c = (c', False)"
  show "blocked c'"
  proof (cases a)
    case (Refresh r)
    with b act show ?thesis
      by (auto simp: refreshCapLocked_def blocked_def Let_def word_gt_0
          split: if_splits sum.splits)
  next
    case Release
    with b act show ?thesis
      by (auto simp: release_def blocked_def Let_def not_less split: if_splits)
  qed
qed

section \<open>The goroutines\<close>

text \<open>
  One request makes one reservation: it calls \<open>ReservedStream\<close> (\<open>RIdle\<close>), may sleep and be woken
  any number of times, then holds the stream until it closes it, or fails. \<open>cpc\<close> is the
  goroutine that waits for the request's context: not started, waiting, has stored its error
  and is about to broadcast, ended.
\<close>

datatype rpc = RIdle | RSleep | RWoken | RHold | RFail goerr | RDone

datatype cpc = CNone | CWait | CSet | CDone

text \<open>The poller goroutine of \<open>init\<close>.\<close>

datatype ppc = POff | PollWait | PDone

record hsys =
  hc :: httpc
  rp :: "nat \<Rightarrow> rpc"
  cn :: "nat \<Rightarrow> cpc"
  cerr :: "nat \<Rightarrow> goerr option"
  pl :: ppc

definition wake :: "bool \<Rightarrow> (nat \<Rightarrow> rpc) \<Rightarrow> nat \<Rightarrow> rpc" where
  "wake b r = (\<lambda>i. if b \<and> r i = RSleep then RWoken else r i)"

text \<open>A critical section of the monitor, with its broadcast.\<close>

definition monitor :: "monitor_action \<Rightarrow> hsys \<Rightarrow> hsys" where
  "monitor a s = (let (c, b) = monitor_act a (hc s) in s\<lparr>hc := c, rp := wake b (rp s)\<rparr>)"

text \<open>Request \<open>i\<close> evaluates the loop; the first time it must wait, it starts its watcher.\<close>

definition attempt :: "bool \<Rightarrow> nat \<Rightarrow> hsys \<Rightarrow> hsys" where
  "attempt cancellable i s =
     (case try_reserve (hc s) (cerr s i) of
        MustWait \<Rightarrow>
          s\<lparr>rp := (rp s)(i := RSleep),
            cn := (if cancellable \<and> cn s i = CNone then (cn s)(i := CWait) else cn s)\<rparr>
      | Failed e \<Rightarrow> s\<lparr>rp := (rp s)(i := RFail e)\<rparr>
      | Reserved c \<Rightarrow> s\<lparr>hc := c, rp := (rp s)(i := RHold)\<rparr>)"

text \<open>\<open>ok\<close> restricts the reports of the connection; \<open>\<lambda>_. True\<close> is the general case.\<close>

fun report_in :: "(u32 \<Rightarrow> bool) \<Rightarrow> (goerr + u32) \<Rightarrow> bool" where
  "report_in ok (Inl _) = True"
| "report_in ok (Inr n) = ok n"

inductive hstep :: "(u32 \<Rightarrow> bool) \<Rightarrow> hsys \<Rightarrow> hsys \<Rightarrow> bool" for ok where
  enter: "rp s i = RIdle \<Longrightarrow> \<not> precise (hc s) \<Longrightarrow> hstep ok s (attempt cancellable i s)"
| enter_precise: "rp s i = RIdle \<Longrightarrow> precise (hc s) \<Longrightarrow> report_in ok r \<Longrightarrow>
     hstep ok s (attempt cancellable i (monitor (Refresh r) s))"
| woken: "rp s i = RWoken \<Longrightarrow> hstep ok s (attempt cancellable i s)"
| close_stream: "rp s i = RHold \<Longrightarrow>
     hstep ok s ((monitor Release s)\<lparr>rp := (wake (snd (release (hc s))) (rp s))(i := RDone)\<rparr>)"
| cancelled: "cn s i = CWait \<Longrightarrow>
     hstep ok s (s\<lparr>cn := (cn s)(i := CSet), cerr := (cerr s)(i := Some e)\<rparr>)"
| cancel_bcast: "cn s i = CSet \<Longrightarrow>
     hstep ok s (s\<lparr>cn := (cn s)(i := CDone), rp := wake True (rp s)\<rparr>)"
| watcher_ends: "cn s i = CWait \<Longrightarrow> rp s i \<in> {RHold, RFail e, RDone} \<Longrightarrow>
     hstep ok s (s\<lparr>cn := (cn s)(i := CDone)\<rparr>)"
| poll: "pl s = PollWait \<Longrightarrow> report_in ok r \<Longrightarrow>
     hstep ok s ((monitor (Refresh r) s)\<lparr>pl := PDone\<rparr>)"
| poller_ends: "pl s = PollWait \<Longrightarrow> h_ctl (hc s) = ChanClosed \<Longrightarrow> hstep ok s (s\<lparr>pl := PDone\<rparr>)"
| close_client: "HTTPClient_Close (hc s) = Some (c, res) \<Longrightarrow> hstep ok s (s\<lparr>hc := c\<rparr>)"

text \<open>The state after \<open>init\<close>, with a poller when there is a ticker.\<close>

definition hinit :: "httpc \<Rightarrow> hsys" where
  "hinit c = \<lparr>hc = c, rp = (\<lambda>_. RIdle), cn = (\<lambda>_. CNone), cerr = (\<lambda>_. None),
     pl = (if h_tkr c then PollWait else POff)\<rparr>"

inductive hreach :: "(u32 \<Rightarrow> bool) \<Rightarrow> httpc \<Rightarrow> hsys \<Rightarrow> bool" for ok c0 where
  init: "c = init_client pool report c0 \<Longrightarrow> report_in ok report \<Longrightarrow> hreach ok c0 (hinit c)"
| step: "hreach ok c0 s \<Longrightarrow> hstep ok s s' \<Longrightarrow> hreach ok c0 s'"

text \<open>The requests that hold a stream.\<close>

definition holders :: "hsys \<Rightarrow> nat set" where
  "holders s = {i. rp s i = RHold}"

section \<open>No sleeper could proceed\<close>

definition asleep_ok :: "hsys \<Rightarrow> bool" where
  "asleep_ok s \<longleftrightarrow>
     (\<forall>i. rp s i = RSleep \<longrightarrow> blocked (hc s) \<and> (cerr s i = None \<or> cn s i = CSet))"

lemma wake_simps [simp]:
  "wake b r i = RSleep \<longleftrightarrow> r i = RSleep \<and> \<not> b"
  "wake b r i = RHold \<longleftrightarrow> r i = RHold"
  "wake b r i = RIdle \<longleftrightarrow> r i = RIdle"
  by (auto simp: wake_def)

lemma monitor_simps [simp]:
  "hc (monitor a s) = fst (monitor_act a (hc s))"
  "rp (monitor a s) = wake (snd (monitor_act a (hc s))) (rp s)"
  "cn (monitor a s) = cn s" "cerr (monitor a s) = cerr s" "pl (monitor a s) = pl s"
  by (simp_all add: monitor_def split_beta)

lemma monitor_asleep: "asleep_ok s \<Longrightarrow> asleep_ok (monitor a s)"
  using mon.sleeper_waits [of "\<exists>i. rp s i = RSleep" "hc s"]
  by (auto simp: asleep_ok_def)

lemma attempt_asleep: "asleep_ok s \<Longrightarrow> asleep_ok (attempt c i s)"
  by (auto simp: asleep_ok_def attempt_def try_reserve_def
      split: reserve_result.splits option.splits if_splits)

lemma Close_frame:
  assumes "HTTPClient_Close c = Some (c', res)"
  shows "effCap c' = effCap c" "cnt c' = cnt c" "cfgCap c' = cfgCap c" "connPool c' = connPool c"
    "precise c' = precise c"
  using assms
  by (auto simp: HTTPClient_Close_def close_body_def split: if_splits option.splits)

lemma asleep_step:
  assumes "hstep ok s s'" and ok: "asleep_ok s"
  shows "asleep_ok s'"
  using assms(1)
proof (cases rule: hstep.cases)
  case (enter_precise i r c)
  with ok show ?thesis by (simp add: attempt_asleep monitor_asleep)
next
  case (close_stream i)
  have "asleep_ok (monitor Release s)" using ok by (rule monitor_asleep)
  with close_stream show ?thesis by (auto simp: asleep_ok_def)
next
  case (poll r)
  have "asleep_ok (monitor (Refresh r) s)" using ok by (rule monitor_asleep)
  with poll show ?thesis by (auto simp: asleep_ok_def)
next
  case (close_client c res)
  with ok Close_frame(1,2) [OF close_client(2)] show ?thesis
    by (simp add: asleep_ok_def blocked_def)
qed (use ok in \<open>auto simp: attempt_asleep\<close>, use ok in \<open>auto simp: asleep_ok_def\<close>)

lemma asleep_reach: "hreach ok c0 s \<Longrightarrow> asleep_ok s"
  by (induction rule: hreach.induct) (auto simp: asleep_step, simp add: hinit_def asleep_ok_def)

section \<open>The reservations are counted and bounded\<close>

text \<open>
  \<open>M\<close> bounds the effective capacity: it is at least one, and while there is a connection pool
  whose reports are positive, at most the configured one.
\<close>

definition caps :: "(u32 \<Rightarrow> bool) \<Rightarrow> nat \<Rightarrow> httpc \<Rightarrow> bool" where
  "caps ok M c \<longleftrightarrow>
     0 < effCap c \<and> unat (effCap c) \<le> M \<and> unat (cnt c) \<le> M \<and> M < 2 ^ 32 \<and>
     (connPool c \<longrightarrow> 0 < cfgCap c \<and> unat (cfgCap c) \<le> M \<and> (\<forall>n. ok n \<longrightarrow> 0 < n))"

definition counted :: "(u32 \<Rightarrow> bool) \<Rightarrow> nat \<Rightarrow> hsys \<Rightarrow> bool" where
  "counted ok M s \<longleftrightarrow>
     caps ok M (hc s) \<and> finite (holders s) \<and> unat (cnt (hc s)) = card (holders s)"

lemma caps_refresh:
  "caps ok M c \<Longrightarrow> report_in ok r \<Longrightarrow> caps ok M (fst (refreshCapLocked r c))"
  by (cases r) (auto simp: caps_def refreshCapLocked_def Let_def word_le_nat_alt word_less_nat_alt)

lemma refresh_frame:
  "cnt (fst (refreshCapLocked r c)) = cnt c" "cfgCap (fst (refreshCapLocked r c)) = cfgCap c"
  "connPool (fst (refreshCapLocked r c)) = connPool c"
  "precise (fst (refreshCapLocked r c)) = precise c"
  "pollInt (fst (refreshCapLocked r c)) = pollInt c"
  by (simp_all add: refreshCapLocked_def Let_def split: sum.split)

lemma counted_refresh:
  "counted ok M s \<Longrightarrow> report_in ok r \<Longrightarrow> counted ok M (monitor (Refresh r) s)"
  by (simp add: counted_def caps_refresh refresh_frame holders_def)

lemma unat_suc: "unat (c :: u32) + 1 < 2 ^ 32 \<Longrightarrow> unat (c + 1) = unat c + 1"
  by (simp add: unat_word_ariths)

lemma counted_attempt:
  assumes "counted ok M s" and "rp s i \<noteq> RHold"
  shows "counted ok M (attempt cancellable i s)"
proof (cases "try_reserve (hc s) (cerr s i)")
  case MustWait
  have "holders (attempt cancellable i s) = holders s"
    using MustWait assms(2) by (auto simp: attempt_def holders_def)
  with MustWait assms(1) show ?thesis by (simp add: counted_def attempt_def)
next
  case (Failed e)
  have "holders (attempt cancellable i s) = holders s"
    using Failed assms(2) by (auto simp: attempt_def holders_def)
  with Failed assms(1) show ?thesis by (simp add: counted_def attempt_def)
next
  case (Reserved c)
  then have c: "c = (hc s)\<lparr>cnt := cnt (hc s) + 1\<rparr>" and nb: "\<not> blocked (hc s)"
    by (auto simp: try_reserve_def split: if_splits option.splits)
  have "unat (cnt (hc s)) < unat (effCap (hc s))"
    using nb assms(1) by (simp add: blocked_def counted_def caps_def word_le_nat_alt)
  moreover have m: "unat (effCap (hc s)) \<le> M" "M < 2 ^ 32"
    using assms(1) by (simp_all add: counted_def caps_def)
  ultimately have le: "unat (cnt (hc s)) + 1 \<le> M" by linarith
  then have u: "unat (cnt (hc s) + 1) = unat (cnt (hc s)) + 1" using m(2) by (intro unat_suc) linarith
  have h: "holders (attempt cancellable i s) = insert i (holders s)" "i \<notin> holders s"
    using Reserved assms(2) by (auto simp: attempt_def holders_def)
  have "caps ok M c" using assms(1) u le by (simp add: counted_def caps_def c)
  with Reserved assms(1) h u c show ?thesis by (simp add: counted_def) (simp add: attempt_def)
qed

lemma counted_close:
  assumes "counted ok M s" and "rp s i = RHold"
  shows "counted ok M ((monitor Release s)\<lparr>rp := (wake (snd (release (hc s))) (rp s))(i := RDone)\<rparr>)"
proof -
  have i: "i \<in> holders s" using assms(2) by (simp add: holders_def)
  have fin: "finite (holders s)" and n: "unat (cnt (hc s)) = card (holders s)"
    using assms(1) by (simp_all add: counted_def)
  have "card (holders s) \<noteq> 0" using i fin by auto
  then have pos: "0 < cnt (hc s)" using n by (simp add: word_less_nat_alt)
  then have u: "unat (cnt (hc s) - 1) = card (holders s) - 1"
    using n by (simp add: unat_sub word_le_nat_alt word_less_nat_alt)
  let ?s = "(monitor Release s)\<lparr>rp := (wake (snd (release (hc s))) (rp s))(i := RDone)\<rparr>"
  have "holders ?s = holders s - {i}" by (auto simp: holders_def)
  moreover have "card (holders s - {i}) = card (holders s) - 1" using i fin by simp
  moreover have "caps ok M (hc s\<lparr>cnt := cnt (hc s) - 1\<rparr>)"
    using assms(1) u n by (auto simp: counted_def caps_def)
  ultimately show ?thesis
    using pos u fin by (simp add: counted_def release_def Let_def)
qed

lemma counted_step:
  assumes "hstep ok s s'" and ok: "counted ok M s"
  shows "counted ok M s'"
  using assms(1)
proof (cases rule: hstep.cases)
  case (enter_precise i r c)
  with ok show ?thesis by (auto intro!: counted_attempt counted_refresh)
next
  case (close_stream i)
  with ok show ?thesis using counted_close by blast
next
  case (poll r)
  have "counted ok M (monitor (Refresh r) s)" using ok poll by (intro counted_refresh)
  with poll show ?thesis by (simp add: counted_def holders_def)
next
  case (close_client c res)
  with ok Close_frame [OF close_client(2)] show ?thesis
    by (simp add: counted_def caps_def holders_def)
qed (use ok in \<open>auto simp: counted_attempt\<close>, use ok in \<open>auto simp: counted_def holders_def\<close>)

lemma counted_reach:
  assumes "hreach ok c0 s"
    and "\<And>pool r. report_in ok r \<Longrightarrow> caps ok M (init_client pool r c0)" and "cnt c0 = 0"
  shows "counted ok M s"
  using assms(1)
proof (induction rule: hreach.induct)
  case (init c pool report)
  have "cnt c = 0" using init assms(3)
    by (simp add: init_client_def Let_def refresh_frame)
  with init assms(2) show ?case by (simp add: counted_def hinit_def holders_def)
next
  case (step s s')
  then show ?case using counted_step by blast
qed

lemma init_caps:
  assumes "0 < MaxConcurrentStreams comms" and "\<And>n. ok n \<Longrightarrow> 0 < n" and "report_in ok r"
  shows "caps ok (unat (MaxConcurrentStreams comms)) (init_client pool r (streamer_client p comms))"
proof -
  let ?M = "unat (MaxConcurrentStreams comms)"
  have M: "0 < ?M" "?M < 2 ^ 32"
    using assms(1) unsigned_less [of "MaxConcurrentStreams comms", where 'a = nat]
    by (simp_all add: word_less_nat_alt)
  let ?c = "\<lambda>b. (streamer_client p comms)\<lparr>effCap := 1, connPool := b\<rparr>"
  have c: "caps ok ?M (?c b)" for b
    using assms M by (simp add: caps_def streamer_client_def Let_def NewHTTPClient_def)
  have "caps ok ?M (fst (refreshCapLocked r (?c b)))" for b
    using caps_refresh [OF c assms(3)] .
  with c [of False] show ?thesis
    by (auto simp: init_client_def Let_def caps_def streamer_client_def NewHTTPClient_def)
qed

lemma init_caps_closed:
  assumes "\<not> AllowHTTP2Incursion p"
  shows "caps ok 1 (init_client pool r (streamer_client p comms))"
  using assms
  by (simp add: init_client_def Let_def caps_def streamer_client_def NewHTTPClient_def)

lemma streamer_client_cnt: "cnt (streamer_client p comms) = 0"
  by (simp add: streamer_client_def Let_def NewHTTPClient_def)

section \<open>The poller\<close>

lemma attempt_frame:
  "pl (attempt c i s) = pl s" "effCap (hc (attempt c i s)) = effCap (hc s)"
  "precise (hc (attempt c i s)) = precise (hc s)"
  by (auto simp: attempt_def try_reserve_def split: reserve_result.splits option.splits if_splits)

lemma release_frame:
  "effCap (fst (release c)) = effCap c" "precise (fst (release c)) = precise c"
  by (simp_all add: release_def Let_def)

lemma no_poll_step:
  assumes "hstep ok s s'" and "pl s \<noteq> PollWait" and "\<not> precise (hc s)"
  shows "pl s' = pl s \<and> effCap (hc s') = effCap (hc s) \<and> \<not> precise (hc s')"
  using assms(1)
proof (cases rule: hstep.cases)
  case (close_client c res)
  with assms Close_frame [OF close_client(2)] show ?thesis by simp
qed (use assms in \<open>auto simp: attempt_frame release_frame\<close>)

section \<open>Requests that never wait\<close>

lemma unlimited_run:
  assumes "AllowHTTP2Incursion p" and "\<not> UsePreciseHTTP2Metrics p"
    and "0 < HTTP2MetricsRefreshPeriod p"
  shows "\<exists>s. hreach (\<lambda>_. True) (streamer_client p comms) s \<and> effCap (hc s) = 0 \<and>
           \<not> precise (hc s) \<and> holders s = {..<n} \<and> (\<forall>i\<ge>n. rp s i = RIdle) \<and> (\<forall>i. cerr s i = None)"
proof (induction n)
  case 0
  let ?c = "init_client (Inr ()) (Inr 0) (streamer_client p comms)"
  have "hreach (\<lambda>_. True) (streamer_client p comms) (hinit ?c)"
    by (rule hreach.init [OF refl]) simp
  moreover have "effCap ?c = 0" "\<not> precise ?c"
    using assms
    by (simp_all add: init_client_def Let_def streamer_client_def NewHTTPClient_def refreshCapLocked_def)
  ultimately show ?case by (auto simp: hinit_def holders_def intro!: exI [of _ "hinit ?c"])
next
  case (Suc n)
  then obtain s where s: "hreach (\<lambda>_. True) (streamer_client p comms) s" "effCap (hc s) = 0"
    "\<not> precise (hc s)" "holders s = {..<n}" "\<forall>i\<ge>n. rp s i = RIdle" "\<forall>i. cerr s i = None"
    by blast
  let ?s = "attempt False n s"
  have eq: "?s = s\<lparr>hc := (hc s)\<lparr>cnt := cnt (hc s) + 1\<rparr>, rp := (rp s)(n := RHold)\<rparr>"
    using s by (simp add: attempt_def try_reserve_def blocked_def)
  have "hreach (\<lambda>_. True) (streamer_client p comms) ?s"
    using s by (intro hreach.step [OF s(1)] hstep.enter) simp_all
  moreover have "holders ?s = insert n (holders s)" by (auto simp: eq holders_def)
  ultimately show ?case
    using s by (intro exI [of _ ?s]) (auto simp: eq lessThan_Suc)
qed

section \<open>Two requests for one stream\<close>

definition small_client :: httpc where
  "small_client = init_client (Inr ()) (Inr 1) (streamer_client MinBlockingProcConfig CommsFast)"

definition two_requests :: hsys where
  "two_requests = attempt True 1 (attempt False 0 (hinit small_client))"

lemma small_client_eq:
  "small_client = \<lparr>precise = False, pollInt = 500000000, cfgCap = 500, connPool = True, actCap = 1,
     effCap = 1, cnt = 0, closed = False, h_tkr = True, h_ctl = ChanOpen\<rparr>"
  by (simp add: small_client_def init_client_def Let_def streamer_client_def NewHTTPClient_def
      refreshCapLocked_def MinBlockingProcConfig_def CommsFast_def)

lemma first_request:
  "attempt False 0 (hinit small_client) =
     (hinit small_client)\<lparr>hc := small_client\<lparr>cnt := 1\<rparr>, rp := (\<lambda>_. RIdle)(0 := RHold)\<rparr>"
  by (simp add: attempt_def hinit_def try_reserve_def blocked_def small_client_eq)

lemma two_requests_reach:
  assumes "ok 1"
  shows "hreach ok (streamer_client MinBlockingProcConfig CommsFast) two_requests"
proof -
  have "hreach ok (streamer_client MinBlockingProcConfig CommsFast) (hinit small_client)"
    unfolding small_client_def using assms by (intro hreach.init [OF refl]) simp
  then have "hreach ok (streamer_client MinBlockingProcConfig CommsFast)
      (attempt False 0 (hinit small_client))"
    by (rule hreach.step [OF _ hstep.enter]) (simp_all add: hinit_def small_client_eq)
  then show ?thesis unfolding two_requests_def
    by (rule hreach.step [OF _ hstep.enter]; unfold first_request) (simp_all add: hinit_def small_client_eq)
qed

lemma two_requests_sleeper: "rp two_requests 1 = RSleep"
  unfolding two_requests_def first_request
  by (simp add: attempt_def hinit_def try_reserve_def blocked_def small_client_eq)

section \<open>Properties\<close>

text \<open>
  C5. No wake-up is lost: in every interleaving of requests, cancellations, refreshes, stream
  and client closings, a request that sleeps on the condition variable is one that
  \<open>ReservedStream\<close> would put back to sleep if it looked; if its context has been cancelled, the
  broadcast that wakes it is about to be made.
\<close>

theorem no_lost_wakeup:
  assumes "hreach ok (streamer_client p comms) s" and "rp s i = RSleep"
  shows "try_reserve (hc s) None = MustWait \<and> (cerr s i = None \<or> cn s i = CSet)"
  using asleep_reach [OF assms(1)] assms(2) by (simp add: asleep_ok_def try_reserve_def)

theorem no_lost_wakeup_witness:
  "try_reserve (hc two_requests) None = MustWait"
  using no_lost_wakeup [OF two_requests_reach two_requests_sleeper, of "\<lambda>_. True"] by simp

text \<open>
  C8. The streams in use are exactly counted and never more than \<open>MaxConcurrentStreams\<close>, as
  long as the connection does not report a capacity of zero; and when a request sleeps there is
  another that holds a stream, so its release will come.
\<close>

theorem streams_within_cap:
  assumes "0 < MaxConcurrentStreams comms"
    and "hreach (\<lambda>n. 0 < n) (streamer_client p comms) s"
  shows "card (holders s) \<le> unat (MaxConcurrentStreams comms) \<and>
         unat (cnt (hc s)) = card (holders s) \<and> (rp s i = RSleep \<longrightarrow> holders s \<noteq> {})"
proof -
  have c: "counted (\<lambda>n. 0 < n) (unat (MaxConcurrentStreams comms)) s"
    using assms(1) by (intro counted_reach [OF assms(2)] init_caps) (simp_all add: streamer_client_cnt)
  have "holders s \<noteq> {}" if "rp s i = RSleep"
  proof -
    have "blocked (hc s)" using asleep_reach [OF assms(2)] that by (simp add: asleep_ok_def)
    then have "0 < cnt (hc s)" by (auto simp: blocked_def)
    with c show ?thesis by (auto simp: counted_def word_less_nat_alt)
  qed
  with c show ?thesis by (simp add: counted_def caps_def)
qed

theorem streams_within_cap_witness:
  "card (holders two_requests) \<le> 500 \<and> holders two_requests \<noteq> {}"
  using streams_within_cap [OF _ two_requests_reach, of 1] two_requests_sleeper
  by (simp add: CommsFast_def)

text \<open>
  A reported capacity of zero (a connection that takes no new requests, or one whose
  settings say so) lifts the limit instead of closing the gate: the configured maximum
  notwithstanding, any number of requests then hold a stream at once.
\<close>

theorem zero_capacity_is_unlimited:
  assumes "AllowHTTP2Incursion p" and "\<not> UsePreciseHTTP2Metrics p"
    and "0 < HTTP2MetricsRefreshPeriod p"
  shows "\<exists>s. hreach (\<lambda>_. True) (streamer_client p comms) s \<and> card (holders s) = n"
  using unlimited_run [OF assms, of comms n] by (metis card_lessThan)

theorem zero_capacity_is_unlimited_witness:
  "\<exists>s. hreach (\<lambda>_. True) (streamer_client MinBlockingProcConfig CommsFast) s \<and>
       card (holders s) = 100000"
  by (rule zero_capacity_is_unlimited) (simp_all add: MinBlockingProcConfig_def)

text \<open>
  Without access to the HTTP/2 layer the client stays at its initial capacity: whatever
  \<open>MaxConcurrentStreams\<close> says, at most one request at a time holds a stream.
\<close>

theorem one_stream_without_incursion:
  assumes "\<not> AllowHTTP2Incursion p" and "hreach ok (streamer_client p comms) s"
  shows "card (holders s) \<le> 1"
proof -
  have "counted ok 1 s"
    using assms(1) by (intro counted_reach [OF assms(2)] init_caps_closed) (simp_all add: streamer_client_cnt)
  then show ?thesis by (simp add: counted_def caps_def)
qed

theorem one_stream_without_incursion_witness:
  "card (holders (hinit (init_client (Inr ()) (Inr 1)
     (streamer_client (MinBlockingProcConfig\<lparr>AllowHTTP2Incursion := False\<rparr>) CommsFast)))) \<le> 1"
  by (rule one_stream_without_incursion
        [of "MinBlockingProcConfig\<lparr>AllowHTTP2Incursion := False\<rparr>" "\<lambda>_. True" CommsFast])
     (auto intro: hreach.init)

text \<open>
  The capacity is refreshed once, not periodically: when the poller goroutine has taken its
  first tick, nothing that happens later changes the effective capacity.
\<close>

theorem poller_refreshes_once:
  assumes "rtranclp (hstep ok) s s'" and "pl s = PDone" and "\<not> precise (hc s)"
  shows "effCap (hc s') = effCap (hc s)"
proof -
  have "pl s' = PDone \<and> \<not> precise (hc s') \<and> effCap (hc s') = effCap (hc s)"
    using assms by (induction rule: rtranclp_induct) (auto dest: no_poll_step)
  then show ?thesis by simp
qed

theorem poller_refreshes_once_witness:
  "effCap (hc (attempt True 0 ((hinit small_client)\<lparr>pl := PDone\<rparr>)))
     = effCap (hc ((hinit small_client)\<lparr>pl := PDone\<rparr>))"
  by (rule poller_refreshes_once [of "\<lambda>_. True"], rule r_into_rtranclp, rule hstep.enter)
     (simp_all add: hinit_def small_client_eq)

end
