(* ===== verification/Auth.thy ===== *)
theory Auth
  imports Request
begin

text \<open>
  \<open>apns2/auth.go\<close>: the signer that keeps a provider token and renews it when it has expired.
  \<open>GetToken\<close> looks at the token before and after it takes the mutex; the two parts are
  functions, and concurrent callers interleave in a step relation. Every caller has its own
  reading \<open>now\<close> of the clock, taken once at its start, and the readings need not be ordered.
  \<open>sign\<close> is \<open>SignedString\<close> of the token library, and a signing method is its name.
\<close>

section \<open>The signer\<close>

definition DefaultTokenLifeSpan :: duration where
  "DefaultTokenLifeSpan = 50 * 60 * nano"

definition DefaultJWTSigningMethod :: string where
  "DefaultJWTSigningMethod = ''ES256''"

record jwt_token =
  alg :: string
  kid :: string
  iss :: string
  iat :: int
  Method :: string

record JWT =
  IssuedAt :: gotime
  ExpiresAt :: gotime
  JwtToken :: jwt_token
  AsHeader :: string

record 'k JWTSigner =
  KeyID :: string
  TeamID :: string
  SigningKey :: 'k
  SigningMethod :: "string option"
  TokenLifeSpan :: duration
  currentToken :: "JWT option"
  signingMethod :: "string option"
  tokenLifeSpan :: duration

text \<open>The test that is made without and with the mutex.\<close>

definition valid_token :: "'k JWTSigner \<Rightarrow> gotime \<Rightarrow> JWT option" where
  "valid_token s now =
     (case currentToken s of
        Some t \<Rightarrow> if ExpiresAt t > now then Some t else None
      | None \<Rightarrow> None)"

definition settle_config :: "duration \<Rightarrow> string \<Rightarrow> 'k JWTSigner \<Rightarrow> 'k JWTSigner" where
  "settle_config dflt_life dflt_method s =
     (let s1 = (if signingMethod s = None
                then s\<lparr>signingMethod := (case SigningMethod s of None \<Rightarrow> Some dflt_method | Some m \<Rightarrow> Some m)\<rparr>
                else s)
      in if tokenLifeSpan s1 = 0
         then s1\<lparr>tokenLifeSpan := (if TokenLifeSpan s1 > 0 then TokenLifeSpan s1 else dflt_life)\<rparr>
         else s1)"

definition GetToken_locked ::
  "(jwt_token \<Rightarrow> 'k \<Rightarrow> goerr + string) \<Rightarrow> duration \<Rightarrow> string \<Rightarrow> gotime \<Rightarrow> 'k JWTSigner \<Rightarrow>
   (goerr + JWT) \<times> 'k JWTSigner" where
  "GetToken_locked sign dflt_life dflt_method now s =
     (case valid_token s now of
        Some t \<Rightarrow> (Inr t, s)
      | None \<Rightarrow>
          let s1 = settle_config dflt_life dflt_method s;
              m = the (signingMethod s1);
              t = \<lparr>alg = m, kid = KeyID s1, iss = TeamID s1, iat = Time_Unix now, Method = m\<rparr>
          in case sign t (SigningKey s1) of
               Inl e \<Rightarrow> (Inl e, s1)
             | Inr ss \<Rightarrow>
                 let tkn = \<lparr>IssuedAt = now, ExpiresAt = now + tokenLifeSpan s1, JwtToken = t,
                            AsHeader = ''bearer '' @ ss\<rparr>
                 in (Inr tkn, s1\<lparr>currentToken := Some tkn\<rparr>))"

definition GetToken ::
  "(jwt_token \<Rightarrow> 'k \<Rightarrow> goerr + string) \<Rightarrow> duration \<Rightarrow> string \<Rightarrow> gotime \<Rightarrow> 'k JWTSigner \<Rightarrow>
   (goerr + JWT) \<times> 'k JWTSigner" where
  "GetToken sign dflt_life dflt_method now s =
     (case valid_token s now of
        Some t \<Rightarrow> (Inr t, s)
      | None \<Rightarrow> GetToken_locked sign dflt_life dflt_method now s)"

definition SignRequest ::
  "(jwt_token \<Rightarrow> 'k \<Rightarrow> goerr + string) \<Rightarrow> duration \<Rightarrow> string \<Rightarrow> gotime \<Rightarrow> 'k JWTSigner \<Rightarrow> http_request \<Rightarrow>
   goerr option \<times> http_request \<times> 'k JWTSigner" where
  "SignRequest sign dflt_life dflt_method now s r =
     (case GetToken sign dflt_life dflt_method now s of
        (Inl e, s') \<Rightarrow> (Some e, r, s')
      | (Inr t, s') \<Rightarrow> (None, r\<lparr>rHeader := Header_Set ''Authorization'' (AsHeader t) (rHeader r)\<rparr>, s'))"

definition noSigner_SignRequest :: "http_request \<Rightarrow> goerr option \<times> http_request" where
  "noSigner_SignRequest r = (None, r)"

section \<open>Concurrent callers\<close>

text \<open>
  A caller is idle, waits for the mutex with its reading of the clock, or has returned. \<open>minted\<close>
  is the list of the tokens signed so far.
\<close>

datatype apc = AIdle | AWant gotime | AGot gotime JWT | AErr goerr

record 'k asys =
  sgnr :: "'k JWTSigner"
  apcs :: "nat \<Rightarrow> apc"
  minted :: "JWT list"

fun returned :: "gotime \<Rightarrow> goerr + JWT \<Rightarrow> apc" where
  "returned now (Inl e) = AErr e"
| "returned now (Inr t) = AGot now t"

inductive astep ::
  "(jwt_token \<Rightarrow> 'k \<Rightarrow> goerr + string) \<Rightarrow> duration \<Rightarrow> string \<Rightarrow> 'k asys \<Rightarrow> 'k asys \<Rightarrow> bool"
  for sign dl dm where
  hit: "apcs s i = AIdle \<Longrightarrow> valid_token (sgnr s) now = Some t \<Longrightarrow>
     astep sign dl dm s (s\<lparr>apcs := (apcs s)(i := AGot now t)\<rparr>)"
| miss: "apcs s i = AIdle \<Longrightarrow> valid_token (sgnr s) now = None \<Longrightarrow>
     astep sign dl dm s (s\<lparr>apcs := (apcs s)(i := AWant now)\<rparr>)"
| locked: "apcs s i = AWant now \<Longrightarrow> GetToken_locked sign dl dm now (sgnr s) = (r, s1) \<Longrightarrow>
     astep sign dl dm s
       (s\<lparr>sgnr := s1, apcs := (apcs s)(i := returned now r),
          minted := (if valid_token (sgnr s) now = None
                     then (case r of Inr t \<Rightarrow> minted s @ [t] | Inl _ \<Rightarrow> minted s)
                     else minted s)\<rparr>)"

text \<open>A signer as the user configures it, before its first use.\<close>

definition new_signer :: "string \<Rightarrow> string \<Rightarrow> 'k \<Rightarrow> string option \<Rightarrow> duration \<Rightarrow> 'k JWTSigner" where
  "new_signer key_id team_id key m life =
     \<lparr>KeyID = key_id, TeamID = team_id, SigningKey = key, SigningMethod = m, TokenLifeSpan = life,
      currentToken = None, signingMethod = None, tokenLifeSpan = 0\<rparr>"

inductive areach ::
  "(jwt_token \<Rightarrow> 'k \<Rightarrow> goerr + string) \<Rightarrow> duration \<Rightarrow> string \<Rightarrow> 'k JWTSigner \<Rightarrow> 'k asys \<Rightarrow> bool"
  for sign dl dm s0 where
  init: "areach sign dl dm s0 \<lparr>sgnr = s0, apcs = (\<lambda>_. AIdle), minted = []\<rparr>"
| step: "areach sign dl dm s0 s \<Longrightarrow> astep sign dl dm s s' \<Longrightarrow> areach sign dl dm s0 s'"

text \<open>The time a token lives, and what holds of the signer and of the tokens it has signed.\<close>

definition life :: "duration \<Rightarrow> 'k JWTSigner \<Rightarrow> duration" where
  "life dl s = (if TokenLifeSpan s > 0 then TokenLifeSpan s else dl)"

definition spaced :: "duration \<Rightarrow> JWT list \<Rightarrow> bool" where
  "spaced L ts \<longleftrightarrow> (\<forall>i j. i < j \<and> j < length ts \<longrightarrow> IssuedAt (ts ! i) + L \<le> IssuedAt (ts ! j)) \<and>
     (\<forall>t \<in> set ts. ExpiresAt t = IssuedAt t + L)"

definition ainv :: "duration \<Rightarrow> duration \<Rightarrow> 'k asys \<Rightarrow> bool" where
  "ainv dl L s \<longleftrightarrow>
     life dl (sgnr s) = L \<and> (tokenLifeSpan (sgnr s) = 0 \<or> tokenLifeSpan (sgnr s) = L) \<and>
     currentToken (sgnr s) = (if minted s = [] then None else Some (last (minted s))) \<and>
     spaced L (minted s) \<and>
     (\<forall>i now t. apcs s i = AGot now t \<longrightarrow> now < ExpiresAt t \<and> t \<in> set (minted s))"

lemma settle_life:
  assumes "tokenLifeSpan s = 0 \<or> tokenLifeSpan s = life dl s"
  shows "tokenLifeSpan (settle_config dl dm s) = life dl s"
    "TokenLifeSpan (settle_config dl dm s) = TokenLifeSpan s"
    "currentToken (settle_config dl dm s) = currentToken s"
  using assms by (auto simp: settle_config_def life_def Let_def)

lemma spaced_snoc:
  assumes "spaced L ts" and "ts \<noteq> [] \<Longrightarrow> ExpiresAt (last ts) \<le> IssuedAt t" and "0 < L"
    and "ExpiresAt t = IssuedAt t + L"
  shows "spaced L (ts @ [t])"
proof -
  have "IssuedAt (ts ! i) + L \<le> IssuedAt t" if i: "i < length ts" for i
  proof -
    have e: "ExpiresAt (ts ! i) = IssuedAt (ts ! i) + L" using assms(1) i by (simp add: spaced_def)
    have "ts \<noteq> []" using i by auto
    then have l: "last ts = ts ! (length ts - 1)" "ts \<noteq> []" by (simp_all add: last_conv_nth)
    show ?thesis
    proof (cases "i = length ts - 1")
      case True
      with assms(2) l e show ?thesis by simp
    next
      case False
      then have "i < length ts - 1" "length ts - 1 < length ts" using i by auto
      then have "IssuedAt (ts ! i) + L \<le> IssuedAt (last ts)" using assms(1) l by (simp add: spaced_def)
      moreover have "IssuedAt (last ts) + L \<le> IssuedAt t"
        using assms(1,2) l by (simp add: spaced_def)
      ultimately show ?thesis using assms(3) by linarith
    qed
  qed
  with assms(1,4) show ?thesis by (auto simp: spaced_def nth_append less_Suc_eq)
qed

lemma valid_token_Some:
  "valid_token s now = Some t \<longleftrightarrow> currentToken s = Some t \<and> now < ExpiresAt t"
  by (auto simp: valid_token_def split: option.splits)

lemma valid_token_None:
  "valid_token s now = None \<longleftrightarrow> (\<forall>t. currentToken s = Some t \<longrightarrow> ExpiresAt t \<le> now)"
  by (auto simp: valid_token_def not_less split: option.splits)

text \<open>What the locked part does when the token has expired.\<close>

lemma GetToken_locked_miss:
  assumes "valid_token s now = None" and "GetToken_locked sign dl dm now s = (r, s1)"
    and "tokenLifeSpan s = 0 \<or> tokenLifeSpan s = life dl s"
  shows "life dl s1 = life dl s" "tokenLifeSpan s1 = life dl s"
    "case r of Inl e \<Rightarrow> currentToken s1 = currentToken s
     | Inr t \<Rightarrow> currentToken s1 = Some t \<and> IssuedAt t = now \<and> ExpiresAt t = now + life dl s"
  using assms settle_life [OF assms(3), of dm]
  by (auto simp: GetToken_locked_def Let_def life_def split: sum.splits)

lemma GetToken_locked_hit:
  "valid_token s now = Some t \<Longrightarrow> GetToken_locked sign dl dm now s = (Inr t, s)"
  by (simp add: GetToken_locked_def)

lemma ainv_token:
  assumes "ainv dl L s" and "valid_token (sgnr s) now = Some t"
  shows "now < ExpiresAt t" "t \<in> set (minted s)"
  using assms by (auto simp: valid_token_Some ainv_def split: if_splits)

lemma ainv_step:
  assumes "astep sign dl dm s s'" and inv: "ainv dl L s" and "0 < L"
  shows "ainv dl L s'"
  using assms(1)
proof (cases rule: astep.cases)
  case (hit i now t)
  with inv ainv_token [OF inv hit(3)] show ?thesis by (auto simp: ainv_def)
next
  case (miss i now)
  with inv show ?thesis by (auto simp: ainv_def)
next
  case (locked i now r s1)
  have lf: "tokenLifeSpan (sgnr s) = 0 \<or> tokenLifeSpan (sgnr s) = life dl (sgnr s)" "life dl (sgnr s) = L"
    using inv by (auto simp: ainv_def)
  show ?thesis
  proof (cases "valid_token (sgnr s) now")
    case (Some t)
    with locked have "r = Inr t" "s1 = sgnr s" by (simp_all add: GetToken_locked_hit)
    with locked(1) Some inv ainv_token [OF inv Some] show ?thesis by (auto simp: ainv_def)
  next
    case None
    note l = GetToken_locked_miss [OF None locked(3) lf(1)]
    show ?thesis
    proof (cases r)
      case (Inl e)
      with None locked(1) l lf inv show ?thesis by (auto simp: ainv_def)
    next
      case (Inr t)
      have "ExpiresAt (last (minted s)) \<le> now" if "minted s \<noteq> []"
        using None inv that by (auto simp: valid_token_None ainv_def)
      then have "spaced L (minted s @ [t])"
        using l(3) Inr lf inv assms(3) by (intro spaced_snoc) (auto simp: ainv_def)
      moreover have "s' = s\<lparr>sgnr := s1, apcs := (apcs s)(i := AGot now t), minted := minted s @ [t]\<rparr>"
        using locked(1) Inr None by simp
      moreover have "life dl s1 = L" "tokenLifeSpan s1 = L" "currentToken s1 = Some t"
        "ExpiresAt t = now + L"
        using l Inr lf(2) by simp_all
      ultimately show ?thesis using inv assms(3) by (simp add: ainv_def)
    qed
  qed
qed

lemma ainv_reach:
  assumes "areach sign dl dm (new_signer a b key m l) s" and "0 < dl"
  shows "ainv dl (if l > 0 then l else dl) s"
  using assms(1)
proof (induction rule: areach.induct)
  case init
  show ?case by (simp add: ainv_def new_signer_def life_def spaced_def)
next
  case (step s s')
  have "0 < (if l > 0 then l else dl)" using assms(2) by simp
  from ainv_step [OF step(2) step(3) this] show ?case .
qed

section \<open>Two callers\<close>

text \<open>A run: two callers miss, one signs, the other finds the token; later a third signs again.\<close>

abbreviation plain_sign :: "jwt_token \<Rightarrow> nat \<Rightarrow> goerr + string" where
  "plain_sign \<equiv> (\<lambda>t k. Inr (iss t))"

definition user_signer :: "nat JWTSigner" where
  "user_signer = new_signer ''KEY'' ''TEAM'' 7 None 0"

definition minted_at :: "gotime \<Rightarrow> JWT" where
  "minted_at now = (case GetToken plain_sign 100 ''ES256'' now user_signer of (Inr t, _) \<Rightarrow> t)"

lemma minted_at_eq:
  "minted_at now = \<lparr>IssuedAt = now, ExpiresAt = now + 100,
     JwtToken = \<lparr>alg = ''ES256'', kid = ''KEY'', iss = ''TEAM'', iat = Time_Unix now, Method = ''ES256''\<rparr>,
     AsHeader = ''bearer TEAM''\<rparr>"
  by (simp add: minted_at_def GetToken_def GetToken_locked_def valid_token_def user_signer_def
      new_signer_def settle_config_def Let_def)

definition signed :: "gotime \<Rightarrow> nat JWTSigner" where
  "signed now = user_signer\<lparr>currentToken := Some (minted_at now), signingMethod := Some ''ES256'',
     tokenLifeSpan := 100\<rparr>"

lemma first_signing:
  "GetToken_locked plain_sign 100 ''ES256'' now user_signer = (Inr (minted_at now), signed now)"
  by (simp add: minted_at_eq GetToken_locked_def valid_token_def user_signer_def new_signer_def
      settle_config_def signed_def Let_def)

lemma next_signing:
  "t + 100 \<le> now \<Longrightarrow>
   GetToken_locked plain_sign 100 ''ES256'' now (signed t) = (Inr (minted_at now), signed now)"
  by (simp add: minted_at_eq GetToken_locked_def valid_token_def user_signer_def new_signer_def
      settle_config_def signed_def Let_def)

lemma reach_miss:
  "areach sign dl dm s0 s \<Longrightarrow> apcs s i = AIdle \<Longrightarrow> valid_token (sgnr s) now = None \<Longrightarrow>
   areach sign dl dm s0 (s\<lparr>apcs := (apcs s)(i := AWant now)\<rparr>)"
  by (rule areach.step [OF _ astep.miss])

lemma reach_signed:
  assumes "areach sign dl dm s0 s" and "apcs s i = AWant now" and "valid_token (sgnr s) now = None"
    and "GetToken_locked sign dl dm now (sgnr s) = (Inr t, s1)"
  shows "areach sign dl dm s0
    (s\<lparr>sgnr := s1, apcs := (apcs s)(i := AGot now t), minted := minted s @ [t]\<rparr>)"
  using areach.step [OF assms(1) astep.locked [OF assms(2,4)]] assms(3) by simp

lemma two_signings:
  "\<exists>s. areach plain_sign 100 ''ES256'' user_signer s \<and> minted s = [minted_at 5, minted_at 200] \<and>
       apcs s 0 = AGot 5 (minted_at 5)"
proof -
  let ?r = "areach plain_sign 100 ''ES256'' user_signer"
  let ?s0 = "\<lparr>sgnr = user_signer, apcs = (\<lambda>_. AIdle), minted = []\<rparr>"
  define s1 where "s1 = ?s0\<lparr>apcs := (apcs ?s0)(0 := AWant 5)\<rparr>"
  define s2 where "s2 = s1\<lparr>sgnr := signed 5, apcs := (apcs s1)(0 := AGot 5 (minted_at 5)),
    minted := minted s1 @ [minted_at 5]\<rparr>"
  define s3 where "s3 = s2\<lparr>apcs := (apcs s2)(1 := AWant 200)\<rparr>"
  define s4 where "s4 = s3\<lparr>sgnr := signed 200, apcs := (apcs s3)(1 := AGot 200 (minted_at 200)),
    minted := minted s3 @ [minted_at 200]\<rparr>"
  have v0: "valid_token user_signer now = None" for now
    by (simp add: valid_token_def user_signer_def new_signer_def)
  have v1: "valid_token (signed 5) 200 = None"
    by (simp add: valid_token_def signed_def minted_at_eq)
  have "?r s1" unfolding s1_def by (rule reach_miss [OF areach.init]) (simp_all add: v0)
  then have "?r s2" unfolding s2_def
    by (rule reach_signed) (simp_all add: s1_def v0 first_signing)
  then have "?r s3" unfolding s3_def
    by (rule reach_miss) (simp_all add: s2_def s1_def v1)
  then have "?r s4" unfolding s4_def
    by (rule reach_signed) (simp_all add: s3_def s2_def s1_def v1 next_signing)
  then show ?thesis by (intro exI [of _ s4]) (simp add: s4_def s3_def s2_def s1_def)
qed

section \<open>Properties\<close>

text \<open>
  C15. A token is valid for the call it is returned to: however callers interleave, and even
  when their readings of the clock are not ordered, \<open>GetToken\<close> returns a token that expires
  after the caller's reading and that was signed by this signer.
\<close>

theorem returned_token_valid:
  assumes "areach sign dl dm (new_signer a b key m l) s" and "0 < dl" and "apcs s i = AGot now t"
  shows "now < ExpiresAt t \<and> t \<in> set (minted s)"
  using ainv_reach [OF assms(1,2)] assms(3) by (simp add: ainv_def)

theorem returned_token_valid_witness:
  "5 < ExpiresAt (minted_at 5)"
proof -
  obtain s where "areach plain_sign 100 ''ES256'' user_signer s" "apcs s 0 = AGot 5 (minted_at 5)"
    using two_signings by blast
  from returned_token_valid [OF this(1) [unfolded user_signer_def] _ this(2)] show ?thesis by simp
qed

text \<open>
  C14. Tokens are not signed more often than they expire: however many callers there are, any two
  tokens that were signed are issued at least one life span apart, and each lives for exactly
  that time.
\<close>

theorem tokens_spaced:
  assumes "areach sign dl dm (new_signer a b key m l) s" and "0 < dl"
    and "i < j" and "j < length (minted s)"
  shows "IssuedAt (minted s ! i) + (if l > 0 then l else dl) \<le> IssuedAt (minted s ! j) \<and>
         ExpiresAt (minted s ! i) = IssuedAt (minted s ! i) + (if l > 0 then l else dl)"
  using ainv_reach [OF assms(1,2)] assms(3,4) by (simp add: ainv_def spaced_def)

theorem tokens_spaced_witness:
  "IssuedAt (minted_at 5) + 100 \<le> IssuedAt (minted_at 200)"
proof -
  obtain s where s: "areach plain_sign 100 ''ES256'' user_signer s"
    "minted s = [minted_at 5, minted_at 200]"
    using two_signings by blast
  from tokens_spaced [OF s(1) [unfolded user_signer_def], of 0 1] s(2) show ?thesis by simp
qed

end
