(* ===== verification/Streamer.thy ===== *)
theory Streamer
  imports Dispatch Request Auth
begin

text \<open>
  \<open>apns2/streamer.go\<close>: what a streamer decides about a request (\<open>exec\<close>, \<open>submit\<close>, \<open>isRetriable\<close>,
  \<open>isConnUsable\<close>, \<open>callBack\<close>), as functions; and the streamer's loop with the goroutines of its
  round trips, as a step relation. The HTTP client, the JSON library and the users' signers are
  the record \<open>env\<close> of functions.
\<close>

section \<open>Requests to the service\<close>

definition RequestRoot :: string where
  "RequestRoot = ''/3/device/''"

record http_response =
  hStatusCode :: int
  hApnsID :: string
  hBody :: string

text \<open>
  Decoding a body into a response: it may succeed (and, for a JSON \<open>null\<close>, leave a nil pointer),
  find nothing to decode (\<open>io.EOF\<close>), or fail.
\<close>

datatype decoded = DecOk "Response option" | DecEOF | DecErr goerr

record 'j env =
  NewRequest :: "string \<Rightarrow> goerr + http_request"
  Marshal :: "'j \<Rightarrow> goerr + string"
  SignWith :: "nat \<Rightarrow> http_request \<Rightarrow> goerr option \<times> http_request"
  Do :: "http_request \<Rightarrow> goerr + http_response"
  Decode :: "string \<Rightarrow> Response \<Rightarrow> decoded"

definition estimatedHeaderWireSize :: "http_header \<Rightarrow> int" where
  "estimatedHeaderWireSize hs =
     (\<Sum>(h, vs) \<leftarrow> hs. int (length h) + 4 + (case vs of [] \<Rightarrow> 0 | v # _ \<Rightarrow> int (length v)))"

definition estimatedRequestWireSize :: "http_request \<Rightarrow> int" where
  "estimatedRequestWireSize r =
     int (length (rHost r)) + int (length (rRawPath r)) + rContentLength r + 14
       + estimatedHeaderWireSize (rHeader r)"

definition sign_request :: "'j env \<Rightarrow> signer \<Rightarrow> http_request \<Rightarrow> goerr option \<times> http_request" where
  "sign_request e sg r =
     (case sg of
        DefaultSigner \<Rightarrow> (None, r)
      | NoSigner \<Rightarrow> noSigner_SignRequest r
      | UserSigner k \<Rightarrow> SignWith e k r)"

text \<open>
  The result of \<open>submit\<close>, the request (whose header may now have its cache) and the counter of
  sizes. \<open>None\<close> is the panic of a notification without a header.
\<close>

definition submit ::
  "'j env \<Rightarrow> string \<Rightarrow> signer \<Rightarrow> 'j Request \<Rightarrow> u64 \<Rightarrow>
   ((Response option \<times> goerr option) \<times> 'j Request \<times> u64) option" where
  "submit e gateway csigner req sz =
     (case NewRequest e (gateway @ RequestRoot @ Recipient (reqNotification req)) of
        Inl err \<Rightarrow> Some ((None, Some (RequestError err)), req, sz)
      | Inr r0 \<Rightarrow>
         (case Notification_write (Marshal e) (reqNotification req) r0 of
            None \<Rightarrow> None
          | Some (r1, n', werr) \<Rightarrow>
              let req' = req\<lparr>reqNotification := n'\<rparr>
              in case werr of
                   Some err \<Rightarrow> Some ((None, Some (RequestError err)), req', sz)
                 | None \<Rightarrow>
                    (case sign_request e (effective_signer csigner req) r1 of
                       (Some err, _) \<Rightarrow> Some ((None, Some (RequestError err)), req', sz)
                     | (None, r2) \<Rightarrow>
                        (case Do e r2 of
                           Inl err \<Rightarrow> Some ((None, Some err), req', sz)
                         | Inr hr \<Rightarrow>
                             let sz1 = Counter_Add sz (word_of_int (estimatedRequestWireSize r2));
                                 res = zero_Response\<lparr>StatusCode := hStatusCode hr, ApnsID := hApnsID hr\<rparr>
                             in case Decode e (hBody hr) res of
                                  DecErr err \<Rightarrow> Some ((Some zero_Response, Some (RequestError err)), req', sz1)
                                | DecEOF \<Rightarrow> Some ((Some res, None), req', sz1)
                                | DecOk r \<Rightarrow> Some ((r, None), req', sz1)))))"

section \<open>Decisions\<close>

text \<open>
  \<open>exec\<close> up to the start of the round trip: \<open>ctx_done\<close> is whether the request's context is done,
  \<open>reserve\<close> the error of \<open>ReservedStream\<close>, if any.
\<close>

datatype exec_result = ExecReport goerr | ExecRoundTrip

definition exec :: "bool \<Rightarrow> signer \<Rightarrow> bool \<Rightarrow> goerr option \<Rightarrow> 'j Request \<Rightarrow> exec_result" where
  "exec has_cert csigner ctx_done reserve req =
     (if exec_missing_auth has_cert csigner req then ExecReport ErrMissingAuth
      else if reqContext req \<noteq> NoContext \<and> ctx_done then ExecReport ErrCanceled
      else case reserve of Some err \<Rightarrow> ExecReport err | None \<Rightarrow> ExecRoundTrip)"

definition isRetriable :: "ProcCfg \<Rightarrow> Response option \<Rightarrow> goerr option \<Rightarrow> bool" where
  "isRetriable c resp err =
     (if resp = None \<and> err \<noteq> None then False
      else case RetryEval c of Some f \<Rightarrow> f resp err | None \<Rightarrow> False)"

definition isConnUsable :: "Response option \<Rightarrow> goerr option \<Rightarrow> bool" where
  "isConnUsable resp err =
     (case (resp, err) of
        (None, Some e) \<Rightarrow> (case e of RequestError _ \<Rightarrow> True | _ \<Rightarrow> False)
      | (Some r, _) \<Rightarrow>
          (if StatusCode r = 503 \<or> StatusCode r = 405 then True
           else if StatusCode r = 400 then RejectionReason r \<noteq> ReasonIdleTimeout
           else if StatusCode r = 403
             then RejectionReason r \<noteq> ReasonBadCertificate \<and>
                  RejectionReason r \<noteq> ReasonBadCertificateEnvironment
           else True)
      | (None, None) \<Rightarrow> True)"

text \<open>
  The goroutine after \<open>submit\<close>: the request is handed to the retry forwarder with its count of
  attempts raised, or its result is reported and the streamer told to quit when the connection
  is not usable.
\<close>

datatype 'j trip_end = Retry "'j Request" | Finish bool

definition after_submit ::
  "ProcCfg \<Rightarrow> 'j Request \<Rightarrow> Response option \<Rightarrow> goerr option \<Rightarrow> 'j trip_end" where
  "after_submit c req resp err =
     (if err \<noteq> None \<and> (word_of_int (attemptCnt req) :: u32) < MaxRetries c \<and> isRetriable c resp err
      then Retry (req\<lparr>attemptCnt := attemptCnt req + 1\<rparr>)
      else Finish (\<not> isConnUsable resp err))"

text \<open>Where a result is sent: \<open>out\<close> is the client's callback channel.\<close>

definition callBack_target :: "callback \<Rightarrow> 'j Request \<Rightarrow> nat option" where
  "callBack_target out req =
     (if reqCallback req = NoCallback then None
      else case (if reqCallback req = DefaultCallback then out else reqCallback req) of
             UserChan ch \<Rightarrow> Some ch
           | _ \<Rightarrow> None)"

definition callBack_result :: "'j Request \<Rightarrow> Response option \<Rightarrow> goerr option \<Rightarrow> 'j Result" where
  "callBack_result req resp err =
     \<lparr>resNotification = reqNotification req, resSigner = reqSigner req, resContext = reqContext req,
      resResponse = resp, resErr = err\<rparr>"

section \<open>A request over its retries\<close>

text \<open>
  The attempts at one request, when attempt \<open>n\<close> has outcome \<open>outs n\<close>: the number of attempts made
  and the outcome that is reported.
\<close>

function serve ::
  "ProcCfg \<Rightarrow> (nat \<Rightarrow> Response option \<times> goerr option) \<Rightarrow> nat \<Rightarrow> 'j Request \<Rightarrow>
   nat \<times> Response option \<times> goerr option" where
  "serve c outs n req =
     (case after_submit c req (fst (outs n)) (snd (outs n)) of
        Retry req' \<Rightarrow> serve c outs (Suc n) req'
      | Finish _ \<Rightarrow> (Suc n, outs n))"
  by pat_completeness auto

lemma word_suc:
  assumes "(word_of_int k :: u32) < m"
  shows "unat (word_of_int (k + 1) :: u32) = Suc (unat (word_of_int k :: u32))"
proof -
  have "(word_of_int (k + 1) :: u32) = word_of_int k + 1" by simp
  moreover have "unat (word_of_int k :: u32) + 1 < 2 ^ 32"
    using assms unsigned_less [where 'a = nat and w = m] by (simp add: word_less_nat_alt)
  ultimately show ?thesis by (simp only: unat_word_ariths) simp
qed

lemma after_submit_Retry:
  assumes "after_submit c req resp err = Retry req'"
  shows "req' = req\<lparr>attemptCnt := attemptCnt req + 1\<rparr>" "err \<noteq> None" "isRetriable c resp err"
    "(word_of_int (attemptCnt req) :: u32) < MaxRetries c"
  using assms by (auto simp: after_submit_def split: if_splits)

termination serve
proof (relation "measure (\<lambda>(c, _, _, req). unat (MaxRetries c) - unat (word_of_int (attemptCnt req) :: u32))")
  fix c :: ProcCfg and outs :: "nat \<Rightarrow> Response option \<times> goerr option" and n and req req' :: "'a Request"
  assume "after_submit c req (fst (outs n)) (snd (outs n)) = Retry req'"
  note r = after_submit_Retry [OF this]
  show "((c, outs, Suc n, req'), c, outs, n, req)
     \<in> measure (\<lambda>(c, _, _, req). unat (MaxRetries c) - unat (word_of_int (attemptCnt req) :: u32))"
    using r(4) word_suc [OF r(4)] by (simp add: r(1) word_less_nat_alt)
qed simp

declare serve.simps [simp del]

section \<open>The streamer's goroutines\<close>

text \<open>
  The streamer's loop: at its \<open>select\<close>; inside \<open>exec\<close>, where it may be blocked; waiting for its
  round trips after the inbound channel was closed; waiting to report its end with \<open>didQuit\<close> and \<open>inClosed\<close>, ended (and whether the governor was
  told). A round trip: not started; in flight; blocked in \<open>callBack\<close> with a result, \<open>u\<close> if its
  connection is to be abandoned; about to send the quit token; ended, with its result delivered
  or not.
\<close>

datatype smain = SRun | SExec | SDrain | SReport bool bool | SEnd bool

datatype trip = TNone | TFlight | TSend bool | TQuit bool | TEnd bool

record ssys =
  main :: smain
  trips :: "nat \<Rightarrow> trip"
  sctl :: chan
  spanic :: bool

definition after_callBack :: "bool \<Rightarrow> bool \<Rightarrow> trip" where
  "after_callBack delivered unusable = (if unusable then TQuit delivered else TEnd delivered)"

fun unfinished :: "trip \<Rightarrow> bool" where
  "unfinished TFlight = True"
| "unfinished (TSend _) = True"
| "unfinished (TQuit _) = True"
| "unfinished _ = False"

text \<open>
  The sends and receives on \<open>ctl\<close> are rendezvous: a quit token passes only when somebody is
  receiving, which may be the loop (\<open>quit_loop\<close>), the loop's end (\<open>quit_report\<close>), a \<open>callBack\<close> that
  \<open>exec\<close> is blocked in (\<open>quit_exec\<close>) or one that another round trip is blocked in
  (\<open>quit_swallow\<close>); otherwise it is dropped. A closed \<open>ctl\<close> is
  received from by all of them, and sending on it panics.
\<close>

inductive sstep :: "ssys \<Rightarrow> ssys \<Rightarrow> bool" where
  take: "main s = SRun \<Longrightarrow> sstep s (s\<lparr>main := SExec\<rparr>)"
| launch: "main s = SExec \<Longrightarrow> trips s i = TNone \<Longrightarrow>
     sstep s (s\<lparr>main := SRun, trips := (trips s)(i := TFlight)\<rparr>)"
| exec_reported: "main s = SExec \<Longrightarrow> sstep s (s\<lparr>main := SRun\<rparr>)"
| in_closed: "main s = SRun \<Longrightarrow> sstep s (s\<lparr>main := SDrain\<rparr>)"
| drained: "main s = SDrain \<Longrightarrow> (\<And>i. \<not> unfinished (trips s i)) \<Longrightarrow>
     sstep s (s\<lparr>main := SReport False True\<rparr>)"
| reply: "trips s i = TFlight \<Longrightarrow>
     sstep s (s\<lparr>trips := (trips s)(i := after_callBack True u)\<rparr>)"
| reply_blocked: "trips s i = TFlight \<Longrightarrow> sstep s (s\<lparr>trips := (trips s)(i := TSend u)\<rparr>)"
| sent: "trips s i = TSend u \<Longrightarrow> sstep s (s\<lparr>trips := (trips s)(i := after_callBack True u)\<rparr>)"
| send_aborted: "trips s i = TSend u \<Longrightarrow> sctl s = ChanClosed \<Longrightarrow>
     sstep s (s\<lparr>trips := (trips s)(i := after_callBack False u)\<rparr>)"
| quit_loop: "trips s i = TQuit d \<Longrightarrow> sctl s = ChanOpen \<Longrightarrow> main s = SRun \<Longrightarrow>
     sstep s (s\<lparr>main := SReport True False, trips := (trips s)(i := TEnd d)\<rparr>)"
| quit_exec: "trips s i = TQuit d \<Longrightarrow> sctl s = ChanOpen \<Longrightarrow> main s = SExec \<Longrightarrow>
     sstep s (s\<lparr>main := SRun, trips := (trips s)(i := TEnd d)\<rparr>)"
| quit_report: "trips s i = TQuit d \<Longrightarrow> sctl s = ChanOpen \<Longrightarrow> main s = SReport q c \<Longrightarrow>
     sstep s (s\<lparr>main := SEnd False, trips := (trips s)(i := TEnd d)\<rparr>)"
| quit_swallow: "trips s i = TQuit d \<Longrightarrow> sctl s = ChanOpen \<Longrightarrow> trips s j = TSend u \<Longrightarrow> i \<noteq> j \<Longrightarrow>
     sstep s (s\<lparr>trips := ((trips s)(i := TEnd d))(j := after_callBack False u)\<rparr>)"
| quit_dropped: "trips s i = TQuit d \<Longrightarrow> sctl s = ChanOpen \<Longrightarrow>
     sstep s (s\<lparr>trips := (trips s)(i := TEnd d)\<rparr>)"
| quit_panics: "trips s i = TQuit d \<Longrightarrow> sctl s = ChanClosed \<Longrightarrow> sstep s (s\<lparr>spanic := True\<rparr>)"
| hard_stop: "close_chan (sctl s) = Some ch \<Longrightarrow> sstep s (s\<lparr>sctl := ch\<rparr>)"
| terminated: "main s = SRun \<Longrightarrow> sctl s = ChanClosed \<Longrightarrow> sstep s (s\<lparr>main := SReport False False\<rparr>)"
| reported: "main s = SReport q c \<Longrightarrow> sstep s (s\<lparr>main := SEnd True\<rparr>)"
| unreported: "main s = SReport q c \<Longrightarrow> sctl s = ChanClosed \<Longrightarrow> sstep s (s\<lparr>main := SEnd False\<rparr>)"

definition sinit :: ssys where
  "sinit = \<lparr>main = SRun, trips = (\<lambda>_. TNone), sctl = ChanOpen, spanic = False\<rparr>"

inductive sreach :: "ssys \<Rightarrow> bool" where
  init: "sreach sinit"
| step: "sreach s \<Longrightarrow> sstep s s' \<Longrightarrow> sreach s'"

section \<open>What the decisions imply\<close>

lemma serve_result:
  assumes "serve c outs n req = (m, out)"
  shows "n < m \<and> m \<le> n + 1 + (unat (MaxRetries c) - unat (word_of_int (attemptCnt req) :: u32)) \<and>
         out = outs (m - 1) \<and>
         (\<forall>k. n \<le> k \<and> k < m - 1 \<longrightarrow> snd (outs k) \<noteq> None \<and> isRetriable c (fst (outs k)) (snd (outs k)))"
  using assms
proof (induction c outs n req rule: serve.induct)
  case (1 c outs n req)
  show ?case
  proof (cases "after_submit c req (fst (outs n)) (snd (outs n))")
    case (Retry req')
    note r = after_submit_Retry [OF Retry]
    have "serve c outs (Suc n) req' = (m, out)"
      using "1.prems" Retry by (subst (asm) serve.simps) simp
    note ih = "1.IH" [OF Retry this]
    have "unat (word_of_int (attemptCnt req') :: u32) = Suc (unat (word_of_int (attemptCnt req) :: u32))"
      using word_suc [OF r(4)] by (simp add: r(1))
    moreover have "unat (word_of_int (attemptCnt req) :: u32) < unat (MaxRetries c)"
      using r(4) by (simp add: word_less_nat_alt)
    moreover have "snd (outs k) \<noteq> None \<and> isRetriable c (fst (outs k)) (snd (outs k))"
      if "n \<le> k" "k < m - 1" for k
      using ih r(2,3) that by (cases "k = n") auto
    ultimately show ?thesis using ih by auto
  next
    case (Finish b)
    then have "m = Suc n" "out = outs n" using "1.prems" by (simp_all add: serve.simps)
    then show ?thesis by auto
  qed
qed

lemma submit_cases:
  assumes "submit e gw cs req sz = Some ((resp, err), req', sz')"
  obtains (request_error) x where "resp = None" "err = Some (RequestError x)"
  | (transport) r x where "resp = None" "Do e r = Inl x" "err = Some x"
  | (undecodable) x where "resp = Some zero_Response" "err = Some (RequestError x)"
  | (answer) "err = None"
  using assms
  by (auto simp: submit_def Let_def split: sum.splits option.splits prod.splits decoded.splits)

lemma no_drain_step:
  assumes "sstep s s'" and "main s = SReport False True \<Longrightarrow> (\<forall>i. \<not> unfinished (trips s i))"
  shows "main s' = SReport False True \<Longrightarrow> (\<forall>i. \<not> unfinished (trips s' i))"
  using assms
  by (cases rule: sstep.cases) (auto simp: after_callBack_def, (metis unfinished.simps)+)

lemma panic_step:
  assumes "sstep s s'" and "sctl s = ChanOpen \<Longrightarrow> \<not> spanic s"
  shows "sctl s' = ChanOpen \<Longrightarrow> \<not> spanic s'"
  using assms by (cases rule: sstep.cases) (auto elim: close_chan.elims)

lemma drained_reach: "sreach s \<Longrightarrow> main s = SReport False True \<Longrightarrow> (\<forall>i. \<not> unfinished (trips s i))"
proof (induction rule: sreach.induct)
  case init
  then show ?case by (simp add: sinit_def)
next
  case (step s s')
  from no_drain_step [OF step.hyps(2) step.IH] step.prems show ?case by blast
qed

section \<open>Runs\<close>

text \<open>Two round trips are in flight, with \<open>n\<close> of them about to send their tokens.\<close>

definition trips_of :: "trip \<Rightarrow> trip \<Rightarrow> nat \<Rightarrow> trip" where
  "trips_of a b i = (if i = 0 then a else if i = 1 then b else TNone)"

lemma trips_of_upd [simp]:
  "trips_of a b 0 = a" "trips_of a b (Suc 0) = b"
  "(trips_of a b)(0 := x) = trips_of x b" "(trips_of a b)(Suc 0 := x) = trips_of a x"
  by (auto simp: trips_of_def)

lemma reach_launch:
  assumes "sreach s" and "main s = SRun" and "trips s i = TNone"
  shows "sreach (s\<lparr>main := SRun, trips := (trips s)(i := TFlight)\<rparr>)"
  using sreach.step [OF sreach.step [OF assms(1) sstep.take [OF assms(2)]] sstep.launch [of _ i]]
    assms(3) by simp

lemma two_in_flight: "sreach (sinit\<lparr>trips := trips_of TFlight TFlight\<rparr>)"
proof -
  have t0: "(\<lambda>_. TNone) = trips_of TNone TNone" by (auto simp: trips_of_def)
  have "sreach (sinit\<lparr>trips := trips_of TFlight TNone\<rparr>)"
    using reach_launch [OF sreach.init, of 0] by (simp add: sinit_def t0)
  from reach_launch [OF this, of 1] show ?thesis by (simp add: sinit_def)
qed

lemma two_quitting: "sreach (sinit\<lparr>trips := trips_of (TQuit True) (TQuit True)\<rparr>)"
proof -
  have "sreach (sinit\<lparr>trips := trips_of (TQuit True) TFlight\<rparr>)"
    using sreach.step [OF two_in_flight sstep.reply [of _ 0 True]]
    by (simp add: sinit_def after_callBack_def)
  from sreach.step [OF this sstep.reply [of _ 1 True]] show ?thesis
    by (simp add: sinit_def after_callBack_def)
qed

section \<open>Properties\<close>

text \<open>
  C17. Retries are bounded: whatever the outcomes of the attempts and whatever the user's
  \<open>RetryEval\<close> says, a request is attempted at most \<open>MaxRetries + 1\<close> times, then its last outcome
  is reported, and every attempt before that had an error that is retriable.
\<close>

theorem retries_bounded:
  assumes "attemptCnt req = 0" and "serve c outs 0 req = (m, out)"
  shows "0 < m \<and> m \<le> unat (MaxRetries c) + 1 \<and> out = outs (m - 1) \<and>
         (\<forall>k < m - 1. snd (outs k) \<noteq> None \<and> isRetriable c (fst (outs k)) (snd (outs k)))"
  using serve_result [OF assms(2)] assms(1) by simp

theorem retries_bounded_witness:
  "fst (serve (MinBlockingProcConfig\<lparr>MaxRetries := 3, RetryEval := Some (\<lambda>_ _. True)\<rparr>)
     (\<lambda>_. (Some zero_Response, Some ErrCanceled)) 0 sample_request) \<le> 4"
  using retries_bounded [of sample_request
      "MinBlockingProcConfig\<lparr>MaxRetries := 3, RetryEval := Some (\<lambda>_ _. True)\<rparr>"
      "\<lambda>_. (Some zero_Response, Some ErrCanceled)"]
  by (cases "serve (MinBlockingProcConfig\<lparr>MaxRetries := 3, RetryEval := Some (\<lambda>_ _. True)\<rparr>)
     (\<lambda>_. (Some zero_Response, Some ErrCanceled)) 0 sample_request")
     (simp add: sample_request_def)

text \<open>
  C30. Only answers that cannot be decoded are ever retried: if a request is handed to the
  retry forwarder after \<open>submit\<close>, then the service did answer, and \<open>RetryEval\<close> was shown an empty
  response with no status. Failed connections, and rejections such as 429 or 503, never reach it.
\<close>

theorem retry_only_undecodable:
  assumes "submit e gateway csigner req sz = Some ((resp, err), req', sz')"
    and "after_submit c req' resp err = Retry req''"
  shows "resp = Some zero_Response \<and> (\<exists>x. err = Some (RequestError x)) \<and>
         attemptCnt req'' = attemptCnt req' + 1"
  using assms(1) after_submit_Retry [OF assms(2)]
  by (cases rule: submit_cases) (auto simp: isRetriable_def)

definition sample_env :: "nat env" where
  "sample_env = \<lparr>NewRequest = (\<lambda>_. Inr blank_request), Marshal = (\<lambda>_. Inr []),
     SignWith = (\<lambda>_ r. (None, r)), Do = (\<lambda>_. Inr \<lparr>hStatusCode = 503, hApnsID = [], hBody = ''<html>''\<rparr>),
     Decode = (\<lambda>_ _. DecErr (Foreign ''invalid character''))\<rparr>"

theorem retry_only_undecodable_witness:
  "\<exists>resp err req' sz' req''. submit sample_env [] (UserSigner 0) sample_request 0 = Some ((resp, err), req', sz') \<and>
     after_submit (MinBlockingProcConfig\<lparr>MaxRetries := 3, RetryEval := Some (\<lambda>_ _. True)\<rparr>) req' resp err
       = Retry req'' \<and> resp = Some zero_Response"
proof -
  let ?c = "MinBlockingProcConfig\<lparr>MaxRetries := 3, RetryEval := Some (\<lambda>_ _. True)\<rparr>"
  obtain resp err req' sz' where s: "submit sample_env [] (UserSigner 0) sample_request 0 = Some ((resp, err), req', sz')"
    "resp \<noteq> None" "err \<noteq> None" "attemptCnt req' = 0"
    by (simp add: submit_def sample_env_def Notification_write_def sample_request_def Let_def
        newPayloadReader_def sign_request_def effective_signer_def split_beta)
  then obtain req'' where r: "after_submit ?c req' resp err = Retry req''"
    by (simp add: after_submit_def isRetriable_def)
  with retry_only_undecodable [OF s(1) r] s(1) show ?thesis by blast
qed

text \<open>
  A connection is abandoned only for its own faults: after \<open>submit\<close> the streamer is told to
  quit only if the transport failed or the service answered 400 or 403; requests that cannot be
  built, written, signed or decoded leave the connection in use.
\<close>

theorem connection_kept:
  assumes "submit e gateway csigner req sz = Some ((resp, err), req', sz')"
    and "after_submit c req' resp err = Finish True"
  shows "(\<exists>r x. Do e r = Inl x \<and> err = Some x) \<or>
         (\<exists>r. resp = Some r \<and> (StatusCode r = 400 \<or> StatusCode r = 403))"
proof -
  have "\<not> isConnUsable resp err" using assms(2) by (auto simp: after_submit_def split: if_splits)
  with assms(1) show ?thesis
    by (cases rule: submit_cases; cases resp)
       (auto simp: isConnUsable_def zero_Response_def split: if_splits)
qed

theorem connection_kept_witness:
  "\<exists>r x. Do (sample_env\<lparr>Do := (\<lambda>_. Inl (Foreign ''reset''))\<rparr>) r = Inl x"
proof -
  let ?e = "sample_env\<lparr>Do := (\<lambda>_. Inl (Foreign ''reset''))\<rparr>"
  obtain req' where s: "submit ?e [] (UserSigner 0) sample_request 0
      = Some ((None, Some (Foreign ''reset'')), req', 0)"
    by (simp add: submit_def sample_env_def Notification_write_def sample_request_def Let_def
        newPayloadReader_def sign_request_def effective_signer_def split_beta)
  have "after_submit MinBlockingProcConfig req' None (Some (Foreign ''reset'')) = Finish True"
    by (simp add: after_submit_def isRetriable_def isConnUsable_def)
  from connection_kept [OF s this] show ?thesis by auto
qed


text \<open>
  C18. A soft stop is complete: when a streamer reports that its inbound channel was closed, none
  of its round trips is in flight, waiting to deliver a result or about to send a quit token.
\<close>

theorem soft_stop_drains:
  assumes "sreach s" and "main s = SReport False True"
  shows "\<not> unfinished (trips s i)"
  using drained_reach [OF assms] by blast

theorem soft_stop_drains_witness:
  "\<exists>s. sreach s \<and> main s = SReport False True \<and> \<not> unfinished (trips s 0)"
proof -
  have "sreach (sinit\<lparr>main := SDrain\<rparr>)"
    by (rule sreach.step [OF sreach.init sstep.in_closed]) (simp add: sinit_def)
  then have "sreach ((sinit\<lparr>main := SDrain\<rparr>)\<lparr>main := SReport False True\<rparr>)"
    by (rule sreach.step [OF _ sstep.drained]) (simp_all add: sinit_def)
  with soft_stop_drains [OF this, of 0] show ?thesis by force
qed

text \<open>
  A streamer can end unnoticed: without any hard stop, when two round trips find the
  connection unusable, the first token ends the loop and the second is taken by the \<open>select\<close>
  that should report to the governor, which is never told and keeps the streamer registered.
\<close>

theorem second_token_silences:
  "\<exists>s. sreach s \<and> sctl s = ChanOpen \<and> main s = SEnd False \<and> \<not> spanic s"
proof -
  let ?s = "sinit\<lparr>trips := trips_of (TQuit True) (TQuit True)\<rparr>"
  have "sreach (?s\<lparr>main := SReport True False, trips := trips_of (TEnd True) (TQuit True)\<rparr>)"
    using sreach.step [OF two_quitting sstep.quit_loop [of _ 0 True]] by (simp add: sinit_def)
  from sreach.step [OF this sstep.quit_report [of _ 1 True True False]]
  have "sreach (?s\<lparr>main := SEnd False, trips := trips_of (TEnd True) (TEnd True)\<rparr>)"
    by (simp add: sinit_def)
  then show ?thesis by (intro exI conjI) (assumption, simp_all add: sinit_def)
qed

text \<open>
  Without a hard stop a result can be lost: a quit token may be taken by another round trip
  that waits to deliver its result, which then is discarded.
\<close>

theorem token_discards_result:
  "\<exists>s. sreach s \<and> sctl s = ChanOpen \<and> main s = SRun \<and> trips s 1 = TEnd False"
proof -
  have "sreach (sinit\<lparr>trips := trips_of (TQuit True) TFlight\<rparr>)"
    using sreach.step [OF two_in_flight sstep.reply [of _ 0 True]]
    by (simp add: sinit_def after_callBack_def)
  from sreach.step [OF this sstep.reply_blocked [of _ 1 False]]
  have "sreach (sinit\<lparr>trips := trips_of (TQuit True) (TSend False)\<rparr>)" by (simp add: sinit_def)
  from sreach.step [OF this sstep.quit_swallow [of _ 0 True 1 False]]
  have "sreach (sinit\<lparr>trips := trips_of (TEnd True) (TEnd False)\<rparr>)"
    by (simp add: sinit_def after_callBack_def)
  then show ?thesis by (intro exI conjI) (assumption, simp_all add: sinit_def)
qed

text \<open>
  Panics come only with the hard stop: as long as the control channel is open no send on it
  panics; but after a hard stop a round trip that finds its connection unusable does panic.
\<close>

theorem panic_only_after_hard_stop:
  "(\<forall>s. sreach s \<and> sctl s = ChanOpen \<longrightarrow> \<not> spanic s) \<and> (\<exists>s. sreach s \<and> spanic s)"
proof
  have "sctl s = ChanOpen \<longrightarrow> \<not> spanic s" if "sreach s" for s
    using that by (induction rule: sreach.induct) (simp add: sinit_def, metis panic_step)
  then show "\<forall>s. sreach s \<and> sctl s = ChanOpen \<longrightarrow> \<not> spanic s" by blast
  let ?s = "sinit\<lparr>trips := trips_of (TQuit True) (TQuit True)\<rparr>"
  have "sreach (?s\<lparr>sctl := ChanClosed\<rparr>)"
    by (rule sreach.step [OF two_quitting sstep.hard_stop]) (simp add: sinit_def)
  then have "sreach ((?s\<lparr>sctl := ChanClosed\<rparr>)\<lparr>spanic := True\<rparr>)"
    by (rule sreach.step [OF _ sstep.quit_panics [of _ 0 True]]) simp_all
  then show "\<exists>s. sreach s \<and> spanic s" by force
qed

theorem panic_only_after_hard_stop_witness:
  "\<not> spanic sinit"
  using panic_only_after_hard_stop sreach.init by (simp add: sinit_def)

end
