(* ===== verification/Forwarder.thy ===== *)
theory Forwarder
  imports Dispatch
begin

text \<open>
  The retry forwarder of \<open>apns2/dispatch.go\<close> (\<open>runRetryForwarder\<close>, \<open>bufferedForwarder\<close>): a
  goroutine takes the requests that streamers send for a retry and puts them into a buffer of
  which another goroutine hands them to the client. The requests are of any type; the goroutines
  are a step relation.
\<close>

section \<open>Goroutines and buffers\<close>

definition retry_cap :: nat where
  "retry_cap = 100"

definition bufSize :: int where
  "bufSize = 500"

text \<open>
  A buffered forwarder waits for a request, has one to hand to the client, or has returned. A
  buffer is its channel with the forwarder that reads it.
\<close>

datatype 'r bfpc = BWait | BHave 'r | BDone

record 'r fbuf =
  content :: "'r list"
  fclosed :: bool
  bpc :: "'r bfpc"

text \<open>
  \<open>hold\<close> is the request that the forwarder has received and not yet put into the buffer;
  \<open>cur\<close> the buffer \<open>buf\<close>; \<open>fcnt\<close> the variable \<open>cnt\<close>. \<open>sent\<close> and \<open>handed\<close> record what streamers
  have sent and the client has received.
\<close>

record 'r fwd =
  inq :: "'r list"
  hold :: "'r option"
  cur :: "nat option"
  bufs :: "'r fbuf list"
  fcnt :: int
  fctl :: bool
  fdone :: bool
  sent :: "'r list"
  handed :: "'r list"

definition finit :: "'r fwd" where
  "finit = \<lparr>inq = [], hold = None, cur = None, bufs = [], fcnt = 0, fctl = False, fdone = False,
     sent = [], handed = []\<rparr>"

text \<open>The forwarder receives \<open>req\<close>: it may replace the buffer.\<close>

definition receive_retry :: "'r \<Rightarrow> 'r fwd \<Rightarrow> 'r fwd" where
  "receive_retry req f =
     (let f1 = (if cur f = None \<or> fcnt f \<ge> bufSize
                then let f0 = (case cur f of
                                 Some b \<Rightarrow> f\<lparr>bufs := (bufs f)[b := (bufs f ! b)\<lparr>fclosed := True\<rparr>]\<rparr>
                               | None \<Rightarrow> f)
                     in f0\<lparr>bufs := bufs f0 @ [\<lparr>content = [], fclosed = False, bpc = BWait\<rparr>],
                           cur := Some (length (bufs f0)), fcnt := 0\<rparr>
                else f)
      in f1\<lparr>hold := Some req\<rparr>)"

definition upd_buf :: "nat \<Rightarrow> ('r fbuf \<Rightarrow> 'r fbuf) \<Rightarrow> 'r fwd \<Rightarrow> 'r fwd" where
  "upd_buf b h f = f\<lparr>bufs := (bufs f)[b := h (bufs f ! b)]\<rparr>"

text \<open>A streamer's send on \<open>g.retry\<close>, and the client's receipt from a buffered forwarder.\<close>

definition fsend :: "'r \<Rightarrow> 'r fwd \<Rightarrow> 'r fwd" where
  "fsend req f = f\<lparr>inq := inq f @ [req], sent := sent f @ [req]\<rparr>"

definition fhand :: "nat \<Rightarrow> 'r \<Rightarrow> 'r fwd \<Rightarrow> 'r fwd" where
  "fhand b req f = (upd_buf b (\<lambda>x. x\<lparr>bpc := BWait\<rparr>) f)\<lparr>handed := handed f @ [req]\<rparr>"

inductive fstep :: "'r fwd \<Rightarrow> 'r fwd \<Rightarrow> bool" where
  send: "length (inq f) < retry_cap \<Longrightarrow> fstep f (fsend req f)"
| recv: "\<not> fdone f \<Longrightarrow> hold f = None \<Longrightarrow> inq f = req # rest \<Longrightarrow>
     fstep f (receive_retry req (f\<lparr>inq := rest\<rparr>))"
| put: "hold f = Some req \<Longrightarrow> cur f = Some b \<Longrightarrow> int (length (content (bufs f ! b))) < bufSize \<Longrightarrow>
     fstep f ((upd_buf b (\<lambda>x. x\<lparr>content := content x @ [req]\<rparr>) f)\<lparr>hold := None\<rparr>)"
| stop: "\<not> fdone f \<Longrightarrow> hold f = None \<Longrightarrow> fctl f \<Longrightarrow> fstep f (f\<lparr>fdone := True\<rparr>)"
| b_take: "b < length (bufs f) \<Longrightarrow> bpc (bufs f ! b) = BWait \<Longrightarrow> content (bufs f ! b) = req # rest \<Longrightarrow>
     fstep f (upd_buf b (\<lambda>x. x\<lparr>content := rest, bpc := BHave req\<rparr>) f)"
| b_hand: "b < length (bufs f) \<Longrightarrow> bpc (bufs f ! b) = BHave req \<Longrightarrow>
     fstep f (fhand b req f)"
| b_closed: "b < length (bufs f) \<Longrightarrow> bpc (bufs f ! b) = BWait \<Longrightarrow> content (bufs f ! b) = [] \<Longrightarrow>
     fclosed (bufs f ! b) \<Longrightarrow> fstep f (upd_buf b (\<lambda>x. x\<lparr>bpc := BDone\<rparr>) f)"
| b_stop: "b < length (bufs f) \<Longrightarrow> bpc (bufs f ! b) \<noteq> BDone \<Longrightarrow> fctl f \<Longrightarrow>
     fstep f (upd_buf b (\<lambda>x. x\<lparr>bpc := BDone\<rparr>) f)"
| hard_stop: "fstep f (f\<lparr>fctl := True\<rparr>)"

inductive freach :: "'r fwd \<Rightarrow> bool" where
  init: "freach finit"
| step: "freach f \<Longrightarrow> fstep f f' \<Longrightarrow> freach f'"

section \<open>There is only ever one buffer\<close>

fun in_hand :: "'r bfpc \<Rightarrow> 'r list" where
  "in_hand (BHave r) = [r]"
| "in_hand _ = []"

text \<open>What is on its way, oldest first, when there is at most one buffer.\<close>

definition in_flight :: "'r fwd \<Rightarrow> 'r list" where
  "in_flight f =
     concat (map (\<lambda>b. in_hand (bpc b) @ content b) (bufs f)) @
     (case hold f of Some r \<Rightarrow> [r] | None \<Rightarrow> []) @ inq f"

definition finv :: "'r fwd \<Rightarrow> bool" where
  "finv f \<longleftrightarrow>
     fcnt f = 0 \<and> length (inq f) \<le> retry_cap \<and>
     (cur f = None \<and> bufs f = [] \<and> hold f = None \<or>
      cur f = Some 0 \<and> (\<exists>b. bufs f = [b] \<and> int (length (content b)) \<le> bufSize \<and> \<not> fclosed b \<and>
        (bpc b = BDone \<longrightarrow> fctl f))) \<and>
     (\<not> fctl f \<longrightarrow> handed f @ in_flight f = sent f)"

lemma finv_init: "finv finit"
  by (simp add: finv_def finit_def in_flight_def retry_cap_def)

lemma finv_step:
  assumes "fstep f f'" and inv: "finv f"
  shows "finv f'"
proof -
  from inv consider (none) "cur f = None" "bufs f = []" "hold f = None"
    | (one) b where "cur f = Some 0" "bufs f = [b]" "int (length (content b)) \<le> bufSize" "\<not> fclosed b"
        "bpc b = BDone \<longrightarrow> fctl f"
    by (auto simp: finv_def)
  then show ?thesis
  proof cases
    case none
    from assms(1) none inv show ?thesis
      by (cases rule: fstep.cases)
         (auto simp: finv_def receive_retry_def in_flight_def fsend_def bufSize_def)
  next
    case (one b)
    from assms(1) one inv show ?thesis
      by (cases rule: fstep.cases)
         (auto simp: finv_def receive_retry_def in_flight_def upd_buf_def fsend_def fhand_def bufSize_def)
  qed
qed

lemma finv_reach: "freach f \<Longrightarrow> finv f"
  by (induction rule: freach.induct) (auto simp: finv_init intro: finv_step)

section \<open>Properties\<close>

text \<open>
  C19. Retries are neither lost nor reordered before a hard stop: what the client has received,
  followed by what is on its way, is exactly what the streamers have sent, in that order.
\<close>

theorem retries_in_order:
  assumes "freach f" and "\<not> fctl f"
  shows "handed f @ in_flight f = sent f"
  using finv_reach [OF assms(1)] assms(2) by (simp add: finv_def)

text \<open>
  The forwarder never makes a second buffer, because the count that should call for one is
  never raised: at most 602 retries are on their way at any time, then streamers block on their
  sends, although the comment speaks of 100 forwarders with 500 requests each.
\<close>

theorem retries_capacity:
  assumes "freach f"
  shows "length (bufs f) \<le> 1 \<and> length (in_flight f) \<le> 602"
proof -
  have inv: "finv f" by (rule finv_reach [OF assms])
  have h: "length (in_hand p) \<le> 1" for p by (cases p) simp_all
  show ?thesis
  proof (cases "bufs f")
    case Nil
    with inv show ?thesis by (auto simp: finv_def in_flight_def retry_cap_def)
  next
    case (Cons b bs)
    with inv have "bs = []" "length (content b) \<le> 500" "length (inq f) \<le> 100"
      by (auto simp: finv_def retry_cap_def bufSize_def)
    with Cons h [of "bpc b"] show ?thesis by (simp add: in_flight_def split: option.split)
  qed
qed

section \<open>One retry on its way\<close>

definition one_retry :: "nat fwd" where
  "one_retry = finit\<lparr>hold := Some 0, cur := Some 0, bufs := [\<lparr>content = [], fclosed = False, bpc = BWait\<rparr>],
     sent := [0]\<rparr>"

lemma one_retry_reach: "freach one_retry"
proof -
  have "freach (finit\<lparr>inq := [0], sent := [0]\<rparr>)"
    using freach.step [OF freach.init fstep.send [of _ 0]] by (simp add: finit_def retry_cap_def fsend_def)
  from freach.step [OF this fstep.recv [of _ 0 "[]"]] show ?thesis
    by (simp add: finit_def one_retry_def receive_retry_def)
qed

theorem retries_in_order_witness: "handed one_retry @ in_flight one_retry = [0]"
  using retries_in_order [OF one_retry_reach] by (simp add: one_retry_def finit_def)

theorem retries_capacity_witness: "length (in_flight one_retry) \<le> 602"
  using retries_capacity [OF one_retry_reach] by simp

end
