(* ===== verification/Pipeline.thy ===== *)
theory Pipeline
  imports Streamer Forwarder "HOL-Library.Multiset"
begin

text \<open>
  The way of a request through the client: the submitter (\<open>runSubmitter\<close> and \<open>submit\<close> of
  \<open>apns2/client.go\<close>), the streamers with their round trips (\<open>apns2/streamer.go\<close>) and the retry
  forwarder (\<open>apns2/dispatch.go\<close>), composed by their channels. Unlike in the theories of the
  components, a request is here the record the code passes on. \<open>Kill\<close> is left out; the streamers
  that the governor starts appear one by one.
\<close>

section \<open>A streamer with its requests\<close>

text \<open>What the streamers read of the client and its configuration.\<close>

record pconf =
  pc_cfg :: ProcCfg
  pc_cert :: bool
  pc_signer :: signer
  pc_out :: callback

text \<open>Requests are distinguished by the order in which the client first takes them.\<close>

type_synonym 'j preq = "nat \<times> 'j Request"

text \<open>
  The streamer's loop: at its \<open>select\<close>; in \<open>exec\<close> with a request, before or in \<open>ReservedStream\<close>;
  in \<open>exec\<close>, blocked in \<open>callBack\<close>; waiting for its round trips; past the loop, with \<open>didQuit\<close>
  and \<open>inClosed\<close>. A round trip: in \<open>submit\<close>; at its send on \<open>g.retry\<close>; blocked in \<open>callBack\<close>;
  at its send of the quit token; ended, with the result delivered or not.
\<close>

datatype 'j pmain =
  PRun | PExec "'j preq" | PCall "'j preq" "Response option" "goerr option" | PDrain | PEnd bool bool

datatype 'j ptrip =
  PFlight "'j preq" | PRetry "'j preq" | PSend "'j preq" "Response option" "goerr option" bool
  | PQuit bool | PDone bool

text \<open>
  \<open>st_cap\<close> is the effective number of streams of the connection (0 is no limit) and \<open>st_broken\<close>
  whether a round trip has found the connection unusable.
\<close>

record 'j pstr =
  st_main :: "'j pmain"
  st_trips :: "'j ptrip list"
  st_cap :: u32
  st_broken :: bool

fun holds_stream :: "'j ptrip \<Rightarrow> bool" where
  "holds_stream (PDone _) = False"
| "holds_stream _ = True"

text \<open>The condition under which \<open>ReservedStream\<close> waits; \<open>cnt\<close> is the number of open round trips.\<close>

definition no_stream :: "'j pstr \<Rightarrow> bool" where
  "no_stream st \<longleftrightarrow> 0 < st_cap st \<and> unat (st_cap st) \<le> length (filter holds_stream (st_trips st))"

text \<open>What a step of a streamer does to the rest.\<close>

datatype 'j pev =
  Quiet | Answer "'j preq" "Response option" "goerr option" | Discard "'j preq"
  | ToRetry "'j preq" | SeesClosed

definition silent :: "pconf \<Rightarrow> 'j Request \<Rightarrow> bool" where
  "silent cf req \<longleftrightarrow> callBack_target (pc_out cf) req = None"

definition after_call :: "bool \<Rightarrow> bool \<Rightarrow> 'j ptrip" where
  "after_call delivered unusable = (if unusable then PQuit delivered else PDone delivered)"

definition set_trip :: "nat \<Rightarrow> 'j ptrip \<Rightarrow> 'j pstr \<Rightarrow> 'j pstr" where
  "set_trip i t st = st\<lparr>st_trips := (st_trips st)[i := t]\<rparr>"

definition set_main :: "'j pmain \<Rightarrow> 'j pstr \<Rightarrow> 'j pstr" where
  "set_main m st = st\<lparr>st_main := m\<rparr>"

definition note_broken :: "bool \<Rightarrow> 'j pstr \<Rightarrow> 'j pstr" where
  "note_broken u st = st\<lparr>st_broken := st_broken st \<or> u\<rparr>"

declare set_trip_def [go_simps] set_main_def [go_simps] note_broken_def [go_simps]
  after_call_def [go_simps] silent_def [go_simps]

text \<open>
  \<open>ReservedStream\<close> fails only through the request's context; the outcome of a round trip is
  any. A quit token is received by the loop, by a \<open>callBack\<close> that blocks \<open>exec\<close> or another round
  trip, by the report to the governor, or by nobody.
\<close>

inductive lstep :: "pconf \<Rightarrow> 'j pstr \<Rightarrow> 'j pev \<Rightarrow> 'j pstr \<Rightarrow> bool" for cf where
  exec_silent: "st_main st = PExec r \<Longrightarrow>
     exec (pc_cert cf) (pc_signer cf) ctx_done reserve (snd r) = ExecReport e \<Longrightarrow>
     reserve = None \<or> reqContext (snd r) \<noteq> NoContext \<Longrightarrow> silent cf (snd r) \<Longrightarrow>
     lstep cf st (Answer r None (Some e)) (set_main PRun st)"
| exec_call: "st_main st = PExec r \<Longrightarrow>
     exec (pc_cert cf) (pc_signer cf) ctx_done reserve (snd r) = ExecReport e \<Longrightarrow>
     reserve = None \<or> reqContext (snd r) \<noteq> NoContext \<Longrightarrow> \<not> silent cf (snd r) \<Longrightarrow>
     lstep cf st Quiet (set_main (PCall r None (Some e)) st)"
| exec_sent: "st_main st = PCall r resp err \<Longrightarrow> lstep cf st (Answer r resp err) (set_main PRun st)"
| launch: "st_main st = PExec r \<Longrightarrow>
     exec (pc_cert cf) (pc_signer cf) ctx_done None (snd r) = ExecRoundTrip \<Longrightarrow> \<not> no_stream st \<Longrightarrow>
     lstep cf st Quiet (set_main PRun (st\<lparr>st_trips := st_trips st @ [PFlight r]\<rparr>))"
| reply_retry: "i < length (st_trips st) \<Longrightarrow> st_trips st ! i = PFlight r \<Longrightarrow>
     after_submit (pc_cfg cf) (snd r) resp err = Retry q \<Longrightarrow>
     lstep cf st Quiet (set_trip i (PRetry (fst r, q)) st)"
| reply_silent: "i < length (st_trips st) \<Longrightarrow> st_trips st ! i = PFlight r \<Longrightarrow>
     after_submit (pc_cfg cf) (snd r) resp err = Finish u \<Longrightarrow> silent cf (snd r) \<Longrightarrow>
     lstep cf st (Answer r resp err) (note_broken u (set_trip i (after_call True u) st))"
| reply_call: "i < length (st_trips st) \<Longrightarrow> st_trips st ! i = PFlight r \<Longrightarrow>
     after_submit (pc_cfg cf) (snd r) resp err = Finish u \<Longrightarrow> \<not> silent cf (snd r) \<Longrightarrow>
     lstep cf st Quiet (note_broken u (set_trip i (PSend r resp err u) st))"
| trip_sent: "i < length (st_trips st) \<Longrightarrow> st_trips st ! i = PSend r resp err u \<Longrightarrow>
     lstep cf st (Answer r resp err) (set_trip i (after_call True u) st)"
| trip_retry: "i < length (st_trips st) \<Longrightarrow> st_trips st ! i = PRetry r \<Longrightarrow>
     lstep cf st (ToRetry r) (set_trip i (PDone True) st)"
| quit_loop: "i < length (st_trips st) \<Longrightarrow> st_trips st ! i = PQuit d \<Longrightarrow> st_main st = PRun \<Longrightarrow>
     lstep cf st Quiet (set_main (PEnd True False) (set_trip i (PDone d) st))"
| quit_exec: "i < length (st_trips st) \<Longrightarrow> st_trips st ! i = PQuit d \<Longrightarrow> st_main st = PCall r resp err \<Longrightarrow>
     lstep cf st (Discard r) (set_main PRun (set_trip i (PDone d) st))"
| quit_swallow: "i < length (st_trips st) \<Longrightarrow> st_trips st ! i = PQuit d \<Longrightarrow>
     j < length (st_trips st) \<Longrightarrow> st_trips st ! j = PSend r resp err u \<Longrightarrow>
     lstep cf st (Discard r) (set_trip j (after_call False u) (set_trip i (PDone d) st))"
| quit_dropped: "i < length (st_trips st) \<Longrightarrow> st_trips st ! i = PQuit d \<Longrightarrow>
     lstep cf st Quiet (set_trip i (PDone d) st)"
| sees_closed: "st_main st = PRun \<Longrightarrow> lstep cf st SeesClosed (set_main PDrain st)"
| drained: "st_main st = PDrain \<Longrightarrow> (\<forall>t \<in> set (st_trips st). \<not> holds_stream t) \<Longrightarrow>
     lstep cf st Quiet (set_main (PEnd False True) st)"

inductive_cases lstepE: "lstep cf st ev st'"

section \<open>The pipeline\<close>

text \<open>
  The submitter: at its \<open>select\<close>, in \<open>submit\<close> with a request, ended. \<open>pi_stopping\<close> is whether
  \<open>Stop\<close> has closed \<open>c.cctl\<close>, \<open>pi_out_closed\<close> whether it has closed \<open>c.out\<close>. \<open>pi_taken\<close> counts the
  requests of the users; \<open>pi_answered\<close> and \<open>pi_discarded\<close> record how they ended.
\<close>

datatype 'j psub = SubLoop | SubHave "'j preq" | SubEnd

record 'j pipe =
  pi_sub :: "'j psub"
  pi_stopping :: bool
  pi_out_closed :: bool
  pi_strs :: "'j pstr list"
  pi_fwd :: "'j preq fwd"
  pi_taken :: nat
  pi_answered :: "(nat \<times> 'j Result) list"
  pi_discarded :: "'j preq list"

definition set_str :: "nat \<Rightarrow> 'j pstr \<Rightarrow> 'j pipe \<Rightarrow> 'j pipe" where
  "set_str k st p = p\<lparr>pi_strs := (pi_strs p)[k := st]\<rparr>"

declare set_str_def [go_simps]

fun ev_ok :: "'j pev \<Rightarrow> 'j pipe \<Rightarrow> bool" where
  "ev_ok (ToRetry r) p = (length (inq (pi_fwd p)) < retry_cap)"
| "ev_ok SeesClosed p = pi_out_closed p"
| "ev_ok _ p = True"

fun ev_do :: "'j pev \<Rightarrow> 'j pipe \<Rightarrow> 'j pipe" where
  "ev_do (Answer r resp err) p =
     p\<lparr>pi_answered := pi_answered p @ [(fst r, callBack_result (snd r) resp err)]\<rparr>"
| "ev_do (Discard r) p = p\<lparr>pi_discarded := pi_discarded p @ [r]\<rparr>"
| "ev_do (ToRetry r) p = p\<lparr>pi_fwd := fsend r (pi_fwd p)\<rparr>"
| "ev_do _ p = p"

text \<open>The steps of the forwarder's own goroutines.\<close>

inductive fint :: "'r fwd \<Rightarrow> 'r fwd \<Rightarrow> bool" where
  recv: "\<not> fdone f \<Longrightarrow> hold f = None \<Longrightarrow> inq f = req # rest \<Longrightarrow>
     fint f (receive_retry req (f\<lparr>inq := rest\<rparr>))"
| put: "hold f = Some req \<Longrightarrow> cur f = Some b \<Longrightarrow> int (length (content (bufs f ! b))) < bufSize \<Longrightarrow>
     fint f ((upd_buf b (\<lambda>x. x\<lparr>content := content x @ [req]\<rparr>) f)\<lparr>hold := None\<rparr>)"
| b_take: "b < length (bufs f) \<Longrightarrow> bpc (bufs f ! b) = BWait \<Longrightarrow> content (bufs f ! b) = req # rest \<Longrightarrow>
     fint f (upd_buf b (\<lambda>x. x\<lparr>content := rest, bpc := BHave req\<rparr>) f)"

text \<open>What the client does by itself.\<close>

inductive pint :: "pconf \<Rightarrow> 'j pipe \<Rightarrow> 'j pipe \<Rightarrow> bool" for cf where
  take_retry: "pi_sub p = SubLoop \<Longrightarrow> b < length (bufs (pi_fwd p)) \<Longrightarrow>
     bpc (bufs (pi_fwd p) ! b) = BHave r \<Longrightarrow>
     pint cf p (p\<lparr>pi_sub := SubHave r, pi_fwd := fhand b r (pi_fwd p)\<rparr>)"
| pass: "pi_sub p = SubHave r \<Longrightarrow> k < length (pi_strs p) \<Longrightarrow> st_main (pi_strs p ! k) = PRun \<Longrightarrow>
     pint cf p ((set_str k (set_main (PExec r) (pi_strs p ! k)) p)\<lparr>pi_sub := SubLoop\<rparr>)"
| interrupted: "pi_sub p = SubHave r \<Longrightarrow> pi_stopping p \<Longrightarrow>
     pint cf p (p\<lparr>pi_sub := SubLoop, pi_discarded := pi_discarded p @ [r]\<rparr>)"
| sub_end: "pi_sub p = SubLoop \<Longrightarrow> pi_stopping p \<Longrightarrow> pint cf p (p\<lparr>pi_sub := SubEnd\<rparr>)"
| close_out: "pi_sub p = SubEnd \<Longrightarrow> \<not> pi_out_closed p \<Longrightarrow> pint cf p (p\<lparr>pi_out_closed := True\<rparr>)"
| streamer: "k < length (pi_strs p) \<Longrightarrow> lstep cf (pi_strs p ! k) ev st \<Longrightarrow> ev_ok ev p \<Longrightarrow>
     pint cf p (ev_do ev (set_str k st p))"
| forwarder: "fint (pi_fwd p) f \<Longrightarrow> pint cf p (p\<lparr>pi_fwd := f\<rparr>)"

text \<open>
  What comes from outside: a request from the queue, one from a caller of \<open>Push\<close> (whose own
  \<open>submit\<close> hands it to a streamer), the start of a streamer, a change of a connection's number
  of streams, and \<open>Stop\<close>.
\<close>

inductive penv :: "'j pipe \<Rightarrow> 'j pipe \<Rightarrow> bool" where
  take: "pi_sub p = SubLoop \<Longrightarrow> attemptCnt q = 0 \<Longrightarrow>
     penv p (p\<lparr>pi_sub := SubHave (pi_taken p, q), pi_taken := Suc (pi_taken p)\<rparr>)"
| push: "\<not> pi_out_closed p \<Longrightarrow> k < length (pi_strs p) \<Longrightarrow> st_main (pi_strs p ! k) = PRun \<Longrightarrow>
     attemptCnt q = 0 \<Longrightarrow>
     penv p ((set_str k (set_main (PExec (pi_taken p, q)) (pi_strs p ! k)) p)\<lparr>pi_taken := Suc (pi_taken p)\<rparr>)"
| new_streamer:
    "penv p (p\<lparr>pi_strs := pi_strs p @ [\<lparr>st_main = PRun, st_trips = [], st_cap = c, st_broken = False\<rparr>]\<rparr>)"
| refresh: "k < length (pi_strs p) \<Longrightarrow> penv p (set_str k ((pi_strs p ! k)\<lparr>st_cap := c\<rparr>) p)"
| stop: "penv p (p\<lparr>pi_stopping := True\<rparr>)"

definition pstep :: "pconf \<Rightarrow> 'j pipe \<Rightarrow> 'j pipe \<Rightarrow> bool" where
  "pstep cf p p' \<longleftrightarrow> pint cf p p' \<or> penv p p'"

definition pinit :: "'j pipe" where
  "pinit = \<lparr>pi_sub = SubLoop, pi_stopping = False, pi_out_closed = False, pi_strs = [],
     pi_fwd = finit, pi_taken = 0, pi_answered = [], pi_discarded = []\<rparr>"

definition preach :: "pconf \<Rightarrow> 'j pipe \<Rightarrow> bool" where
  "preach cf = (pstep cf)\<^sup>*\<^sup>* pinit"

lemma preach_init [intro]: "preach cf pinit"
  by (simp add: preach_def)

lemma preach_step: "preach cf p \<Longrightarrow> pstep cf p p' \<Longrightarrow> preach cf p'"
  unfolding preach_def by (rule rtranclp.rtrancl_into_rtrancl)

lemma preach_int: "preach cf p \<Longrightarrow> pint cf p p' \<Longrightarrow> preach cf p'"
  using preach_step [of cf p p'] by (simp add: pstep_def)

lemma preach_env: "preach cf p \<Longrightarrow> penv p p' \<Longrightarrow> preach cf p'"
  using preach_step [of cf p p'] by (simp add: pstep_def)

lemma preach_induct [consumes 1, case_names init step]:
  assumes "preach cf p" "P pinit" "\<And>p p'. preach cf p \<Longrightarrow> P p \<Longrightarrow> pstep cf p p' \<Longrightarrow> P p'"
  shows "P p"
  using assms(1) unfolding preach_def
proof (induction rule: rtranclp_induct)
  case base
  show ?case by (rule assms(2))
next
  case (step p p')
  then show ?case using assms(3) by (simp add: preach_def)
qed

section \<open>The components inside the pipeline\<close>

text \<open>A streamer without its requests is one of the theory \<open>Streamer\<close>.\<close>

fun abs_main :: "'j pmain \<Rightarrow> smain" where
  "abs_main PRun = SRun"
| "abs_main (PExec _) = SExec"
| "abs_main (PCall _ _ _) = SExec"
| "abs_main PDrain = SDrain"
| "abs_main (PEnd q c) = SReport q c"

fun abs_trip :: "'j ptrip \<Rightarrow> trip" where
  "abs_trip (PFlight _) = TFlight"
| "abs_trip (PRetry _) = TFlight"
| "abs_trip (PSend _ _ _ u) = TSend u"
| "abs_trip (PQuit d) = TQuit d"
| "abs_trip (PDone d) = TEnd d"

definition abs_str :: "'j pstr \<Rightarrow> ssys" where
  "abs_str st = \<lparr>main = abs_main (st_main st),
     trips = (\<lambda>i. if i < length (st_trips st) then abs_trip (st_trips st ! i) else TNone),
     sctl = ChanOpen, spanic = False\<rparr>"

lemma abs_after_call [simp]: "abs_trip (after_call d u) = after_callBack d u"
  by (simp add: after_call_def after_callBack_def)

lemma abs_str_frame [simp]:
  "abs_str (note_broken u st) = abs_str st" "abs_str (st\<lparr>st_cap := c\<rparr>) = abs_str st"
  by (simp_all add: abs_str_def note_broken_def cong: if_cong)

lemma abs_set_main [simp]: "abs_str (set_main m st) = (abs_str st)\<lparr>main := abs_main m\<rparr>"
  by (simp add: abs_str_def set_main_def cong: if_cong)

lemma ssys_commute: "s\<lparr>trips := t, main := m\<rparr> = s\<lparr>main := m, trips := t\<rparr>"
  by simp

lemma abs_set_trip [simp]:
  "i < length (st_trips st) \<Longrightarrow>
     abs_str (set_trip i t st) = (abs_str st)\<lparr>trips := (trips (abs_str st))(i := abs_trip t)\<rparr>"
  by (auto simp: abs_str_def set_trip_def fun_eq_iff nth_list_update)

lemma ssys_same:
  "main s = m \<Longrightarrow> s\<lparr>main := m\<rparr> = s" "trips s = t \<Longrightarrow> s\<lparr>trips := t\<rparr> = s"
  by auto

lemma abs_str_sel [simp]:
  "main (abs_str st) = abs_main (st_main st)" "sctl (abs_str st) = ChanOpen"
  "i < length (st_trips st) \<Longrightarrow> trips (abs_str st) i = abs_trip (st_trips st ! i)"
  by (simp_all add: abs_str_def)

lemma unfinished_abs [simp]: "unfinished (abs_trip t) = holds_stream t"
  by (cases t) simp_all

lemma set_trip_length [simp]: "length (st_trips (set_trip i t st)) = length (st_trips st)"
  by (simp add: set_trip_def)

lemma set_trip_sel [simp]:
  "st_main (set_trip i t st) = st_main st" "st_cap (set_trip i t st) = st_cap st"
  "st_broken (set_trip i t st) = st_broken st" "st_trips (set_trip i t st) = (st_trips st)[i := t]"
  by (simp_all add: set_trip_def)

lemma set_main_sel [simp]:
  "st_main (set_main m st) = m" "st_cap (set_main m st) = st_cap st"
  "st_broken (set_main m st) = st_broken st" "st_trips (set_main m st) = st_trips st"
  by (simp_all add: set_main_def)

lemma abs_all_finished:
  "(\<forall>t \<in> set (st_trips st). \<not> holds_stream t) \<Longrightarrow> \<not> unfinished (trips (abs_str st) i)"
  by (simp add: abs_str_def)

lemma lstep_view:
  assumes "lstep cf st ev st'"
  shows "abs_str st' = abs_str st \<or> sstep (abs_str st) (abs_str st')"
  using assms
proof (cases rule: lstep.cases)
  case (launch r cd)
  let ?n = "length (st_trips st)"
  have "abs_str st' = (abs_str st)\<lparr>main := SRun, trips := (trips (abs_str st))(?n := TFlight)\<rparr>"
    by (auto simp: launch abs_str_def set_main_def fun_eq_iff nth_append)
  moreover have "sstep (abs_str st) \<dots>"
    by (rule sstep.launch) (simp_all add: launch abs_str_def)
  ultimately show ?thesis by simp
next
  case (reply_silent i r resp err u)
  then show ?thesis by (auto intro: sstep.reply)
next
  case (reply_call i r resp err u)
  then show ?thesis by (auto intro: sstep.reply_blocked)
next
  case (trip_sent i r resp err u)
  then show ?thesis by (auto intro: sstep.sent)
next
  case (trip_retry i r)
  have "sstep (abs_str st) ((abs_str st)\<lparr>trips := (trips (abs_str st))(i := after_callBack True False)\<rparr>)"
    by (rule sstep.reply) (simp add: trip_retry)
  then show ?thesis by (simp add: trip_retry after_callBack_def)
next
  case (quit_loop i d)
  have "sstep (abs_str st) ((abs_str st)\<lparr>main := SReport True False, trips := (trips (abs_str st))(i := TEnd d)\<rparr>)"
    by (rule sstep.quit_loop) (simp_all add: quit_loop)
  then show ?thesis by (simp add: quit_loop ssys_commute)
next
  case (quit_exec i d r resp err)
  have "sstep (abs_str st) ((abs_str st)\<lparr>main := SRun, trips := (trips (abs_str st))(i := TEnd d)\<rparr>)"
    by (rule sstep.quit_exec) (simp_all add: quit_exec)
  then show ?thesis by (simp add: quit_exec ssys_commute)
next
  case (quit_swallow i d j r resp err u)
  then have "i \<noteq> j" by auto
  have "sstep (abs_str st) ((abs_str st)\<lparr>trips := ((trips (abs_str st))(i := TEnd d))(j := after_callBack False u)\<rparr>)"
    by (rule sstep.quit_swallow) (simp_all add: quit_swallow \<open>i \<noteq> j\<close>)
  then show ?thesis by (simp add: quit_swallow)
next
  case (quit_dropped i d)
  then show ?thesis by (auto intro: sstep.quit_dropped)
next
  case drained
  have "sstep (abs_str st) ((abs_str st)\<lparr>main := SReport False True\<rparr>)"
    by (rule sstep.drained) (use drained in \<open>simp_all add: abs_all_finished\<close>)
  then show ?thesis by (simp add: drained)
next
  case (reply_retry i r resp err q)
  then have "abs_str st' = abs_str st" by (simp add: ssys_same fun_upd_idem)
  then show ?thesis ..
next
  case (exec_call r cd res e)
  then have "abs_str st' = abs_str st" by (simp add: ssys_same)
  then show ?thesis ..
next
  case (exec_silent r cd res e)
  then show ?thesis by (simp add: sstep.exec_reported)
next
  case (exec_sent r resp err)
  then show ?thesis by (simp add: sstep.exec_reported)
next
  case sees_closed
  then show ?thesis by (simp add: sstep.in_closed)
qed

text \<open>The \<open>k\<close>-th streamer, which is in its initial state until it is started.\<close>

definition str_view :: "nat \<Rightarrow> 'j pipe \<Rightarrow> ssys" where
  "str_view k p = (if k < length (pi_strs p) then abs_str (pi_strs p ! k) else sinit)"

lemma ev_do_sel [simp]:
  "pi_strs (ev_do ev p) = pi_strs p" "pi_sub (ev_do ev p) = pi_sub p"
  "pi_stopping (ev_do ev p) = pi_stopping p" "pi_out_closed (ev_do ev p) = pi_out_closed p"
  "pi_taken (ev_do ev p) = pi_taken p"
  by (cases ev; simp)+

lemma set_str_sel [simp]:
  "pi_strs (set_str k st p) = (pi_strs p)[k := st]" "pi_sub (set_str k st p) = pi_sub p"
  "pi_stopping (set_str k st p) = pi_stopping p" "pi_out_closed (set_str k st p) = pi_out_closed p"
  "pi_taken (set_str k st p) = pi_taken p" "pi_fwd (set_str k st p) = pi_fwd p"
  "pi_answered (set_str k st p) = pi_answered p" "pi_discarded (set_str k st p) = pi_discarded p"
  by (simp_all add: set_str_def)

lemma abs_new_streamer [simp]:
  "abs_str \<lparr>st_main = PRun, st_trips = [], st_cap = c, st_broken = False\<rparr> = sinit"
  by (simp add: abs_str_def sinit_def)

lemma abs_exec_step: "st_main st = PRun \<Longrightarrow> sstep (abs_str st) ((abs_str st)\<lparr>main := SExec\<rparr>)"
  by (rule sstep.take) simp

lemma pstep_str_view:
  assumes "pstep cf p p'"
  shows "str_view k p' = str_view k p \<or> sstep (str_view k p) (str_view k p')"
  using assms unfolding pstep_def
proof
  assume "pint cf p p'"
  then show ?thesis
  proof (cases rule: pint.cases)
    case (pass r j)
    then show ?thesis
      by (cases "j = k") (auto simp: str_view_def abs_exec_step)
  next
    case (streamer j ev st)
    then show ?thesis using lstep_view [OF streamer(3)]
      by (cases "j = k") (auto simp: str_view_def)
  qed (auto simp: str_view_def)
next
  assume "penv p p'"
  then show ?thesis
  proof (cases rule: penv.cases)
    case (push j q)
    then show ?thesis
      by (cases "j = k") (auto simp: str_view_def abs_exec_step)
  next
    case (new_streamer c)
    then show ?thesis by (auto simp: str_view_def nth_append)
  next
    case (refresh j c)
    then show ?thesis by (cases "j = k") (auto simp: str_view_def)
  qed (auto simp: str_view_def)
qed

interpretation in_str: simulation "pstep cf" sstep "str_view k"
  by unfold_locales (rule pstep_str_view)

lemma str_view_reach: "preach cf p \<Longrightarrow> sreach (str_view k p)"
  unfolding preach_def
  by (erule in_str.invariant_view) (auto simp: str_view_def pinit_def intro: sreach.intros)

lemma fint_fstep: "fint f f' \<Longrightarrow> fstep f f'"
  by (erule fint.cases) (auto intro: fstep.intros)

lemma pstep_fwd_view:
  assumes "pstep cf p p'"
  shows "pi_fwd p' = pi_fwd p \<or> fstep (pi_fwd p) (pi_fwd p')"
  using assms unfolding pstep_def
proof
  assume "pint cf p p'"
  then show ?thesis
  proof (cases rule: pint.cases)
    case (streamer j ev st)
    then show ?thesis by (cases ev) (auto intro: fstep.send)
  qed (auto intro: fstep.b_hand fint_fstep)
qed (auto elim!: penv.cases)

interpretation in_fwd: simulation "pstep cf" fstep pi_fwd
  by unfold_locales (rule pstep_fwd_view)

lemma pint_fctl:
  assumes "pint cf p p'"
  shows "fctl (pi_fwd p') = fctl (pi_fwd p) \<and> fdone (pi_fwd p') = fdone (pi_fwd p)"
  using assms
proof (cases rule: pint.cases)
  case (streamer k ev st)
  then show ?thesis by (cases ev) (simp_all add: fsend_def)
next
  case (forwarder f)
  from forwarder(2) show ?thesis unfolding forwarder(1)
    by (cases rule: fint.cases) (auto simp: upd_buf_def receive_retry_def Let_def split: option.split)
qed (simp_all add: fhand_def upd_buf_def)

lemma fwd_reach: "preach cf p \<Longrightarrow> freach (pi_fwd p)"
  unfolding preach_def
  by (erule in_fwd.invariant_view) (auto simp: pinit_def intro: freach.intros)

lemma fwd_no_hard_stop: "preach cf p \<Longrightarrow> \<not> fctl (pi_fwd p) \<and> \<not> fdone (pi_fwd p)"
proof (induction rule: preach_induct)
  case init
  show ?case by (simp add: pinit_def finit_def)
next
  case (step p p')
  then show ?case
    unfolding pstep_def by (auto simp: pint_fctl) (erule penv.cases; simp)+
qed

lemma fwd_order: "preach cf p \<Longrightarrow> handed (pi_fwd p) @ in_flight (pi_fwd p) = sent (pi_fwd p)"
  using finv_reach [OF fwd_reach] fwd_no_hard_stop by (auto simp: finv_def)

end
