(* ===== verification/Delivery.thy ===== *)
theory Delivery
  imports Pipeline
begin

text \<open>
  What becomes of a request on its way through the pipeline: it is always in exactly one place,
  and it is answered at most once and attempted a bounded number of times.
\<close>

section \<open>Where the requests are\<close>

fun sub_reqs :: "'j psub \<Rightarrow> 'j preq multiset" where
  "sub_reqs (SubHave r) = {#r#}"
| "sub_reqs _ = {#}"

fun main_reqs :: "'j pmain \<Rightarrow> 'j preq multiset" where
  "main_reqs (PExec r) = {#r#}"
| "main_reqs (PCall r _ _) = {#r#}"
| "main_reqs _ = {#}"

fun trip_reqs :: "'j ptrip \<Rightarrow> 'j preq multiset" where
  "trip_reqs (PFlight r) = {#r#}"
| "trip_reqs (PRetry r) = {#r#}"
| "trip_reqs (PSend r _ _ _) = {#r#}"
| "trip_reqs _ = {#}"

fun ev_reqs :: "'j pev \<Rightarrow> 'j preq multiset" where
  "ev_reqs (Answer r _ _) = {#r#}"
| "ev_reqs (Discard r) = {#r#}"
| "ev_reqs (ToRetry r) = {#r#}"
| "ev_reqs _ = {#}"

definition str_reqs :: "'j pstr \<Rightarrow> 'j preq multiset" where
  "str_reqs st = main_reqs (st_main st) + (\<Sum>t \<leftarrow> st_trips st. trip_reqs t)"

definition under_way :: "'j pipe \<Rightarrow> 'j preq multiset" where
  "under_way p =
     sub_reqs (pi_sub p) + mset (in_flight (pi_fwd p)) + (\<Sum>st \<leftarrow> pi_strs p. str_reqs st)"

text \<open>The numbers of the requests that are under way or have ended.\<close>

definition accounted :: "'j pipe \<Rightarrow> nat multiset" where
  "accounted p = image_mset fst (under_way p) + mset (map fst (pi_answered p))
     + mset (map fst (pi_discarded p))"

lemma note_broken_sel [simp]:
  "st_main (note_broken u st) = st_main st" "st_trips (note_broken u st) = st_trips st"
  "st_cap (note_broken u st) = st_cap st" "st_broken (note_broken u st) = (st_broken st \<or> u)"
  by (simp_all add: note_broken_def)

lemma trip_reqs_after_call [simp]: "trip_reqs (after_call d u) = {#}"
  by (simp add: after_call_def)

lemma lstep_ids:
  assumes "lstep cf st ev st'"
  shows "image_mset fst (str_reqs st) = image_mset fst (str_reqs st') + image_mset fst (ev_reqs ev)"
  using assms
proof (cases rule: lstep.cases)
  case (quit_swallow i d j r resp err u)
  then have "i \<noteq> j" by auto
  obtain R where R: "\<And>v. sum_list (map trip_reqs ((st_trips st)[i := v])) = R + trip_reqs v"
    "sum_list (map trip_reqs (st_trips st)) = R + trip_reqs (st_trips st ! i)"
    using sum_list_split_at [OF quit_swallow(3), of trip_reqs] by blast
  have "j < length ((st_trips st)[i := PDone d])" using quit_swallow by simp
  then obtain S where S: "\<And>v. sum_list (map trip_reqs ((st_trips st)[i := PDone d, j := v])) = S + trip_reqs v"
    "sum_list (map trip_reqs ((st_trips st)[i := PDone d])) = S + trip_reqs ((st_trips st)[i := PDone d] ! j)"
    using sum_list_split_at [of j _ trip_reqs] by blast
  with R \<open>i \<noteq> j\<close> quit_swallow show ?thesis by (simp add: str_reqs_def)
qed (simp_all add: str_reqs_def ac_simps,
     (erule sum_list_split_at [where f = trip_reqs], simp add: ac_simps)+)

lemma str_reqs_simps [simp]:
  "st_main st = PRun \<Longrightarrow> str_reqs (set_main (PExec q) st) = add_mset q (str_reqs st)"
  "str_reqs (st\<lparr>st_cap := c\<rparr>) = str_reqs st"
  by (simp_all add: str_reqs_def)

text \<open>The forwarder keeps its requests: what is in flight there changes only at its two ends.\<close>

lemma in_flight_fint:
  assumes "preach cf p" and "fint (pi_fwd p) f"
  shows "in_flight f = in_flight (pi_fwd p)"
proof -
  have "preach cf (p\<lparr>pi_fwd := f\<rparr>)" using assms by (blast intro: preach_int pint.forwarder)
  from fwd_order [OF this] fwd_order [OF assms(1)]
  have "handed f @ in_flight f = sent f" "handed (pi_fwd p) @ in_flight (pi_fwd p) = sent (pi_fwd p)"
    by simp_all
  moreover have "handed f = handed (pi_fwd p)" "sent f = sent (pi_fwd p)"
    using assms(2)
    by (cases rule: fint.cases; simp add: upd_buf_def receive_retry_def Let_def split: option.split)+
  ultimately show ?thesis by (metis same_append_eq)
qed

lemma in_flight_fsend: "in_flight (fsend r f) = in_flight f @ [r]"
  by (simp add: in_flight_def fsend_def)

lemma in_flight_fhand:
  assumes "preach cf p" and "pi_sub p = SubLoop" and "b < length (bufs (pi_fwd p))"
    and "bpc (bufs (pi_fwd p) ! b) = BHave r"
  shows "in_flight (pi_fwd p) = r # in_flight (fhand b r (pi_fwd p))"
proof -
  have "preach cf (p\<lparr>pi_sub := SubHave r, pi_fwd := fhand b r (pi_fwd p)\<rparr>)"
    using assms by (blast intro: preach_int pint.take_retry)
  from fwd_order [OF this] fwd_order [OF assms(1)]
  have "handed (fhand b r (pi_fwd p)) @ in_flight (fhand b r (pi_fwd p)) = sent (fhand b r (pi_fwd p))"
    "handed (pi_fwd p) @ in_flight (pi_fwd p) = sent (pi_fwd p)"
    by simp_all
  moreover have "handed (fhand b r (pi_fwd p)) = handed (pi_fwd p) @ [r]"
    "sent (fhand b r (pi_fwd p)) = sent (pi_fwd p)"
    by (simp_all add: fhand_def upd_buf_def)
  ultimately have "handed (pi_fwd p) @ r # in_flight (fhand b r (pi_fwd p)) = handed (pi_fwd p) @ in_flight (pi_fwd p)"
    by simp
  then show ?thesis by simp
qed

lemma ev_do_accounted:
  "k < length (pi_strs p) \<Longrightarrow>
   image_mset fst (str_reqs (pi_strs p ! k)) = image_mset fst (str_reqs st) + image_mset fst (ev_reqs ev) \<Longrightarrow>
   accounted (ev_do ev (set_str k st p)) = accounted p"
  by (erule sum_list_split_at [where f = str_reqs], cases ev)
     (simp_all add: accounted_def under_way_def in_flight_fsend ac_simps)

lemma accounted_pint:
  assumes r: "preach cf p" and "pint cf p p'"
  shows "accounted p' = accounted p"
  using assms(2)
proof (cases rule: pint.cases)
  case (take_retry b q)
  then show ?thesis using in_flight_fhand [OF r take_retry(2-4)]
    by (simp add: accounted_def under_way_def)
next
  case (pass q k)
  then show ?thesis
    by (elim sum_list_split_at [where f = str_reqs])
       (simp add: accounted_def under_way_def)
next
  case (streamer k ev st)
  then show ?thesis using ev_do_accounted lstep_ids by blast
next
  case (forwarder f)
  then show ?thesis using in_flight_fint [OF r] by (simp add: accounted_def under_way_def)
qed (simp_all add: accounted_def under_way_def)

lemma accounted_penv:
  assumes "penv p p'"
  shows "accounted p' + mset [0..<pi_taken p] = accounted p + mset [0..<pi_taken p']"
  using assms
proof (cases rule: penv.cases)
  case (push k q)
  then show ?thesis
    by (elim sum_list_split_at [where f = str_reqs])
       (simp add: accounted_def under_way_def)
next
  case (refresh k c)
  then show ?thesis
    by (elim sum_list_split_at [where f = str_reqs])
       (simp add: accounted_def under_way_def)
qed (simp_all add: accounted_def under_way_def str_reqs_def)

lemma taken_pint: "pint cf p p' \<Longrightarrow> pi_taken p' = pi_taken p"
  by (erule pint.cases) simp_all

lemma all_accounted:
  assumes "preach cf p"
  shows "accounted p = mset [0..<pi_taken p]"
  using assms
proof (induction rule: preach_induct)
  case init
  show ?case by (simp add: accounted_def under_way_def pinit_def finit_def in_flight_def)
next
  case (step p p')
  then show ?case
    using accounted_pint [of cf p p'] accounted_penv [of p p'] taken_pint [of cf p p']
    by (auto simp: pstep_def)
qed

section \<open>Discarded results\<close>

text \<open>The round trips that have found or will report their connection unusable.\<close>

fun quits :: "'j ptrip \<Rightarrow> bool" where
  "quits (PQuit _) = True"
| "quits (PSend _ _ _ u) = u"
| "quits _ = False"

fun ended :: "'j pmain \<Rightarrow> bool" where
  "ended (PEnd _ _) = True"
| "ended _ = False"

definition honest :: "bool \<Rightarrow> 'j pstr \<Rightarrow> bool" where
  "honest out_closed st \<longleftrightarrow>
     (\<forall>i < length (st_trips st). quits (st_trips st ! i) \<longrightarrow> st_broken st) \<and>
     (st_main st = PDrain \<longrightarrow> out_closed) \<and> (ended (st_main st) \<longrightarrow> st_broken st \<or> out_closed)"

lemma quits_after_call [simp]: "quits (after_call d u) = u"
  by (simp add: after_call_def)

lemma honest_quits:
  assumes "honest oc st" and "i < length (st_trips st)"
  shows "st_trips st ! i = PQuit d \<Longrightarrow> st_broken st" "st_trips st ! i = PSend r resp err True \<Longrightarrow> st_broken st"
  using assms unfolding honest_def by force+

lemma honest_set_trip:
  "honest oc st \<Longrightarrow> quits t \<longrightarrow> st_broken st \<Longrightarrow> honest oc (set_trip i t st)"
  by (auto simp: honest_def nth_updated split: if_splits)

lemma honest_broken: "honest oc st \<Longrightarrow> honest oc (note_broken u st)"
  by (auto simp: honest_def)

lemma honest_set_main:
  "honest oc st \<Longrightarrow> (m = PDrain \<longrightarrow> oc) \<Longrightarrow> (ended m \<longrightarrow> st_broken st \<or> oc) \<Longrightarrow> honest oc (set_main m st)"
  by (auto simp: honest_def)

lemma note_broken_set_trip: "note_broken u (set_trip i t st) = set_trip i t (note_broken u st)"
  by (simp add: note_broken_def set_trip_def)

lemma lstep_honest:
  assumes "lstep cf st ev st'" and h: "honest oc st" and c: "ev = SeesClosed \<Longrightarrow> oc"
  shows "honest oc st' \<and> (st_broken st \<longrightarrow> st_broken st') \<and> (\<forall>r. ev = Discard r \<longrightarrow> st_broken st)"
  using assms(1)
proof (cases rule: lstep.cases)
  case (launch r cd)
  with h show ?thesis by (auto simp: honest_def nth_append less_Suc_eq)
next
  case (reply_silent i r resp err u)
  with h show ?thesis by (simp add: note_broken_set_trip honest_set_trip honest_broken)
next
  case (reply_call i r resp err u)
  with h show ?thesis by (simp add: note_broken_set_trip honest_set_trip honest_broken)
next
  case (trip_sent i r resp err u)
  with h honest_quits(2) [OF h, of i] show ?thesis by (cases u) (auto intro: honest_set_trip)
next
  case (quit_swallow i d j r resp err u)
  with h honest_quits(1) [OF h, of i] show ?thesis by (auto intro!: honest_set_trip)
next
  case (quit_loop i d)
  with h honest_quits(1) [OF h, of i] show ?thesis by (auto intro!: honest_set_trip honest_set_main)
next
  case (quit_exec i d r resp err)
  with h honest_quits(1) [OF h, of i] show ?thesis by (auto intro!: honest_set_trip honest_set_main)
next
  case drained
  with h have oc by (simp add: honest_def)
  with drained h show ?thesis by (auto intro!: honest_set_main)
qed (use h c in \<open>auto intro!: honest_set_trip honest_set_main\<close>)

definition pinv :: "'j pipe \<Rightarrow> bool" where
  "pinv p \<longleftrightarrow>
     (\<forall>k < length (pi_strs p). honest (pi_out_closed p) (pi_strs p ! k)) \<and>
     (pi_out_closed p \<longrightarrow> pi_sub p = SubEnd) \<and> (pi_sub p = SubEnd \<longrightarrow> pi_stopping p) \<and>
     (pi_discarded p \<noteq> [] \<longrightarrow> pi_stopping p \<or> (\<exists>k < length (pi_strs p). st_broken (pi_strs p ! k)))"

lemma honest_simps [simp]:
  "st_main st = PRun \<Longrightarrow> honest oc (set_main (PExec q) st) = honest oc st"
  "honest oc (st\<lparr>st_cap := c\<rparr>) = honest oc st"
  by (auto simp: honest_def)

lemma honest_closed: "honest oc st \<Longrightarrow> honest True st"
  by (auto simp: honest_def)

lemma broken_update:
  assumes "st_broken (xs ! k) \<longrightarrow> st_broken st" and "\<exists>i < length xs. st_broken (xs ! i)"
  shows "\<exists>i < length xs. st_broken (xs[k := st] ! i)"
  using assms by (metis nth_list_update_eq nth_list_update_neq)

text \<open>A streamer is replaced by one that is as honest and no less broken.\<close>

lemma pinv_set_str:
  assumes "pinv p" and "honest (pi_out_closed p) st" and "st_broken (pi_strs p ! k) \<longrightarrow> st_broken st"
  shows "pinv (set_str k st p)"
proof -
  have "\<forall>j < length (pi_strs p). honest (pi_out_closed p) ((pi_strs p)[k := st] ! j)"
    using assms(1,2) by (simp add: pinv_def nth_updated)
  with assms(1) broken_update [of "pi_strs p" k st, OF assms(3)] show ?thesis
    unfolding pinv_def by simp blast
qed

lemma pinv_frame:
  "pinv p \<Longrightarrow> pi_sub p \<noteq> SubEnd \<Longrightarrow> s \<noteq> SubEnd \<Longrightarrow> pinv (p\<lparr>pi_sub := s\<rparr>)"
  "pinv p \<Longrightarrow> pinv (p\<lparr>pi_taken := n\<rparr>)" "pinv p \<Longrightarrow> pinv (p\<lparr>pi_fwd := f\<rparr>)"
  "pinv p \<Longrightarrow> pinv (p\<lparr>pi_answered := as\<rparr>)"
  by (auto simp: pinv_def)

lemma pinv_step:
  assumes "pstep cf p p'" and inv: "pinv p"
  shows "pinv p'"
  using assms(1) unfolding pstep_def
proof
  assume "pint cf p p'"
  then show ?thesis
  proof (cases rule: pint.cases)
    case (pass r k)
    have "pinv (set_str k (set_main (PExec r) (pi_strs p ! k)) p)"
      by (rule pinv_set_str) (use inv pass in \<open>auto simp: pinv_def\<close>)
    with pass show ?thesis by (auto intro: pinv_frame)
  next
    case close_out
    with inv show ?thesis by (auto simp: pinv_def intro: honest_closed)
  next
    case (streamer k ev st)
    have h: "honest (pi_out_closed p) (pi_strs p ! k)" using inv streamer(2) by (auto simp: pinv_def)
    have "ev = SeesClosed \<Longrightarrow> pi_out_closed p" using streamer(4) by auto
    note l = lstep_honest [OF streamer(3) h this]
    have s: "pinv (set_str k st p)"
      by (rule pinv_set_str) (use inv l in auto)
    show ?thesis
    proof (cases ev)
      case (Discard r)
      with l streamer(2) have "st_broken ((pi_strs p)[k := st] ! k)" by simp
      with s streamer(1,2) Discard show ?thesis by (auto simp: pinv_def)
    qed (use s streamer in \<open>auto intro: pinv_frame\<close>)
  qed (use inv in \<open>auto simp: pinv_def\<close>)
next
  assume "penv p p'"
  then show ?thesis
  proof (cases rule: penv.cases)
    case (push k q)
    have "pinv (set_str k (set_main (PExec (pi_taken p, q)) (pi_strs p ! k)) p)"
      by (rule pinv_set_str) (use inv push in \<open>auto simp: pinv_def\<close>)
    with push show ?thesis by (auto intro: pinv_frame)
  next
    case (new_streamer c)
    with inv show ?thesis
      by (auto simp: pinv_def nth_append less_Suc_eq honest_def)
  next
    case (refresh k c)
    have "pinv (set_str k ((pi_strs p ! k)\<lparr>st_cap := c\<rparr>) p)"
      by (rule pinv_set_str) (use inv refresh in \<open>auto simp: pinv_def\<close>)
    with refresh show ?thesis by simp
  qed (use inv in \<open>auto simp: pinv_def\<close>)
qed

lemma pinv_reach: "preach cf p \<Longrightarrow> pinv p"
  by (induction rule: preach_induct) (auto simp: pinv_step, simp add: pinv_def pinit_def)

end
