(* ===== verification/Drain.thy ===== *)
theory Drain
  imports Delivery
begin

text \<open>
  Left to itself the pipeline comes to rest: its own steps cannot go on for ever, and while at
  most 602 requests are under way it rests only when all of them have been answered.
\<close>

section \<open>The work left\<close>

text \<open>A request has its remaining attempts and a stage, which its way through an attempt lowers.\<close>

definition attempts_left :: "pconf \<Rightarrow> 'j preq \<Rightarrow> nat" where
  "attempts_left cf r =
     unat (MaxRetries (pc_cfg cf)) - unat (word_of_int (attemptCnt (snd r)) :: u32)"

definition wt :: "pconf \<Rightarrow> nat \<Rightarrow> 'j preq \<Rightarrow> nat" where
  "wt cf stage r = 10 * attempts_left cf r + stage"

fun main_wt :: "pconf \<Rightarrow> 'j pmain \<Rightarrow> nat" where
  "main_wt cf PRun = 3"
| "main_wt cf (PExec r) = wt cf 7 r + 3"
| "main_wt cf (PCall r _ _) = wt cf 5 r + 3"
| "main_wt cf PDrain = 2"
| "main_wt cf (PEnd _ _) = 1"

fun trip_wt :: "pconf \<Rightarrow> 'j ptrip \<Rightarrow> nat" where
  "trip_wt cf (PFlight r) = wt cf 6 r"
| "trip_wt cf (PRetry r) = wt cf 13 r"
| "trip_wt cf (PSend r _ _ _) = wt cf 3 r"
| "trip_wt cf (PQuit _) = 1"
| "trip_wt cf (PDone _) = 0"

definition str_wt :: "pconf \<Rightarrow> 'j pstr \<Rightarrow> nat" where
  "str_wt cf st = main_wt cf (st_main st) + (\<Sum>t \<leftarrow> st_trips st. trip_wt cf t)"

fun ev_wt :: "pconf \<Rightarrow> 'j pev \<Rightarrow> nat" where
  "ev_wt cf (ToRetry r) = wt cf 12 r"
| "ev_wt cf _ = 0"

definition buf_wt :: "pconf \<Rightarrow> 'j preq fbuf \<Rightarrow> nat" where
  "buf_wt cf b = (\<Sum>r \<leftarrow> content b. wt cf 10 r) + (\<Sum>r \<leftarrow> in_hand (bpc b). wt cf 9 r)"

definition fwd_wt :: "pconf \<Rightarrow> 'j preq fwd \<Rightarrow> nat" where
  "fwd_wt cf f = (\<Sum>r \<leftarrow> inq f. wt cf 12 r) + (case hold f of None \<Rightarrow> 0 | Some r \<Rightarrow> wt cf 11 r)
     + (\<Sum>b \<leftarrow> bufs f. buf_wt cf b)"

fun sub_wt :: "pconf \<Rightarrow> 'j psub \<Rightarrow> nat" where
  "sub_wt cf SubLoop = 2"
| "sub_wt cf (SubHave r) = wt cf 8 r + 2"
| "sub_wt cf SubEnd = 1"

definition work :: "pconf \<Rightarrow> 'j pipe \<Rightarrow> nat" where
  "work cf p = sub_wt cf (pi_sub p) + (if pi_out_closed p then 0 else 1) + fwd_wt cf (pi_fwd p)
     + (\<Sum>st \<leftarrow> pi_strs p. str_wt cf st)"

lemma wt_pos [simp]: "0 < n \<Longrightarrow> 0 < wt cf n r"
  by (simp add: wt_def)

lemma wt_mono [simp]: "m < n \<Longrightarrow> wt cf m r < wt cf n r"
  by (simp add: wt_def)

lemma wt_add: "wt cf n r = wt cf 0 r + n"
  by (simp add: wt_def)

lemma wt_retry:
  assumes "after_submit (pc_cfg cf) (snd r) resp err = Retry q"
  shows "wt cf 13 (fst r, q) < wt cf 6 r"
proof -
  note r = after_submit_Retry [OF assms]
  have "unat (word_of_int (attemptCnt q) :: u32) = Suc (unat (word_of_int (attemptCnt (snd r)) :: u32))"
    using word_suc [OF r(4)] by (simp add: r(1))
  moreover have "unat (word_of_int (attemptCnt (snd r)) :: u32) < unat (MaxRetries (pc_cfg cf))"
    using r(4) by (simp add: word_less_nat_alt)
  ultimately show ?thesis by (simp add: wt_def attempts_left_def)
qed

lemma trip_wt_after_call: "1 < n \<Longrightarrow> trip_wt cf (after_call d u) < wt cf n r"
  by (auto simp: after_call_def wt_def)

lemma str_wt_set_trip:
  assumes "i < length (st_trips st)" and "trip_wt cf t + e < trip_wt cf (st_trips st ! i)"
  shows "str_wt cf (set_trip i t st) + e < str_wt cf st"
  using assms by (elim sum_list_split_at [where f = "trip_wt cf"]) (simp add: str_wt_def)

lemma str_wt_set_main:
  "main_wt cf m + e < main_wt cf (st_main st) \<Longrightarrow> str_wt cf (set_main m st) + e < str_wt cf st"
  by (simp add: str_wt_def)

lemma str_wt_exec: "st_main st = PRun \<Longrightarrow> str_wt cf (set_main (PExec r) st) = str_wt cf st + wt cf 7 r"
  by (simp add: str_wt_def)

lemma str_wt_note_broken [simp]: "str_wt cf (note_broken u st) = str_wt cf st"
  by (simp add: str_wt_def)

lemma lstep_wt:
  assumes "lstep cf st ev st'"
  shows "str_wt cf st' + ev_wt cf ev < str_wt cf st"
  using assms
proof (cases rule: lstep.cases)
  case (launch r cd)
  then show ?thesis by (simp add: str_wt_def)
next
  case (reply_retry i r resp err q)
  then show ?thesis using str_wt_set_trip [OF reply_retry(3), of cf _ 0] wt_retry [OF reply_retry(5)]
    by simp
next
  case (reply_silent i r resp err u)
  then show ?thesis
    using str_wt_set_trip [OF reply_silent(3), of cf "after_call True u" 0] trip_wt_after_call [of 6 cf True u r]
    by simp
next
  case (trip_sent i r resp err u)
  then show ?thesis
    using str_wt_set_trip [OF trip_sent(3), of cf "after_call True u" 0] trip_wt_after_call [of 3 cf True u r]
    by simp
next
  case (quit_loop i d)
  then have "str_wt cf (set_trip i (PDone d) st) + 0 < str_wt cf st"
    by (intro str_wt_set_trip) simp_all
  moreover have "str_wt cf (set_main (PEnd True False) (set_trip i (PDone d) st)) + 0
      < str_wt cf (set_trip i (PDone d) st)"
    using quit_loop by (intro str_wt_set_main) simp
  ultimately show ?thesis using quit_loop by simp
next
  case (quit_exec i d r resp err)
  then have "str_wt cf (set_trip i (PDone d) st) + 0 < str_wt cf st"
    by (intro str_wt_set_trip) simp_all
  moreover have "str_wt cf (set_main PRun (set_trip i (PDone d) st)) + 0
      < str_wt cf (set_trip i (PDone d) st)"
    using quit_exec by (intro str_wt_set_main) simp
  ultimately show ?thesis using quit_exec by simp
next
  case (quit_swallow i d j r resp err u)
  then have "i \<noteq> j" by auto
  have "str_wt cf (set_trip i (PDone d) st) + 0 < str_wt cf st"
    using quit_swallow by (intro str_wt_set_trip) simp_all
  moreover have "str_wt cf (set_trip j (after_call False u) (set_trip i (PDone d) st)) + 0
      < str_wt cf (set_trip i (PDone d) st)"
    using quit_swallow \<open>i \<noteq> j\<close> trip_wt_after_call [of 3 cf False u r]
    by (intro str_wt_set_trip) simp_all
  ultimately show ?thesis using quit_swallow by simp
qed (auto intro!: str_wt_set_trip str_wt_set_main [where e = 0, simplified]
       str_wt_set_trip [where e = 0, simplified])

lemma finv_cases:
  assumes "finv f"
  obtains (none) "cur f = None" "bufs f = []" "hold f = None" "fcnt f = 0"
  | (one) b where "cur f = Some 0" "bufs f = [b]" "int (length (content b)) \<le> bufSize" "fcnt f = 0"
      "bpc b = BDone \<longrightarrow> fctl f"
  using assms by (auto simp: finv_def)

lemma fint_wt:
  assumes "finv f" and "fint f f'"
  shows "fwd_wt cf f' < fwd_wt cf f"
  using assms(1)
proof (cases rule: finv_cases)
  case none
  from assms(2) show ?thesis
    by (cases rule: fint.cases)
       (use none in \<open>simp_all add: fwd_wt_def buf_wt_def receive_retry_def Let_def bufSize_def\<close>)
next
  case (one b)
  from assms(2) show ?thesis
    by (cases rule: fint.cases)
       (use one in \<open>simp_all add: fwd_wt_def buf_wt_def receive_retry_def upd_buf_def bufSize_def\<close>)
qed

lemma fhand_wt:
  assumes "b < length (bufs f)" and "bpc (bufs f ! b) = BHave r"
  shows "fwd_wt cf (fhand b r f) + wt cf 9 r = fwd_wt cf f"
proof -
  have "buf_wt cf ((bufs f ! b)\<lparr>bpc := BWait\<rparr>) + wt cf 9 r = buf_wt cf (bufs f ! b)"
    using assms(2) by (simp add: buf_wt_def)
  with assms(1) show ?thesis
    by (elim sum_list_split_at [where f = "buf_wt cf"]) (simp add: fwd_wt_def fhand_def upd_buf_def)
qed

lemma fsend_wt: "fwd_wt cf (fsend r f) = fwd_wt cf f + wt cf 12 r"
  by (simp add: fwd_wt_def fsend_def)

lemma ev_do_fwd_wt: "fwd_wt cf (pi_fwd (ev_do ev p)) = fwd_wt cf (pi_fwd p) + ev_wt cf ev"
  by (cases ev) (simp_all add: fsend_wt)

lemma work_decreases:
  assumes "preach cf p" and "pint cf p p'"
  shows "work cf p' < work cf p"
  using assms(2)
proof (cases rule: pint.cases)
  case (take_retry b r)
  then show ?thesis using fhand_wt [OF take_retry(3,4), of cf] by (simp add: work_def wt_add [of cf 9] wt_add [of cf 8])
next
  case (pass r k)
  then show ?thesis
    by (elim sum_list_split_at [where f = "str_wt cf"])
       (simp add: work_def str_wt_exec wt_add [of cf 7] wt_add [of cf 8])
next
  case (streamer k ev st)
  show ?thesis using streamer(1,2) lstep_wt [OF streamer(3)] ev_do_fwd_wt [of cf ev "set_str k st p"]
    by (elim sum_list_split_at [where f = "str_wt cf"]) (simp add: work_def)
next
  case (forwarder f)
  then show ?thesis using fint_wt [OF finv_reach [OF fwd_reach [OF assms(1)]] forwarder(2), of cf]
    by (simp add: work_def)
qed (simp_all add: work_def)

lemma int_steps_bounded:
  assumes "preach cf p" and "(pint cf ^^ n) p q"
  shows "preach cf q \<and> n + work cf q \<le> work cf p"
  using assms(2)
proof (induction n arbitrary: q)
  case 0
  with assms(1) show ?case by simp
next
  case (Suc n)
  then obtain r where r: "(pint cf ^^ n) p r" "pint cf r q" by auto
  from Suc.IH [OF r(1)] have "preach cf r" "n + work cf r \<le> work cf p" by auto
  with work_decreases [OF _ r(2)] preach_int [OF _ r(2)] show ?case by fastforce
qed

section \<open>Rest\<close>

definition at_rest :: "pconf \<Rightarrow> 'j pipe \<Rightarrow> bool" where
  "at_rest cf p \<longleftrightarrow> (\<forall>p'. \<not> pint cf p p')"

fun running :: "'j pmain \<Rightarrow> bool" where
  "running PDrain = False"
| "running (PEnd _ _) = False"
| "running _ = True"

lemma fwd_rest:
  assumes inv: "finv f" and "\<not> fctl f" "\<not> fdone f" and rest: "\<forall>f'. \<not> fint f f'"
  shows "in_flight f \<noteq> [] \<Longrightarrow> \<exists>x r. bufs f = [x] \<and> bpc x = BHave r"
    and "length (inq f) = retry_cap \<Longrightarrow> length (in_flight f) = 602"
proof -
  have h: "hold f \<noteq> None" if "inq f \<noteq> []"
    using that rest assms(3) by (metis fint.recv neq_Nil_conv)
  have c: "length (content (bufs f ! b)) \<ge> 500" if "hold f = Some r" "cur f = Some b" for b r
    using fint.put [of f r b] rest that by (force simp: bufSize_def)
  have t: "content (bufs f ! b) = []" if "b < length (bufs f)" "bpc (bufs f ! b) = BWait" for b
    using that rest by (metis fint.b_take neq_Nil_conv)
  from inv show "in_flight f \<noteq> [] \<Longrightarrow> \<exists>x r. bufs f = [x] \<and> bpc x = BHave r"
  proof (cases rule: finv_cases)
    case none
    with h show "in_flight f \<noteq> [] \<Longrightarrow> ?thesis" by (cases "inq f") (auto simp: in_flight_def)
  next
    case (one b)
    show ?thesis if ne: "in_flight f \<noteq> []"
    proof (cases "bpc b")
      case BWait
      with t [of 0] one have "content b = []" by simp
      with c one have "hold f = None" by fastforce
      with h have "inq f = []" by blast
      with \<open>content b = []\<close> \<open>hold f = None\<close> BWait one ne show ?thesis by (simp add: in_flight_def)
    qed (use one assms(2) in auto)
  qed
  from inv show "length (inq f) = retry_cap \<Longrightarrow> length (in_flight f) = 602"
  proof (cases rule: finv_cases)
    case none
    with h show "length (inq f) = retry_cap \<Longrightarrow> ?thesis" by (cases "inq f") (auto simp: retry_cap_def)
  next
    case (one b)
    show ?thesis if q: "length (inq f) = retry_cap"
    proof -
      from q h obtain r where r: "hold f = Some r" by (force simp: retry_cap_def)
      with c one have "length (content b) = 500" by (fastforce simp: bufSize_def)
      moreover have "bpc b \<noteq> BWait" using t [of 0] one calculation by force
      ultimately show ?thesis using r q one assms(2)
        by (cases "bpc b") (simp_all add: in_flight_def retry_cap_def)
    qed
  qed
qed

text \<open>What cannot be waiting when the pipeline is at rest.\<close>

lemma at_rest_streamer:
  "at_rest cf p \<Longrightarrow> k < length (pi_strs p) \<Longrightarrow> lstep cf (pi_strs p ! k) ev st \<Longrightarrow> \<not> ev_ok ev p"
  unfolding at_rest_def by (blast intro: pint.streamer)

lemma trip_at_rest:
  assumes "at_rest cf p" and "k < length (pi_strs p)" and i: "i < length (st_trips (pi_strs p ! k))"
  shows "(\<exists>d. st_trips (pi_strs p ! k) ! i = PDone d) \<or>
    (\<exists>r. st_trips (pi_strs p ! k) ! i = PRetry r) \<and> \<not> length (inq (pi_fwd p)) < retry_cap"
proof (cases "st_trips (pi_strs p ! k) ! i")
  case (PFlight r)
  have "after_submit (pc_cfg cf) (snd r) None None = Finish False"
    by (simp add: after_submit_def isConnUsable_def)
  from lstep.reply_silent [OF i PFlight this] lstep.reply_call [OF i PFlight this] show ?thesis
    using at_rest_streamer [OF assms(1,2)] by (cases "silent cf (snd r)") fastforce+
next
  case (PRetry r)
  from lstep.trip_retry [OF i this] PRetry show ?thesis
    using at_rest_streamer [OF assms(1,2)] by fastforce
next
  case (PSend r resp err u)
  from lstep.trip_sent [OF i this] show ?thesis
    using at_rest_streamer [OF assms(1,2)] by fastforce
next
  case (PQuit d)
  from lstep.quit_dropped [OF i this] show ?thesis
    using at_rest_streamer [OF assms(1,2)] by fastforce
qed simp

lemma main_at_rest:
  assumes "at_rest cf p" and "k < length (pi_strs p)"
    and fin: "\<forall>t \<in> set (st_trips (pi_strs p ! k)). \<not> holds_stream t"
  shows "main_reqs (st_main (pi_strs p ! k)) = {#}"
proof (cases "st_main (pi_strs p ! k)")
  case (PExec r)
  have n: "\<not> no_stream (pi_strs p ! k)"
    using fin by (simp add: no_stream_def filter_False word_gt_0 unat_gt_0)
  show ?thesis
  proof (cases "exec (pc_cert cf) (pc_signer cf) False None (snd r)")
    case (ExecReport e)
    from lstep.exec_silent [OF PExec this] lstep.exec_call [OF PExec this] show ?thesis
      using at_rest_streamer [OF assms(1,2)] by (cases "silent cf (snd r)") fastforce+
  next
    case ExecRoundTrip
    from lstep.launch [OF PExec this n] show ?thesis
      using at_rest_streamer [OF assms(1,2)] by fastforce
  qed
next
  case (PCall r resp err)
  from lstep.exec_sent [OF this] show ?thesis
    using at_rest_streamer [OF assms(1,2)] by fastforce
qed simp_all

lemma size_under_way:
  assumes "k < length (pi_strs p)"
  shows "length (in_flight (pi_fwd p)) + size (str_reqs (pi_strs p ! k)) \<le> size (under_way p)"
  using assms by (elim sum_list_split_at [where f = str_reqs]) (simp add: under_way_def)

lemma size_str_reqs:
  assumes "i < length (st_trips st)"
  shows "size (trip_reqs (st_trips st ! i)) \<le> size (str_reqs st)"
  using assms by (elim sum_list_split_at [where f = trip_reqs]) (simp add: str_reqs_def)

text \<open>At rest the forwarder is not full when at most 602 requests are under way.\<close>

lemma trips_at_rest:
  assumes "preach cf p" "at_rest cf p" "k < length (pi_strs p)" "size (under_way p) \<le> 602"
  shows "\<forall>t \<in> set (st_trips (pi_strs p ! k)). \<exists>d. t = PDone d"
proof (rule ballI)
  fix t assume "t \<in> set (st_trips (pi_strs p ! k))"
  then obtain i where i: "i < length (st_trips (pi_strs p ! k))" "st_trips (pi_strs p ! k) ! i = t"
    by (auto simp: in_set_conv_nth)
  have inv: "finv (pi_fwd p)" using assms(1) by (intro finv_reach fwd_reach)
  have rest: "\<forall>f'. \<not> fint (pi_fwd p) f'" using assms(2) by (auto simp: at_rest_def intro: pint.forwarder)
  from trip_at_rest [OF assms(2,3) i(1)] show "\<exists>d. t = PDone d"
  proof
    assume "(\<exists>r. st_trips (pi_strs p ! k) ! i = PRetry r) \<and> \<not> length (inq (pi_fwd p)) < retry_cap"
    then obtain r where r: "t = PRetry r" and "\<not> length (inq (pi_fwd p)) < retry_cap" using i by auto
    moreover from inv have "length (inq (pi_fwd p)) \<le> retry_cap" by (simp add: finv_def)
    ultimately have "length (in_flight (pi_fwd p)) = 602"
      using fwd_rest(2) [OF inv _ _ rest] fwd_no_hard_stop [OF assms(1)] by simp
    moreover have "1 \<le> size (str_reqs (pi_strs p ! k))"
      using size_str_reqs [OF i(1)] i r by simp
    ultimately show ?thesis using size_under_way [OF assms(3)] assms(4) by simp
  qed (use i in simp)
qed

lemma rest_is_empty:
  assumes r: "preach cf p" and rest: "at_rest cf p" and ns: "\<not> pi_stopping p"
    and k: "k < length (pi_strs p)" "running (st_main (pi_strs p ! k))"
    and n: "size (under_way p) \<le> 602"
  shows "under_way p = {#}"
proof -
  have t: "\<forall>t \<in> set (st_trips (pi_strs p ! j)). \<exists>d. t = PDone d" if "j < length (pi_strs p)" for j
    using trips_at_rest [OF r rest that n] .
  have m: "main_reqs (st_main (pi_strs p ! j)) = {#}" if "j < length (pi_strs p)" for j
    by (rule main_at_rest [OF rest that]) (use t [OF that] in auto)
  have "str_reqs (pi_strs p ! j) = {#}" if "j < length (pi_strs p)" for j
    using m [OF that] t [OF that] sum_list_all_zero [of "st_trips (pi_strs p ! j)" trip_reqs]
    by (force simp: str_reqs_def)
  then have s: "(\<Sum>st \<leftarrow> pi_strs p. str_reqs st) = {#}"
    by (intro sum_list_all_zero) (auto simp: in_set_conv_nth)
  from m [OF k(1)] k(2) have run: "st_main (pi_strs p ! k) = PRun"
    by (cases "st_main (pi_strs p ! k)") simp_all
  have "pi_sub p \<noteq> SubHave q" for q
    using rest pint.pass [OF _ k(1) run] unfolding at_rest_def by blast
  moreover have "pi_sub p \<noteq> SubEnd" using pinv_reach [OF r] ns by (auto simp: pinv_def)
  ultimately have sub: "pi_sub p = SubLoop" by (cases "pi_sub p") auto
  have "in_flight (pi_fwd p) = []"
  proof (rule ccontr)
    assume ne: "in_flight (pi_fwd p) \<noteq> []"
    have "\<forall>f'. \<not> fint (pi_fwd p) f'" using rest by (auto simp: at_rest_def intro: pint.forwarder)
    from fwd_rest(1) [OF finv_reach [OF fwd_reach [OF r]] _ _ this ne] fwd_no_hard_stop [OF r]
    obtain x q where "bufs (pi_fwd p) = [x]" "bpc x = BHave q" by blast
    then show False using rest pint.take_retry [OF sub, of 0 q] by (auto simp: at_rest_def)
  qed
  with sub s show ?thesis by (simp add: under_way_def)
qed

end
