(* ===== verification/Flow.thy ===== *)
theory Flow
  imports Drain
begin

text \<open>
  What the pipeline guarantees, and its runs with one streamer and one stream. They show that
  the bound of the theory \<open>Drain\<close> is needed, for with a few more requests the pipeline stalls,
  and that a soft stop can leave a retry behind.
\<close>

section \<open>One streamer with one stream\<close>

definition retry_conf :: pconf where
  "retry_conf = \<lparr>pc_cfg = MinBlockingProcConfig\<lparr>MaxRetries := 1, RetryEval := Some (\<lambda>_ _. True)\<rparr>,
     pc_cert = True, pc_signer = DefaultSigner, pc_out = NoCallback\<rparr>"

definition retried :: "nat Request" where
  "retried = sample_request\<lparr>attemptCnt := 1\<rparr>"

text \<open>Request \<open>i\<close> when it is taken, and on its way to its second attempt.\<close>

abbreviation fresh :: "nat \<Rightarrow> nat preq" where
  "fresh i \<equiv> (i, sample_request)"

abbreviation again :: "nat \<Rightarrow> nat preq" where
  "again i \<equiv> (i, retried)"

definition solo :: "nat \<Rightarrow> nat psub \<Rightarrow> nat pmain \<Rightarrow> nat ptrip list \<Rightarrow> nat preq fwd \<Rightarrow> nat pipe" where
  "solo n sb m ts f = \<lparr>pi_sub = sb, pi_stopping = False, pi_out_closed = False,
     pi_strs = [\<lparr>st_main = m, st_trips = ts, st_cap = 1, st_broken = False\<rparr>], pi_fwd = f,
     pi_taken = n, pi_answered = [], pi_discarded = []\<rparr>"

text \<open>The service's answer cannot be decoded.\<close>

lemma undecodable_retried:
  "after_submit (pc_cfg retry_conf) sample_request (Some zero_Response) (Some (RequestError (Foreign ''invalid character''))) =
     Retry retried"
  by (simp add: after_submit_def isRetriable_def retry_conf_def sample_request_def retried_def)

lemma sample_exec: "exec (pc_cert retry_conf) (pc_signer retry_conf) cd None sample_request = ExecRoundTrip"
  by (simp add: exec_def exec_missing_auth_def retry_conf_def sample_request_def)

lemma sample_no_report:
  "exec (pc_cert retry_conf) (pc_signer retry_conf) cd res sample_request = ExecReport e \<Longrightarrow>
   \<not> (res = None \<or> reqContext sample_request \<noteq> NoContext)"
  by (auto simp: exec_def exec_missing_auth_def retry_conf_def sample_request_def split: option.splits)

lemma solo_start: "preach cf (solo 0 SubLoop PRun [] finit)"
  using preach_env [OF preach_init penv.new_streamer [of pinit 1]] by (simp add: pinit_def solo_def)

lemma solo_take:
  assumes "preach cf (solo n SubLoop m ts f)"
  shows "preach cf (solo (Suc n) (SubHave (fresh n)) m ts f)"
  using preach_env [OF assms penv.take [of _ sample_request]] by (simp add: solo_def sample_request_def)

lemma solo_pass:
  assumes "preach cf (solo n (SubHave r) PRun ts f)"
  shows "preach cf (solo n SubLoop (PExec r) ts f)"
  using preach_int [OF assms pint.pass [of _ r 0]] by (simp add: solo_def set_str_def set_main_def)

lemma solo_streamer:
  assumes "preach cf (solo n sb m ts f)"
    and "lstep cf \<lparr>st_main = m, st_trips = ts, st_cap = 1, st_broken = False\<rparr> Quiet
           \<lparr>st_main = m', st_trips = ts', st_cap = 1, st_broken = False\<rparr>"
  shows "preach cf (solo n sb m' ts' f)"
  using preach_int [OF assms(1) pint.streamer [of 0]] assms(2) by (force simp: solo_def set_str_def)

lemma solo_launch:
  assumes "preach retry_conf (solo n sb (PExec (fresh i)) ts f)" and "\<forall>t \<in> set ts. \<not> holds_stream t"
  shows "preach retry_conf (solo n sb PRun (ts @ [PFlight (fresh i)]) f)"
proof (rule solo_streamer [OF assms(1)])
  show "lstep retry_conf \<lparr>st_main = PExec (fresh i), st_trips = ts, st_cap = 1, st_broken = False\<rparr> Quiet
     \<lparr>st_main = PRun, st_trips = ts @ [PFlight (fresh i)], st_cap = 1, st_broken = False\<rparr>"
    using lstep.launch [of "\<lparr>st_main = PExec (fresh i), st_trips = ts, st_cap = 1, st_broken = False\<rparr>"
        "fresh i" retry_conf False] sample_exec assms(2)
    by (simp add: set_main_def no_stream_def filter_False)
qed

lemma solo_reply:
  assumes "preach retry_conf (solo n sb m (ts @ [PFlight (fresh i)]) f)"
  shows "preach retry_conf (solo n sb m (ts @ [PRetry (again i)]) f)"
proof (rule solo_streamer [OF assms])
  show "lstep retry_conf \<lparr>st_main = m, st_trips = ts @ [PFlight (fresh i)], st_cap = 1, st_broken = False\<rparr> Quiet
     \<lparr>st_main = m, st_trips = ts @ [PRetry (again i)], st_cap = 1, st_broken = False\<rparr>"
    using lstep.reply_retry [of "length ts" "\<lparr>st_main = m, st_trips = ts @ [PFlight (fresh i)], st_cap = 1, st_broken = False\<rparr>"
        "fresh i" retry_conf] undecodable_retried
    by (simp add: set_trip_def)
qed

lemma solo_send:
  assumes "preach cf (solo n sb m (ts @ [PRetry r]) f)" and "length (inq f) < 100"
  shows "preach cf (solo n sb m (ts @ [PDone True]) (fsend r f))"
proof -
  have "lstep cf \<lparr>st_main = m, st_trips = ts @ [PRetry r], st_cap = 1, st_broken = False\<rparr> (ToRetry r)
     \<lparr>st_main = m, st_trips = ts @ [PDone True], st_cap = 1, st_broken = False\<rparr>"
    using lstep.trip_retry [of "length ts" "\<lparr>st_main = m, st_trips = ts @ [PRetry r], st_cap = 1, st_broken = False\<rparr>" r cf]
    by (simp add: set_trip_def)
  with preach_int [OF assms(1) pint.streamer [of 0]] assms(2) show ?thesis
    by (force simp: solo_def set_str_def retry_cap_def)
qed

lemma solo_forwarder:
  assumes "preach cf (solo n sb m ts f)" and "fint f f'"
  shows "preach cf (solo n sb m ts f')"
  using preach_int [OF assms(1) pint.forwarder] assms(2) by (force simp: solo_def)

text \<open>A request is taken, cannot be decoded and is at its send to the forwarder.\<close>

lemma solo_cycle:
  assumes "preach retry_conf (solo n SubLoop PRun ts f)" and "\<forall>t \<in> set ts. \<not> holds_stream t"
  shows "preach retry_conf (solo (Suc n) SubLoop PRun (ts @ [PRetry (again n)]) f)"
  using solo_reply [OF solo_launch [OF solo_pass [OF solo_take [OF assms(1)]] assms(2)]] .

section \<open>Filling the forwarder\<close>

text \<open>The only buffer has content \<open>c\<close>, its forwarder holds request 0, and \<open>n\<close> retries were sent.\<close>

definition filled :: "nat preq list \<Rightarrow> nat preq option \<Rightarrow> nat preq list \<Rightarrow> nat preq list \<Rightarrow> nat preq fwd" where
  "filled q h c s = \<lparr>inq = q, hold = h, cur = Some 0,
     bufs = [\<lparr>content = c, fclosed = False, bpc = BHave (again 0)\<rparr>],
     fcnt = 0, fctl = False, fdone = False, sent = s, handed = []\<rparr>"

abbreviation ended_trips :: "nat \<Rightarrow> nat ptrip list" where
  "ended_trips n \<equiv> replicate n (PDone True)"

lemma solo_retry:
  assumes "preach retry_conf (solo n SubLoop PRun (ended_trips n) f)" and "length (inq f) < 100"
  shows "preach retry_conf (solo (Suc n) SubLoop PRun (ended_trips (Suc n)) (fsend (again n) f))"
  using solo_send [OF solo_cycle [OF assms(1)] assms(2)] by (simp add: replicate_append_same)

lemma filled_send [simp]: "fsend r (filled q h c s) = filled (q @ [r]) h c (s @ [r])"
  by (simp add: fsend_def filled_def)

lemma inq_filled [simp]: "inq (filled q h c s) = q"
  by (simp add: filled_def)

lemma filled_recv: "fint (filled (r # q) None c s) (filled q (Some r) c s)"
  using fint.recv [of "filled (r # q) None c s" r q]
  by (simp add: filled_def receive_retry_def bufSize_def)

lemma filled_put: "length c < 500 \<Longrightarrow> fint (filled q (Some r) c s) (filled q None (c @ [r]) s)"
  using fint.put [of "filled q (Some r) c s" r 0] by (simp add: filled_def upd_buf_def bufSize_def)

lemma first_retry:
  "preach retry_conf (solo 1 SubLoop PRun (ended_trips 1) (filled [] None [] [again 0]))"
proof -
  have "preach retry_conf (solo 0 SubLoop PRun (ended_trips 0) finit)" using solo_start by simp
  from solo_retry [OF this]
  have s: "preach retry_conf (solo 1 SubLoop PRun (ended_trips 1) (fsend (again 0) finit))"
    by (simp add: finit_def)
  let ?b = "\<lambda>c p. \<lparr>content = c, fclosed = False, bpc = p\<rparr>"
  let ?f = "\<lambda>h b. \<lparr>inq = [], hold = h, cur = Some 0, bufs = [b], fcnt = 0, fctl = False,
      fdone = False, sent = [again 0], handed = []\<rparr>"
  have "fint (fsend (again 0) finit) (?f (Some (again 0)) (?b [] BWait))"
    using fint.recv [of "fsend (again 0) finit" "again 0" "[]"]
    by (simp add: fsend_def finit_def receive_retry_def)
  note s = solo_forwarder [OF s this]
  have "fint (?f (Some (again 0)) (?b [] BWait)) (?f None (?b [again 0] BWait))"
    using fint.put [of "?f (Some (again 0)) (?b [] BWait)" "again 0" 0] by (simp add: upd_buf_def bufSize_def)
  note s = solo_forwarder [OF s this]
  have "fint (?f None (?b [again 0] BWait)) (filled [] None [] [again 0])"
    using fint.b_take [of 0 "?f None (?b [again 0] BWait)" "again 0" "[]"]
    by (simp add: upd_buf_def filled_def)
  from solo_forwarder [OF s this] show ?thesis .
qed

lemma fill_buffer:
  "k \<le> 500 \<Longrightarrow> preach retry_conf (solo (Suc k) SubLoop PRun (ended_trips (Suc k))
     (filled [] None (map again [1..<Suc k]) (map again [0..<Suc k])))"
proof (induction k)
  case 0
  show ?case using first_retry by simp
next
  case (Suc k)
  then have "preach retry_conf (solo (Suc k) SubLoop PRun (ended_trips (Suc k))
     (filled [] None (map again [1..<Suc k]) (map again [0..<Suc k])))" by simp
  from solo_retry [OF this]
  have "preach retry_conf (solo (Suc (Suc k)) SubLoop PRun (ended_trips (Suc (Suc k)))
     (filled [again (Suc k)] None (map again [1..<Suc k]) (map again [0..<Suc (Suc k)])))"
    by simp
  from solo_forwarder [OF solo_forwarder [OF this filled_recv] filled_put] Suc.prems
  show ?case by simp
qed

lemma fill_queue:
  assumes "502 \<le> m"
  shows "m \<le> 602 \<Longrightarrow> preach retry_conf (solo m SubLoop PRun (ended_trips m)
     (filled (map again [502..<m]) (Some (again 501)) (map again [1..<501]) (map again [0..<m])))"
  using assms
proof (induction m rule: nat_induct_at_least)
  case base
  from fill_buffer [of 500]
  have "preach retry_conf (solo 501 SubLoop PRun (ended_trips 501)
     (filled [] None (map again [1..<501]) (map again [0..<501])))" by (simp only: eval_nat_numeral)
  from solo_retry [OF this]
  have "preach retry_conf (solo 502 SubLoop PRun (ended_trips 502)
     (filled [again 501] None (map again [1..<501]) (map again [0..<501] @ [again 501])))"
    by simp
  moreover have "map again [0..<501] @ [again 501] = map again [0..<502]"
    using upt_Suc_append [of 0 501] by simp
  ultimately have "preach retry_conf (solo 502 SubLoop PRun (ended_trips 502)
     (filled [again 501] None (map again [1..<501]) (map again [0..<502])))" by (simp only:)
  from solo_forwarder [OF this filled_recv] show ?case by simp
next
  case (Suc m)
  then have "preach retry_conf (solo m SubLoop PRun (ended_trips m)
     (filled (map again [502..<m]) (Some (again 501)) (map again [1..<501]) (map again [0..<m])))" by simp
  from solo_retry [OF this] Suc show ?case by simp
qed

section \<open>The stall\<close>

text \<open>
  After 605 requests, all undecodable: the forwarder is full, a round trip holds the only
  stream at its send to the forwarder, the streamer waits for a stream and the submitter for
  the streamer.
\<close>

definition stalled :: "nat pipe" where
  "stalled = solo 605 (SubHave (fresh 604)) (PExec (fresh 603)) (ended_trips 602 @ [PRetry (again 602)])
     (filled (map again [502..<602]) (Some (again 501)) (map again [1..<501]) (map again [0..<602]))"

lemma stalled_reach: "preach retry_conf stalled"
proof -
  have "preach retry_conf (solo 602 SubLoop PRun (ended_trips 602)
     (filled (map again [502..<602]) (Some (again 501)) (map again [1..<501]) (map again [0..<602])))"
    using fill_queue [of 602] by simp
  from solo_take [OF solo_pass [OF solo_take [OF solo_cycle [OF this]]]] show ?thesis
    by (simp add: stalled_def)
qed

lemma no_fint_filled: "length c = 500 \<Longrightarrow> \<not> fint (filled q (Some r) c s) f"
  by (auto simp: filled_def bufSize_def elim!: fint.cases)

lemma no_lstep_stalled:
  assumes "lstep retry_conf \<lparr>st_main = PExec (fresh i), st_trips = ended_trips n @ [PRetry r],
     st_cap = 1, st_broken = False\<rparr> ev st"
  shows "ev = ToRetry r"
proof -
  have t: "t = PDone True \<or> t = PRetry r"
    if "j < Suc n" "(ended_trips n @ [PRetry r]) ! j = t" for j and t :: "nat ptrip"
    using that by (auto simp: nth_append split: if_splits)
  from assms show ?thesis
    by (cases rule: lstep.cases)
       (auto simp: no_stream_def filter_False dest: t sample_no_report)
qed

lemma stalled_at_rest: "at_rest retry_conf stalled"
  unfolding at_rest_def
proof (intro allI notI)
  fix p' assume "pint retry_conf stalled p'"
  then show False
  proof (cases rule: pint.cases)
    case (streamer k ev st)
    then have "k = 0" by (simp add: stalled_def solo_def)
    with streamer(3) have "ev = ToRetry (again 602)"
      by (intro no_lstep_stalled) (simp add: stalled_def solo_def)
    with streamer(4) show ?thesis by (simp add: stalled_def solo_def filled_def retry_cap_def)
  next
    case (forwarder f)
    then show ?thesis using no_fint_filled by (simp add: stalled_def solo_def)
  qed (simp_all add: stalled_def solo_def)
qed

text \<open>\<open>Stop\<close> ends the submitter and closes the outbound channel; the streamer is as it was.\<close>

definition stop_stalled :: "nat pipe" where
  "stop_stalled = stalled\<lparr>pi_sub := SubEnd, pi_stopping := True, pi_out_closed := True,
     pi_discarded := [fresh 604]\<rparr>"

lemma stop_stalled_reach: "preach retry_conf stop_stalled"
proof -
  note s = preach_env [OF stalled_reach penv.stop]
  have "pint retry_conf (stalled\<lparr>pi_stopping := True\<rparr>)
     (stalled\<lparr>pi_sub := SubLoop, pi_stopping := True, pi_discarded := [fresh 604]\<rparr>)"
    using pint.interrupted [of "stalled\<lparr>pi_stopping := True\<rparr>" "fresh 604"]
    by (simp add: stalled_def solo_def)
  note s = preach_int [OF s this]
  have "pint retry_conf (stalled\<lparr>pi_sub := SubLoop, pi_stopping := True, pi_discarded := [fresh 604]\<rparr>)
     (stalled\<lparr>pi_sub := SubEnd, pi_stopping := True, pi_discarded := [fresh 604]\<rparr>)"
    using pint.sub_end [of "stalled\<lparr>pi_sub := SubLoop, pi_stopping := True, pi_discarded := [fresh 604]\<rparr>"]
    by (simp add: stalled_def solo_def)
  note s = preach_int [OF s this]
  have "pint retry_conf (stalled\<lparr>pi_sub := SubEnd, pi_stopping := True, pi_discarded := [fresh 604]\<rparr>) stop_stalled"
    using pint.close_out [of "stalled\<lparr>pi_sub := SubEnd, pi_stopping := True, pi_discarded := [fresh 604]\<rparr>"]
    by (simp add: stalled_def solo_def stop_stalled_def)
  from preach_int [OF s this] show ?thesis .
qed

lemma stop_stalled_at_rest: "at_rest retry_conf stop_stalled"
  unfolding at_rest_def
proof (intro allI notI)
  fix p' assume "pint retry_conf stop_stalled p'"
  then show False
  proof (cases rule: pint.cases)
    case (streamer k ev st)
    then have "k = 0" by (simp add: stop_stalled_def stalled_def solo_def)
    with streamer(3) have "ev = ToRetry (again 602)"
      by (intro no_lstep_stalled) (simp add: stop_stalled_def stalled_def solo_def)
    with streamer(4) show ?thesis by (simp add: stop_stalled_def stalled_def solo_def filled_def retry_cap_def)
  next
    case (forwarder f)
    then show ?thesis using no_fint_filled by (simp add: stop_stalled_def stalled_def solo_def)
  qed (simp_all add: stop_stalled_def stalled_def solo_def)
qed

section \<open>A retry left behind\<close>

text \<open>\<open>Stop\<close> while a retry waits in the forwarder; the streamer has seen the closed channel and ended.\<close>

definition left_behind :: "nat pipe" where
  "left_behind = (solo 1 SubEnd (PEnd False True) (ended_trips 1) (filled [] None [] [again 0]))
     \<lparr>pi_stopping := True, pi_out_closed := True\<rparr>"

lemma left_behind_reach: "preach retry_conf left_behind"
proof -
  let ?s = "\<lambda>sb m c. (solo 1 sb m (ended_trips 1) (filled [] None [] [again 0]))
     \<lparr>pi_stopping := True, pi_out_closed := c\<rparr>"
  let ?st = "\<lambda>m. \<lparr>st_main = m, st_trips = ended_trips 1, st_cap = 1, st_broken = False\<rparr>"
  from preach_env [OF first_retry penv.stop]
  have s: "preach retry_conf (?s SubLoop PRun False)" by (simp add: solo_def)
  have "pint retry_conf (?s SubLoop PRun False) (?s SubEnd PRun False)"
    using pint.sub_end [of "?s SubLoop PRun False"] by (simp add: solo_def)
  note s = preach_int [OF s this]
  have "pint retry_conf (?s SubEnd PRun False) (?s SubEnd PRun True)"
    using pint.close_out [of "?s SubEnd PRun False"] by (simp add: solo_def)
  note s = preach_int [OF s this]
  have "lstep retry_conf (?st PRun) SeesClosed (?st PDrain)"
    using lstep.sees_closed [of "?st PRun"] by (simp add: set_main_def)
  then have "pint retry_conf (?s SubEnd PRun True) (?s SubEnd PDrain True)"
    using pint.streamer [of 0 "?s SubEnd PRun True" retry_conf SeesClosed "?st PDrain"]
    by (simp add: solo_def set_str_def)
  note s = preach_int [OF s this]
  have "lstep retry_conf (?st PDrain) Quiet (?st (PEnd False True))"
    using lstep.drained [of "?st PDrain"] by (simp add: set_main_def)
  then have "pint retry_conf (?s SubEnd PDrain True) (?s SubEnd (PEnd False True) True)"
    using pint.streamer [of 0 "?s SubEnd PDrain True" retry_conf Quiet "?st (PEnd False True)"]
    by (simp add: solo_def set_str_def)
  from preach_int [OF s this] show ?thesis by (simp add: left_behind_def)
qed

lemma left_behind_at_rest: "at_rest retry_conf left_behind"
  unfolding at_rest_def
proof (intro allI notI)
  fix p' assume "pint retry_conf left_behind p'"
  then show False
  proof (cases rule: pint.cases)
    case (streamer k ev st)
    then have "lstep retry_conf \<lparr>st_main = PEnd False True, st_trips = ended_trips 1, st_cap = 1,
        st_broken = False\<rparr> ev st" by (simp add: left_behind_def solo_def)
    then show ?thesis by (cases rule: lstep.cases) auto
  next
    case (forwarder f)
    then have "fint (filled [] None [] [again 0]) f" by (simp add: left_behind_def solo_def)
    then show ?thesis by (auto simp: filled_def elim!: fint.cases)
  qed (simp_all add: left_behind_def solo_def)
qed

section \<open>A request answered\<close>

definition one_flight :: "nat pipe" where
  "one_flight = solo 1 SubLoop PRun [PFlight (fresh 0)] finit"

definition one_answered :: "nat pipe" where
  "one_answered = (solo 1 SubLoop PRun [PDone True] finit)
     \<lparr>pi_answered := [(0, callBack_result sample_request None None)]\<rparr>"

lemma one_flight_reach: "preach retry_conf one_flight"
proof -
  have "preach retry_conf (solo 1 SubLoop (PExec (fresh 0)) [] finit)"
    using solo_pass [OF solo_take [OF solo_start]] by simp
  from solo_launch [OF this] show ?thesis by (simp add: one_flight_def)
qed

lemma one_answer_step: "pint retry_conf one_flight one_answered"
proof -
  let ?st = "\<lambda>t. \<lparr>st_main = PRun, st_trips = [t], st_cap = 1, st_broken = False\<rparr>"
  have "lstep retry_conf (?st (PFlight (fresh 0))) (Answer (fresh 0) None None) (?st (PDone True))"
    using lstep.reply_silent [of 0 "?st (PFlight (fresh 0))" "fresh 0" retry_conf None None False]
    by (simp add: after_submit_def isConnUsable_def silent_def callBack_target_def retry_conf_def
        sample_request_def note_broken_def set_trip_def after_call_def)
  then show ?thesis
    using pint.streamer [of 0 one_flight retry_conf _ "?st (PDone True)"]
    by (force simp: one_flight_def one_answered_def solo_def set_str_def)
qed

lemma one_answered_at_rest: "at_rest retry_conf one_answered"
  unfolding at_rest_def
proof (intro allI notI)
  fix p' assume "pint retry_conf one_answered p'"
  then show False
  proof (cases rule: pint.cases)
    case (streamer k ev st)
    then have "k = 0" by (simp add: one_answered_def solo_def)
    with streamer have "lstep retry_conf \<lparr>st_main = PRun, st_trips = [PDone True], st_cap = 1,
        st_broken = False\<rparr> ev st" by (simp add: one_answered_def solo_def)
    then have "ev = SeesClosed" by (cases rule: lstep.cases) auto
    with streamer(4) show ?thesis by (simp add: one_answered_def solo_def)
  next
    case (forwarder f)
    then have "fint finit f" by (simp add: one_answered_def solo_def)
    then show ?thesis by (auto simp: finit_def elim!: fint.cases)
  qed (simp_all add: one_answered_def solo_def finit_def)
qed

section \<open>Once the submitter has ended\<close>

lemma submitter_stays_ended:
  "pstep cf p p' \<Longrightarrow> pi_sub p = SubEnd \<Longrightarrow> pi_sub p' = SubEnd"
  unfolding pstep_def by (auto elim!: pint.cases penv.cases)

lemma forwarder_only_fills:
  assumes "preach cf p" and "pi_sub p = SubEnd" and "pstep cf p p'"
  shows "\<exists>rs. in_flight (pi_fwd p') = in_flight (pi_fwd p) @ rs"
  using assms(3) unfolding pstep_def
proof
  assume "pint cf p p'"
  then show ?thesis
  proof (cases rule: pint.cases)
    case (streamer k ev st)
    then show ?thesis by (cases ev) (simp_all add: in_flight_fsend)
  next
    case (forwarder f)
    with in_flight_fint [OF assms(1)] show ?thesis by simp
  qed (use assms(2) in simp_all)
qed (auto elim!: penv.cases)

text \<open>What the client's own steps leave alone.\<close>

lemma pint_frame:
  assumes "pint cf p p'"
  shows "pi_stopping p' = pi_stopping p \<and> length (pi_strs p') = length (pi_strs p) \<and>
    length (pi_answered p) \<le> length (pi_answered p') \<and> length (pi_discarded p) \<le> length (pi_discarded p')"
  using assms
proof (cases rule: pint.cases)
  case (streamer k ev st)
  then show ?thesis by (cases ev) simp_all
qed simp_all

lemma pint_size:
  assumes "preach cf p" and "pint cf p p'"
  shows "size (under_way p') \<le> size (under_way p)"
proof -
  have "size (accounted p') = size (accounted p)" using accounted_pint [OF assms] by simp
  with pint_frame [OF assms(2)] show ?thesis by (simp add: accounted_def)
qed

section \<open>Properties\<close>



text \<open>
  C3. Every request that the client has taken is in exactly one place: under way once, answered once
  or discarded once. While nobody has called \<open>Stop\<close> and no connection was found unusable, none is
  discarded.
\<close>

theorem requests_in_one_place:
  assumes "preach cf p"
  shows "image_mset fst (under_way p) + mset (map fst (pi_answered p)) + mset (map fst (pi_discarded p))
           = mset [0..<pi_taken p] \<and>
         (pi_discarded p = [] \<or> pi_stopping p \<or> (\<exists>k < length (pi_strs p). st_broken (pi_strs p ! k)))"
  using all_accounted [OF assms] pinv_reach [OF assms] by (auto simp: accounted_def pinv_def)

theorem requests_in_one_place_witness:
  "size (under_way stalled) = 605"
proof -
  have "image_mset fst (under_way stalled) = mset [0..<605]"
    using requests_in_one_place [OF stalled_reach] by (simp add: stalled_def solo_def)
  then have "size (image_mset fst (under_way stalled)) = size (mset [0..<605])" by simp
  then show ?thesis by simp
qed

text \<open>
  C7. The client cannot be busy for ever: without new requests, streamers or capacities, the number of
  steps its goroutines can still take is bounded by the work left, whatever the order of the steps
  and the outcomes of the round trips.
\<close>

theorem pipeline_comes_to_rest:
  assumes "preach cf p" and "(pint cf ^^ n) p q"
  shows "n \<le> work cf p"
  using int_steps_bounded [OF assms] by simp

theorem pipeline_comes_to_rest_witness: "1 \<le> work retry_conf one_flight"
proof -
  have "(pint retry_conf ^^ 1) one_flight one_answered" using one_answer_step by auto
  from pipeline_comes_to_rest [OF one_flight_reach this] show ?thesis .
qed




text \<open>
  \<open>Stop\<close> does not help a stalled client: the submitter ends and the outbound channel is closed, but
  a streamer stays blocked in \<open>exec\<close>, never reports its end, and no goroutine can move.
\<close>

theorem stop_hangs_when_stalled:
  "\<exists>p :: nat pipe. preach retry_conf p \<and> at_rest retry_conf p \<and> pi_out_closed p \<and>
     (\<exists>r. st_main (pi_strs p ! 0) = PExec r)"
  using stop_stalled_reach stop_stalled_at_rest
  by (intro exI [of _ stop_stalled]) (simp add: stop_stalled_def stalled_def solo_def)

text \<open>
  What waits in the forwarder when the submitter ends stays there: the requests in the forwarder
  remain, in their order, whatever happens afterwards.
\<close>

theorem retries_stranded_by_stop:
  assumes "preach cf p" and "pi_sub p = SubEnd" and "(pstep cf)\<^sup>*\<^sup>* p q"
  shows "\<exists>rs. in_flight (pi_fwd q) = in_flight (pi_fwd p) @ rs"
proof -
  have "preach cf q \<and> pi_sub q = SubEnd \<and> (\<exists>rs. in_flight (pi_fwd q) = in_flight (pi_fwd p) @ rs)"
    using assms(3)
  proof (induction rule: rtranclp_induct)
    case (step q r)
    with submitter_stays_ended [OF step.hyps(2)] forwarder_only_fills [OF _ _ step.hyps(2)]
      preach_step [OF _ step.hyps(2)]
    show ?case by force
  qed (use assms in auto)
  then show ?thesis by simp
qed

theorem retries_stranded_by_stop_witness: "\<exists>rs. in_flight (pi_fwd left_behind) = again 0 # rs"
proof -
  have "pi_sub left_behind = SubEnd" "in_flight (pi_fwd left_behind) = [again 0]"
    by (simp_all add: left_behind_def solo_def filled_def in_flight_def)
  with retries_stranded_by_stop [OF left_behind_reach _ rtranclp.rtrancl_refl] show ?thesis by simp
qed

text \<open>
  C21. A soft stop can complete without an answer: every streamer has drained and ended, no goroutine
  can move, and a request that waits for its second attempt is never answered.
\<close>

theorem soft_stop_forgets_retry:
  "\<exists>p :: nat pipe. preach retry_conf p \<and> at_rest retry_conf p \<and> pi_out_closed p \<and>
     map st_main (pi_strs p) = [PEnd False True] \<and>
     pi_taken p = 1 \<and> pi_answered p = [] \<and> pi_discarded p = []"
  using left_behind_reach left_behind_at_rest
  by (intro exI [of _ left_behind]) (simp add: left_behind_def solo_def)

end
