(* ===== verification/Authority.thy ===== *)
theory Authority
  imports Prelude
begin

text \<open>
  \<open>authorityAddr\<close> of \<open>apns2/http.go\<close>, with \<open>net.SplitHostPort\<close> and \<open>net.JoinHostPort\<close> of the standard
  library. \<open>to_ascii\<close> is \<open>idna.ToASCII\<close>, which gives \<open>None\<close> for a name that has no ASCII form.
\<close>

section \<open>Addresses\<close>

text \<open>The position of the last colon: what is before and after it.\<close>

fun split_last :: "char \<Rightarrow> string \<Rightarrow> (string \<times> string) option" where
  "split_last c [] = None"
| "split_last c (x # xs) =
     (case split_last c xs of
        Some (a, b) \<Rightarrow> Some (x # a, b)
      | None \<Rightarrow> if x = c then Some ([], xs) else None)"

text \<open>
  \<open>None\<close> is any of its errors. A literal in brackets must be closed right before the last colon;
  otherwise the host has no colon, and no bracket occurs elsewhere.
\<close>

definition SplitHostPort :: "string \<Rightarrow> (string \<times> string) option" where
  "SplitHostPort hostport =
     (case split_last CHR '':'' hostport of
        None \<Rightarrow> None
      | Some (before, port) \<Rightarrow>
          if before \<noteq> [] \<and> hd before = CHR ''['' then
            (let inner = takeWhile (\<lambda>c. c \<noteq> CHR '']'') (tl before)
             in if before = CHR ''['' # inner @ '']'' \<and> CHR ''['' \<notin> set inner \<and>
                   CHR ''['' \<notin> set port \<and> CHR '']'' \<notin> set port
                then Some (inner, port) else None)
          else if CHR '':'' \<in> set before \<or> CHR ''['' \<in> set before \<or> CHR '']'' \<in> set before \<or>
                  CHR ''['' \<in> set port \<or> CHR '']'' \<in> set port then None
          else Some (before, port))"

definition JoinHostPort :: "string \<Rightarrow> string \<Rightarrow> string" where
  "JoinHostPort host port =
     (if CHR '':'' \<in> set host then ''['' @ host @ '']:'' @ port else host @ '':'' @ port)"

definition authorityAddr :: "(string \<Rightarrow> string option) \<Rightarrow> string \<Rightarrow> string \<Rightarrow> string" where
  "authorityAddr to_ascii scheme authority =
     (let (host0, port) =
        (case SplitHostPort authority of
           Some hp \<Rightarrow> hp
         | None \<Rightarrow> (authority, if scheme = ''http'' then ''80'' else ''443''));
          host = (case to_ascii host0 of Some a \<Rightarrow> a | None \<Rightarrow> host0)
      in if host \<noteq> [] \<and> hd host = CHR ''['' \<and> last host = CHR '']'' then host @ '':'' @ port
         else JoinHostPort host port)"

section \<open>Properties\<close>

lemma split_last_none: "c \<notin> set xs \<Longrightarrow> split_last c xs = None"
  by (induction xs) auto

lemma split_last_append: "c \<notin> set ys \<Longrightarrow> split_last c (xs @ c # ys) = Some (xs, ys)"
  by (induction xs) (auto simp: split_last_none)

text \<open>The characters that separate the parts of an address.\<close>

definition plain :: "string \<Rightarrow> bool" where
  "plain s \<longleftrightarrow> CHR '':'' \<notin> set s \<and> CHR ''['' \<notin> set s \<and> CHR '']'' \<notin> set s"

lemma Split_name: "plain h \<Longrightarrow> plain p \<Longrightarrow> SplitHostPort (h @ '':'' @ p) = Some (h, p)"
  using split_last_append [of "CHR '':''" p h]
  by (cases h) (auto simp: SplitHostPort_def plain_def)

lemma Split_literal:
  assumes "CHR ''['' \<notin> set h" and "CHR '']'' \<notin> set h" and "plain p"
  shows "SplitHostPort (''['' @ h @ '']:'' @ p) = Some (h, p)"
proof -
  have "split_last CHR '':'' ((''['' @ h @ '']'') @ CHR '':'' # p) = Some (''['' @ h @ '']'', p)"
    using assms(3) by (intro split_last_append) (simp add: plain_def)
  moreover have "takeWhile (\<lambda>c. c \<noteq> CHR '']'') (h @ '']'') = h"
    using assms(2) by (subst takeWhile_append2) auto
  ultimately show ?thesis using assms by (simp add: SplitHostPort_def plain_def)
qed

lemma Split_no_port: "plain a \<Longrightarrow> SplitHostPort a = None"
  by (simp add: SplitHostPort_def split_last_none plain_def)



end
