(* ===== verification/Crypto.thy ===== *)
theory Crypto
  imports Prelude "HOL-Library.Monad_Syntax"
begin

text \<open>
  \<open>cryptox/crypto.go\<close>: loading of keys and certificates. The standard library's decoders and
  parsers and the PKCS#12 library are the record \<open>crypto_env\<close> of functions; what is modelled is how
  their results are combined. The loops over the blocks of a PEM file may not end if the decoder
  does not consume its input, so they are partial functions, whose value \<open>None\<close> is not
  returning; under the documented behaviour of \<open>pem.Decode\<close> they are proved to return.
\<close>

section \<open>Library interfaces\<close>

datatype crypto_err =
    ErrPKCS8NotPem
  | ErrPKCS8NotECDSA
  | ErrPEMMissingPrivateKey
  | ErrPEMMissingCertificate
  | LibError string

record block =
  bType :: string
  bBytes :: string

text \<open>A private key: of the ECDSA type or of another one. \<open>'k\<close> is the library's key.\<close>

datatype 'k private_key = ECDSA 'k | OtherKey 'k

record ('k, 'c) tls_cert =
  Certificates :: "string list"
  PrivateKey :: "'k private_key option"
  Leaf :: "'c option"

definition no_cert :: "('k, 'c) tls_cert" where
  "no_cert = \<lparr>Certificates = [], PrivateKey = None, Leaf = None\<rparr>"

record ('k, 'c) crypto_env =
  ReadFile :: "string \<Rightarrow> crypto_err + string"
  PemDecode :: "string \<Rightarrow> (block \<times> string) option"
  IsEncrypted :: "block \<Rightarrow> bool"
  DecryptBlock :: "block \<Rightarrow> string \<Rightarrow> crypto_err + string"
  ParsePKCS1 :: "string \<Rightarrow> crypto_err + 'k private_key"
  ParsePKCS8 :: "string \<Rightarrow> crypto_err + 'k private_key"
  ParseCertificate :: "string \<Rightarrow> crypto_err + 'c"
  P12Decode :: "string \<Rightarrow> string \<Rightarrow> crypto_err + ('k private_key \<times> 'c)"
  RawOf :: "'c \<Rightarrow> string"

definition PEM_X509 :: string where "PEM_X509 = ''CERTIFICATE''"

definition PEM_RSA :: string where "PEM_RSA = ''RSA PRIVATE KEY''"

definition PEM_PKCS8 :: string where "PEM_PKCS8 = ''ENCRYPTED PRIVATE KEY''"

definition PEM_PKCS8INF :: string where "PEM_PKCS8INF = ''PRIVATE KEY''"

section \<open>Keys\<close>

definition parsePrivateKey :: "('k, 'c) crypto_env \<Rightarrow> string \<Rightarrow> bool \<Rightarrow> crypto_err + 'k private_key" where
  "parsePrivateKey e bytes isRSA = (if isRSA then ParsePKCS1 e bytes else ParsePKCS8 e bytes)"

definition decryptPrivateKey ::
  "('k, 'c) crypto_env \<Rightarrow> block \<Rightarrow> string \<Rightarrow> bool \<Rightarrow> crypto_err + 'k private_key" where
  "decryptPrivateKey e b password isRSA =
     (case (if IsEncrypted e b then DecryptBlock e b password else Inr (bBytes b)) of
        Inl err \<Rightarrow> Inl err
      | Inr bytes \<Rightarrow> parsePrivateKey e bytes isRSA)"

definition PKCS8PrivateKeyFromBytes :: "('k, 'c) crypto_env \<Rightarrow> string \<Rightarrow> crypto_err + 'k" where
  "PKCS8PrivateKeyFromBytes e bytes =
     (case PemDecode e bytes of
        None \<Rightarrow> Inl ErrPKCS8NotPem
      | Some (b, _) \<Rightarrow>
          (case ParsePKCS8 e (bBytes b) of
             Inl err \<Rightarrow> Inl err
           | Inr (ECDSA k) \<Rightarrow> Inr k
           | Inr (OtherKey _) \<Rightarrow> Inl ErrPKCS8NotECDSA))"

definition PKCS8PrivateKeyFromFile :: "('k, 'c) crypto_env \<Rightarrow> string \<Rightarrow> crypto_err + 'k" where
  "PKCS8PrivateKeyFromFile e file =
     (case ReadFile e file of Inl err \<Rightarrow> Inl err | Inr bytes \<Rightarrow> PKCS8PrivateKeyFromBytes e bytes)"

definition ClientCertFromP12Bytes ::
  "('k, 'c) crypto_env \<Rightarrow> string \<Rightarrow> string \<Rightarrow> crypto_err + ('k, 'c) tls_cert" where
  "ClientCertFromP12Bytes e bytes password =
     (case P12Decode e bytes password of
        Inl err \<Rightarrow> Inl err
      | Inr (key, cert) \<Rightarrow>
          Inr \<lparr>Certificates = [RawOf e cert], PrivateKey = Some key, Leaf = Some cert\<rparr>)"

definition ClientCertFromP12File ::
  "('k, 'c) crypto_env \<Rightarrow> string \<Rightarrow> string \<Rightarrow> crypto_err + ('k, 'c) tls_cert" where
  "ClientCertFromP12File e file password =
     (case ReadFile e file of Inl err \<Rightarrow> Inl err | Inr bytes \<Rightarrow> ClientCertFromP12Bytes e bytes password)"

section \<open>PEM files\<close>

text \<open>The \<open>switch\<close> on the type of a block.\<close>

definition pem_case ::
  "('k, 'c) crypto_env \<Rightarrow> string \<Rightarrow> block \<Rightarrow> ('k, 'c) tls_cert \<Rightarrow> crypto_err + ('k, 'c) tls_cert" where
  "pem_case e password b cert =
     (if bType b = PEM_X509 then Inr (cert\<lparr>Certificates := Certificates cert @ [bBytes b]\<rparr>)
      else if bType b = PEM_RSA \<or> bType b = PEM_PKCS8 \<or> bType b = PEM_PKCS8INF
      then (case decryptPrivateKey e b password (bType b = PEM_RSA) of
              Inl err \<Rightarrow> Inl err
            | Inr key \<Rightarrow> Inr (cert\<lparr>PrivateKey := Some key\<rparr>))
      else Inr cert)"

partial_function (option) client_loop ::
  "('k, 'c) crypto_env \<Rightarrow> string \<Rightarrow> string \<Rightarrow> ('k, 'c) tls_cert \<Rightarrow>
   (crypto_err + ('k, 'c) tls_cert) option" where
  "client_loop e password bytes cert =
     (case PemDecode e bytes of
        None \<Rightarrow> Some (Inr cert)
      | Some (b, rest) \<Rightarrow>
          (case pem_case e password b cert of
             Inl err \<Rightarrow> Some (Inl err)
           | Inr cert' \<Rightarrow> client_loop e password rest cert'))"

definition ClientCertFromPemBytes ::
  "('k, 'c) crypto_env \<Rightarrow> string \<Rightarrow> string \<Rightarrow> (crypto_err + ('k, 'c) tls_cert) option" where
  "ClientCertFromPemBytes e bytes password =
     (case client_loop e password bytes no_cert of
        None \<Rightarrow> None
      | Some (Inl err) \<Rightarrow> Some (Inl err)
      | Some (Inr cert) \<Rightarrow>
          Some (if Certificates cert = [] then Inl ErrPEMMissingCertificate
                else if PrivateKey cert = None then Inl ErrPEMMissingPrivateKey
                else Inr (case ParseCertificate e (hd (Certificates cert)) of
                            Inr c \<Rightarrow> cert\<lparr>Leaf := Some c\<rparr>
                          | Inl _ \<Rightarrow> cert)))"

definition ClientCertFromPemFile ::
  "('k, 'c) crypto_env \<Rightarrow> string \<Rightarrow> string \<Rightarrow> (crypto_err + ('k, 'c) tls_cert) option" where
  "ClientCertFromPemFile e file password =
     (case ReadFile e file of Inl err \<Rightarrow> Some (Inl err) | Inr bytes \<Rightarrow> ClientCertFromPemBytes e bytes password)"

partial_function (option) root_loop ::
  "('k, 'c) crypto_env \<Rightarrow> string \<Rightarrow> ('k, 'c) tls_cert \<Rightarrow> ('k, 'c) tls_cert option" where
  "root_loop e bytes cert =
     (case PemDecode e bytes of
        None \<Rightarrow> Some cert
      | Some (b, rest) \<Rightarrow>
          root_loop e rest (if bType b = PEM_X509
            then cert\<lparr>Certificates := Certificates cert @ [bBytes b]\<rparr> else cert))"

definition RootCAFromPemBytes ::
  "('k, 'c) crypto_env \<Rightarrow> string \<Rightarrow> (crypto_err + ('k, 'c) tls_cert) option" where
  "RootCAFromPemBytes e bytes =
     (case root_loop e bytes no_cert of
        None \<Rightarrow> None
      | Some cert \<Rightarrow> Some (if Certificates cert = [] then Inl ErrPEMMissingCertificate else Inr cert))"

definition RootCAFromPemFile ::
  "('k, 'c) crypto_env \<Rightarrow> string \<Rightarrow> (crypto_err + ('k, 'c) tls_cert) option" where
  "RootCAFromPemFile e file =
     (case ReadFile e file of Inl err \<Rightarrow> Some (Inl err) | Inr bytes \<Rightarrow> RootCAFromPemBytes e bytes)"

section \<open>The blocks of a file\<close>

text \<open>
  The documented behaviour of \<open>pem.Decode\<close>: what it returns as the rest is a proper rest of its
  input, since the block that was found is not part of it.
\<close>

definition pem_consumes :: "('k, 'c) crypto_env \<Rightarrow> bool" where
  "pem_consumes e \<longleftrightarrow> (\<forall>bytes b rest. PemDecode e bytes = Some (b, rest) \<longrightarrow> length rest < length bytes)"

inductive blocks :: "('k, 'c) crypto_env \<Rightarrow> string \<Rightarrow> block list \<Rightarrow> bool" for e where
  none: "PemDecode e bytes = None \<Longrightarrow> blocks e bytes []"
| more: "PemDecode e bytes = Some (b, rest) \<Longrightarrow> blocks e rest bs \<Longrightarrow> blocks e bytes (b # bs)"

definition key_type :: "block \<Rightarrow> bool" where
  "key_type b \<longleftrightarrow> bType b = PEM_RSA \<or> bType b = PEM_PKCS8 \<or> bType b = PEM_PKCS8INF"

text \<open>The certificates of a list of blocks, and the results of parsing its keys.\<close>

definition certs_of :: "block list \<Rightarrow> string list" where
  "certs_of bs = map bBytes (filter (\<lambda>b. bType b = PEM_X509) bs)"

definition keys_of :: "('k, 'c) crypto_env \<Rightarrow> string \<Rightarrow> block list \<Rightarrow> (crypto_err + 'k private_key) list" where
  "keys_of e password bs =
     map (\<lambda>b. decryptPrivateKey e b password (bType b = PEM_RSA)) (filter key_type bs)"

lemma certs_of_simps [simp]:
  "certs_of [] = []"
  "certs_of (b # bs) = (if bType b = PEM_X509 then bBytes b # certs_of bs else certs_of bs)"
  by (simp_all add: certs_of_def)

lemma keys_of_simps [simp]:
  "keys_of e password [] = []"
  "keys_of e password (b # bs) =
     (if key_type b then decryptPrivateKey e b password (bType b = PEM_RSA) # keys_of e password bs
      else keys_of e password bs)"
  by (simp_all add: keys_of_def)

lemma blocks_exist:
  assumes "pem_consumes e"
  shows "\<exists>bs. blocks e bytes bs"
proof (induction "length bytes" arbitrary: bytes rule: less_induct)
  case less
  show ?case
  proof (cases "PemDecode e bytes")
    case None
    then show ?thesis by (blast intro: blocks.none)
  next
    case (Some br)
    obtain b rest where br: "br = (b, rest)" by (cases br)
    then have "length rest < length bytes" using assms Some by (auto simp: pem_consumes_def)
    from less.hyps [OF this] Some br show ?thesis by (blast intro: blocks.more)
  qed
qed

lemma root_loop_blocks:
  "blocks e bytes bs \<Longrightarrow>
   root_loop e bytes cert = Some (cert\<lparr>Certificates := Certificates cert @ certs_of bs\<rparr>)"
proof (induction arbitrary: cert rule: blocks.induct)
  case (none bytes)
  then show ?case by (subst root_loop.simps) simp
next
  case (more bytes b rest bs)
  then show ?case by (subst root_loop.simps) simp
qed

lemma pem_types_distinct: "\<not> key_type b" if "bType b = PEM_X509"
  using that by (simp add: key_type_def PEM_X509_def PEM_RSA_def PEM_PKCS8_def PEM_PKCS8INF_def)

text \<open>The loop over the blocks ends at the first key that fails, or has the last key.\<close>

lemma client_loop_blocks:
  "blocks e bytes bs \<Longrightarrow>
   client_loop e password bytes cert = Some
     (case find isl (keys_of e password bs) of
        Some (Inl err) \<Rightarrow> Inl err
      | _ \<Rightarrow> Inr (cert\<lparr>Certificates := Certificates cert @ certs_of bs,
                PrivateKey := (if keys_of e password bs = [] then PrivateKey cert
                               else Some (projr (last (keys_of e password bs))))\<rparr>))"
proof (induction arbitrary: cert rule: blocks.induct)
  case (none bytes)
  then show ?case by (subst client_loop.simps) simp
next
  case (more bytes b rest bs)
  have step: "client_loop e password bytes cert =
      (case pem_case e password b cert of Inl err \<Rightarrow> Some (Inl err)
       | Inr cert' \<Rightarrow> client_loop e password rest cert')"
    using more(1) by (subst client_loop.simps) simp
  show ?case
  proof (cases "bType b = PEM_X509")
    case True
    with pem_types_distinct [OF True] more(3) show ?thesis unfolding step
      by (simp add: pem_case_def split: option.split sum.split)
  next
    case False
    show ?thesis
    proof (cases "key_type b")
      case True
      then have t: "bType b = PEM_RSA \<or> bType b = PEM_PKCS8 \<or> bType b = PEM_PKCS8INF"
        by (simp add: key_type_def)
      show ?thesis
      proof (cases "decryptPrivateKey e b password (bType b = PEM_RSA)")
        case (Inl err)
        with False t True show ?thesis unfolding step
          by (simp add: pem_case_def split: option.split sum.split)
      next
        case (Inr key)
        with False t True more(3) show ?thesis unfolding step
          by (simp add: pem_case_def split: option.split sum.split)
      qed
    next
      case no_key: False
      with False more(3) show ?thesis unfolding step
        by (simp add: pem_case_def key_type_def split: option.split sum.split)
    qed
  qed
qed

section \<open>Properties\<close>

text \<open>
  C31. A PEM file is read completely and as documented: with a decoder that consumes what it
  decodes, \<open>ClientCertFromPemBytes\<close> returns; if the first failing key fails with an error, that
  is its error; otherwise it needs a certificate and a key, and its result has all certificates
  of the file in their order, and the last of its keys.
\<close>

theorem client_cert_reads_all:
  assumes "pem_consumes e"
  shows "\<exists>bs. blocks e bytes bs \<and> ClientCertFromPemBytes e bytes password = Some
     (case find isl (keys_of e password bs) of
        Some (Inl err) \<Rightarrow> Inl err
      | _ \<Rightarrow> if certs_of bs = [] then Inl ErrPEMMissingCertificate
             else if keys_of e password bs = [] then Inl ErrPEMMissingPrivateKey
             else Inr \<lparr>Certificates = certs_of bs,
                        PrivateKey = Some (projr (last (keys_of e password bs))),
                        Leaf = (case ParseCertificate e (hd (certs_of bs)) of Inr c \<Rightarrow> Some c | Inl _ \<Rightarrow> None)\<rparr>)"
proof -
  obtain bs where bs: "blocks e bytes bs" using blocks_exist [OF assms] by blast
  have no_inr: "\<nexists>k. find isl (keys_of e password bs) = Some (Inr k)"
    by (metis find_Some_iff isl_def sum.distinct(1))
  show ?thesis
    unfolding ClientCertFromPemBytes_def client_loop_blocks [OF bs]
    by (intro exI [of _ bs]) (use bs no_inr in \<open>auto simp: no_cert_def split: option.split sum.split\<close>)
qed

text \<open>A decoder of one-byte blocks, to evaluate the loaders on.\<close>

definition sample_crypto :: "(nat, nat) crypto_env" where
  "sample_crypto = \<lparr>ReadFile = (\<lambda>_. Inl (LibError ''no file'')),
     PemDecode = (\<lambda>s. case s of [] \<Rightarrow> None
        | c # cs \<Rightarrow> Some (\<lparr>bType = (if c = CHR ''c'' then PEM_X509 else PEM_PKCS8INF), bBytes = [c]\<rparr>, cs)),
     IsEncrypted = (\<lambda>_. False), DecryptBlock = (\<lambda>_ _. Inl (LibError ''encrypted'')),
     ParsePKCS1 = (\<lambda>_. Inl (LibError ''rsa'')), ParsePKCS8 = (\<lambda>s. Inr (ECDSA (length s))),
     ParseCertificate = (\<lambda>s. Inr (length s)), P12Decode = (\<lambda>_ _. Inl (LibError ''p12'')), RawOf = (\<lambda>_. [])\<rparr>"

lemma sample_env_consumes: "pem_consumes sample_crypto"
  by (auto simp: pem_consumes_def sample_crypto_def split: list.splits)

theorem client_cert_reads_all_witness:
  "\<exists>r. ClientCertFromPemBytes sample_crypto ''ckc'' [] = Some r"
  using client_cert_reads_all [OF sample_env_consumes, of "''ckc''" "[]"] by blast

text \<open>
  \<open>RootCAFromPemBytes\<close> returns all certificates of the file in order, ignores everything else
  in it, and fails only when there is none.
\<close>

theorem root_ca_reads_all:
  assumes "pem_consumes e"
  shows "\<exists>bs. blocks e bytes bs \<and> RootCAFromPemBytes e bytes = Some
     (if certs_of bs = [] then Inl ErrPEMMissingCertificate
      else Inr \<lparr>Certificates = certs_of bs, PrivateKey = None, Leaf = None\<rparr>)"
proof -
  obtain bs where bs: "blocks e bytes bs" using blocks_exist [OF assms] by blast
  then show ?thesis
    by (intro exI [of _ bs]) (simp add: RootCAFromPemBytes_def root_loop_blocks no_cert_def)
qed

theorem root_ca_reads_all_witness:
  "\<exists>r. RootCAFromPemBytes sample_crypto ''ckc'' = Some r"
  using root_ca_reads_all [OF sample_env_consumes, of "''ckc''"] by blast

end
