(* ===== verification/Transport.thy ===== *)
theory Transport
  imports HttpClient Authority Crypto
begin

text \<open>
  How a connection is set up: the TLS configuration and address of \<open>NewHTTPClient\<close>
  (\<open>apns2/http.go\<close>), the dialer of \<open>apns2/comm.go\<close> and \<open>streamer.start\<close> (\<open>apns2/streamer.go\<close>). The
  parsing of URLs and certificates is a parameter, \<open>None\<close> of a URL being its error.
\<close>

section \<open>The TLS configuration\<close>

record ('k, 'c) tls_config =
  tlsCertificates :: "('k, 'c) tls_cert list"
  tlsNamed :: bool
  tlsRootCAs :: "'c list option"

definition empty_config :: "('k, 'c) tls_config" where
  "empty_config = \<lparr>tlsCertificates = [], tlsNamed = False, tlsRootCAs = None\<rparr>"

text \<open>\<open>None\<close> is the nil pointer, for which an empty configuration is made on demand.\<close>

definition made_config :: "('k, 'c) tls_config option \<Rightarrow> ('k, 'c) tls_config" where
  "made_config t = (case t of None \<Rightarrow> empty_config | Some c \<Rightarrow> c)"

definition client_cert_part ::
  "('k, 'c) tls_cert option \<Rightarrow> ('k, 'c) tls_config option \<Rightarrow> ('k, 'c) tls_config option" where
  "client_cert_part cCert t =
     (case cCert of
        None \<Rightarrow> t
      | Some c \<Rightarrow> Some ((made_config t)\<lparr>tlsCertificates := [c],
          tlsNamed := tlsNamed (made_config t) \<or> Certificates c \<noteq> []\<rparr>))"

text \<open>The first certificate of the root is read without a check that there is one: \<open>None\<close> is a panic.\<close>

definition root_ca_part ::
  "('k, 'c) crypto_env \<Rightarrow> ('k, 'c) tls_cert option \<Rightarrow> ('k, 'c) tls_config option \<Rightarrow>
   (crypto_err + ('k, 'c) tls_config option) option" where
  "root_ca_part e rootCA t =
     (case rootCA of
        None \<Rightarrow> Some (Inr t)
      | Some r \<Rightarrow>
         (case Certificates r of
            [] \<Rightarrow> None
          | der # _ \<Rightarrow>
             (if der = [] then Some (Inr t)
              else case ParseCertificate e der of
                     Inl err \<Rightarrow> Some (Inl err)
                   | Inr c \<Rightarrow> Some (Inr (Some ((made_config t)\<lparr>tlsRootCAs := Some [c]\<rparr>))))))"

record dialer =
  dTimeout :: duration
  dKeepAlive :: duration

definition makeDialer :: "CommsCfg \<Rightarrow> dialer" where
  "makeDialer c = \<lparr>dTimeout = DialTimeout c, dKeepAlive = KeepAlive c\<rparr>"

section \<open>The client\<close>

record ('k, 'c) transport =
  tDial :: dialer
  tDisableCompression :: bool
  tTLS :: "('k, 'c) tls_config option"
  tTimeout :: duration
  tAddr :: string
  tState :: httpc

text \<open>The error of \<open>url.ParseRequestURI\<close> is ignored, and its nil result read: a panic.\<close>

definition NewHTTPClient_setup ::
  "('k, 'c) crypto_env \<Rightarrow> (string \<Rightarrow> (string \<times> string) option) \<Rightarrow> (string \<Rightarrow> string option) \<Rightarrow>
   string \<Rightarrow> CommsCfg \<Rightarrow> ('k, 'c) tls_cert option \<Rightarrow> ('k, 'c) tls_cert option \<Rightarrow>
   (crypto_err + ('k, 'c) transport) option" where
  "NewHTTPClient_setup e ParseRequestURI to_ascii gateway comms cCert rootCA =
     (case root_ca_part e rootCA (client_cert_part cCert None) of
        None \<Rightarrow> None
      | Some (Inl err) \<Rightarrow> Some (Inl err)
      | Some (Inr t) \<Rightarrow>
         (case ParseRequestURI gateway of
            None \<Rightarrow> None
          | Some (scheme, host) \<Rightarrow>
              Some (Inr \<lparr>tDial = makeDialer comms, tDisableCompression = True, tTLS = t,
                tTimeout = RequestTimeout comms, tAddr = authorityAddr to_ascii scheme host,
                tState = NewHTTPClient\<rparr>)))"

text \<open>\<open>conn\<close> is the result of \<open>http2x.GetClientConn\<close>; the client is initialised first.\<close>

definition getClientConn ::
  "(goerr + unit) \<Rightarrow> (goerr + u32) \<Rightarrow> (goerr + unit) \<Rightarrow> httpc \<Rightarrow> httpc \<times> goerr option" where
  "getClientConn pool report conn c =
     (let c' = init_client pool report c
      in (c', if connPool c' then (case conn of Inl err \<Rightarrow> Some err | Inr _ \<Rightarrow> None) else None))"

section \<open>Starting a streamer\<close>

datatype start_err = SetupErr crypto_err | ConnErr goerr

text \<open>\<open>ss_once\<close> is whether \<open>startOnce\<close> has run, \<open>ss_loops\<close> the number of goroutines in \<open>run\<close>.\<close>

record ('k, 'c) streamer_start =
  ss_once :: bool
  ss_err :: "start_err option"
  ss_client :: "('k, 'c) transport option"
  ss_loops :: nat

definition new_streamer :: "('k, 'c) streamer_start" where
  "new_streamer = \<lparr>ss_once = False, ss_err = None, ss_client = None, ss_loops = 0\<rparr>"

definition start_streamer ::
  "(crypto_err + ('k, 'c) transport) option \<Rightarrow> ProcCfg \<Rightarrow> CommsCfg \<Rightarrow> bool \<Rightarrow> (httpc \<Rightarrow> httpc \<times> goerr option) \<Rightarrow>
   ('k, 'c) streamer_start \<Rightarrow> (('k, 'c) streamer_start \<times> start_err option) option" where
  "start_streamer setup pcfg comms warmStart connect s =
     (if ss_once s then Some (s, ss_err s)
      else case setup of
             None \<Rightarrow> None
           | Some (Inl err) \<Rightarrow> Some (s\<lparr>ss_once := True, ss_err := Some (SetupErr err)\<rparr>, Some (SetupErr err))
           | Some (Inr t) \<Rightarrow>
              (let h = streamer_client pcfg comms;
                   (h', cerr) = (if warmStart then connect h else (h, None));
                   s' = s\<lparr>ss_once := True, ss_client := Some (t\<lparr>tState := h'\<rparr>)\<rparr>
               in case cerr of
                    Some err \<Rightarrow> Some (s'\<lparr>ss_err := Some (ConnErr err)\<rparr>, Some (ConnErr err))
                  | None \<Rightarrow> Some (s'\<lparr>ss_loops := ss_loops s + 1\<rparr>, ss_err s)))"

section \<open>Properties\<close>

lemma root_from_pem:
  assumes "pem_consumes e" and "RootCAFromPemBytes e bytes = Some (Inr ca)"
  obtains bs der ders where "blocks e bytes bs" "certs_of bs = der # ders" "Certificates ca = der # ders"
proof -
  obtain bs where bs: "blocks e bytes bs" using blocks_exist [OF assms(1)] by blast
  with assms(2) have "certs_of bs \<noteq> []" "Certificates ca = certs_of bs"
    by (auto simp: RootCAFromPemBytes_def root_loop_blocks no_cert_def split: if_splits)
  with bs that show thesis by (cases "certs_of bs") auto
qed

text \<open>
  C38. A root certificate from a PEM file reaches the connection: when the client is set up with what
  \<open>RootCAFromPemBytes\<close> read from a file, the servers it trusts are those certified by the first
  certificate of the file, and only by it; further certificates are read and then ignored.
\<close>

theorem first_root_trusted:
  assumes "pem_consumes e" and "RootCAFromPemBytes e bytes = Some (Inr ca)"
    and "NewHTTPClient_setup e url asc gateway comms cCert (Some ca) = Some (Inr t)"
  shows "\<exists>bs der ders. blocks e bytes bs \<and> certs_of bs = der # ders \<and>
    (if der = [] then tTLS t = client_cert_part cCert None
     else \<exists>c. ParseCertificate e der = Inr c \<and>
            tTLS t = Some ((made_config (client_cert_part cCert None))\<lparr>tlsRootCAs := Some [c]\<rparr>))"
proof -
  obtain bs der ders where "blocks e bytes bs" "certs_of bs = der # ders" "Certificates ca = der # ders"
    using root_from_pem [OF assms(1,2)] .
  with assms(3) show ?thesis
    by (intro exI [of _ bs] exI [of _ der] exI [of _ ders])
       (auto simp: NewHTTPClient_setup_def root_ca_part_def split: option.splits sum.splits if_splits)
qed

text \<open>Two certificates in the file, of which the first is trusted.\<close>

definition sample_root :: "(nat, nat) tls_cert" where
  "sample_root = \<lparr>Certificates = [''c'', ''c''], PrivateKey = None, Leaf = None\<rparr>"

definition sample_url :: "string \<Rightarrow> (string \<times> string) option" where
  "sample_url s = (if s = [] then None else Some (''https'', s))"

definition sample_transport :: "(nat, nat) transport" where
  "sample_transport = \<lparr>tDial = makeDialer CommsFast, tDisableCompression = True,
     tTLS = Some (empty_config\<lparr>tlsRootCAs := Some [1]\<rparr>), tTimeout = RequestTimeout CommsFast,
     tAddr = ''apns:443'', tState = NewHTTPClient\<rparr>"

lemma sample_root_read: "RootCAFromPemBytes sample_crypto ''cc'' = Some (Inr sample_root)"
proof -
  have "blocks sample_crypto ''cc'' [\<lparr>bType = PEM_X509, bBytes = ''c''\<rparr>, \<lparr>bType = PEM_X509, bBytes = ''c''\<rparr>]"
    by (rule blocks.more [where rest = "''c''", OF _ blocks.more [where rest = "[]", OF _ blocks.none]])
       (simp_all add: sample_crypto_def)
  from root_loop_blocks [OF this] show ?thesis
    by (simp add: RootCAFromPemBytes_def no_cert_def sample_root_def)
qed

lemma sample_addr: "authorityAddr Some ''https'' ''apns'' = ''apns:443''"
  by code_simp

lemma sample_setup:
  "NewHTTPClient_setup sample_crypto sample_url Some ''apns'' CommsFast None (Some sample_root) =
     Some (Inr sample_transport)"
  by (simp add: NewHTTPClient_setup_def root_ca_part_def client_cert_part_def sample_root_def
      sample_crypto_def sample_url_def sample_transport_def made_config_def sample_addr)

theorem first_root_trusted_witness: "\<exists>bs der ders. blocks sample_crypto ''cc'' bs \<and> certs_of bs = der # ders"
  using first_root_trusted [OF sample_env_consumes sample_root_read sample_setup] by blast

text \<open>
  The only panic of a set-up with certificates from a PEM file is that of a gateway that is not a
  URL: its error is ignored and its nil result read. A root certificate that cannot be parsed is
  reported first.
\<close>

theorem setup_panics_iff:
  assumes "pem_consumes e" and "RootCAFromPemBytes e bytes = Some (Inr ca)"
  shows "NewHTTPClient_setup e url asc gateway comms cCert (Some ca) = None \<longleftrightarrow>
    url gateway = None \<and>
    (hd (Certificates ca) = [] \<or> \<not> isl (ParseCertificate e (hd (Certificates ca))))"
proof -
  obtain bs der ders where "Certificates ca = der # ders"
    using root_from_pem [OF assms] by metis
  then show ?thesis
    by (auto simp: NewHTTPClient_setup_def root_ca_part_def split: option.splits sum.splits)
qed

theorem setup_panics_iff_witness:
  "NewHTTPClient_setup sample_crypto sample_url Some [] CommsFast None (Some sample_root) = None"
  using setup_panics_iff [OF sample_env_consumes sample_root_read]
  by (simp add: sample_url_def sample_root_def sample_crypto_def)

text \<open>
  A streamer is started once: a second call changes nothing, returns what the first returned, and
  there is a goroutine in \<open>run\<close> exactly when that is no error, with its HTTP client configured as
  the client's settings say.
\<close>

theorem start_once:
  assumes "start_streamer setup pcfg comms warm connect new_streamer = Some (s, res)"
  shows "start_streamer setup' pcfg' comms' warm' connect' s = Some (s, res) \<and>
    ss_loops s = (if res = None then 1 else 0) \<and>
    (res = None \<and> \<not> warm \<longrightarrow> (\<exists>t. ss_client s = Some t \<and> tState t = streamer_client pcfg comms))"
  using assms
  by (auto simp: start_streamer_def new_streamer_def Let_def split: option.splits sum.splits prod.splits if_splits)

theorem start_once_witness:
  "start_streamer None MinBlockingProcConfig CommsFast True (\<lambda>h. (h, None))
     \<lparr>ss_once = True, ss_err = None,
      ss_client = Some (sample_transport\<lparr>tState := streamer_client MinBlockingProcConfig CommsFast\<rparr>), ss_loops = 1\<rparr>
   = Some (\<lparr>ss_once = True, ss_err = None,
      ss_client = Some (sample_transport\<lparr>tState := streamer_client MinBlockingProcConfig CommsFast\<rparr>), ss_loops = 1\<rparr>, None)"
proof -
  have "start_streamer (Some (Inr sample_transport)) MinBlockingProcConfig CommsFast False (\<lambda>h. (h, None)) new_streamer =
    Some (\<lparr>ss_once = True, ss_err = None,
      ss_client = Some (sample_transport\<lparr>tState := streamer_client MinBlockingProcConfig CommsFast\<rparr>), ss_loops = 1\<rparr>, None)"
    by (simp add: start_streamer_def new_streamer_def Let_def)
  from start_once [OF this] show ?thesis by blast
qed

end
