(* ===== verification/Units.thy ===== *)
theory Units
  imports Funit
begin

text \<open>
  The remaining constants of package \<open>funit\<close>. As in the source, a constant computed from a
  \<open>Measure\<close> is one and is rounded to \<open>float64\<close>; the others are untyped and exact. \<open>Word\<close>, \<open>Pi\<close> and
  \<open>Min\<close> are called \<open>Word_bits\<close>, \<open>Pi_pfx\<close> and \<open>Min_unit\<close> here.
\<close>

section \<open>\<open>funit/prefix.go\<close>\<close>

definition Peta :: Measure where
  "Peta = mtimes (typed 1000) Tera"

definition Exa :: Measure where
  "Exa = mtimes (typed 1000) Peta"

definition Zetta :: Measure where
  "Zetta = mtimes (typed 1000) Exa"

definition Yotta :: Measure where
  "Yotta = mtimes (typed 1000) Zetta"

definition Pico :: rat where
  "Pico = Nano / 1000"

definition Femto :: rat where
  "Femto = Pico / 1000"

definition Gibi :: Measure where
  "Gibi = mtimes (typed 1024) Mebi"

definition Tebi :: Measure where
  "Tebi = mtimes (typed 1024) Gibi"

definition Pebi :: Measure where
  "Pebi = mtimes (typed 1024) Tebi"

definition Exbi :: Measure where
  "Exbi = mtimes (typed 1024) Pebi"

definition Zebi :: Measure where
  "Zebi = mtimes (typed 1024) Exbi"

definition Yobi :: Measure where
  "Yobi = mtimes (typed 1024) Zebi"

definition Ki :: Measure where
  "Ki = Kibi"

definition Mi :: Measure where
  "Mi = Mebi"

definition Gi :: Measure where
  "Gi = Gibi"

definition Ti :: Measure where
  "Ti = Tebi"

definition Pi_pfx :: Measure where
  "Pi_pfx = Pebi"

definition Ei :: Measure where
  "Ei = Exbi"

definition Zi :: Measure where
  "Zi = Zebi"

definition Yi :: Measure where
  "Yi = Yobi"

definition Pct :: Measure where
  "Pct = Percent"

definition BP :: rat where
  "BP = BasisPoint"

section \<open>\<open>funit/size.go\<close>\<close>

definition Word_bits :: rat where
  "Word_bits = 16"

definition DWord :: rat where
  "DWord = 32"

definition QWord :: rat where
  "QWord = 64"

definition Petabit :: Measure where
  "Petabit = mtimes Peta Bit"

definition Exabit :: Measure where
  "Exabit = mtimes Exa Bit"

definition Zettabit :: Measure where
  "Zettabit = mtimes Zetta Bit"

definition Yottabit :: Measure where
  "Yottabit = mtimes Yotta Bit"

definition Kb :: Measure where
  "Kb = Kilobit"

definition Mb :: Measure where
  "Mb = Megabit"

definition Gb :: Measure where
  "Gb = Gigabit"

definition Tb :: Measure where
  "Tb = Terabit"

definition Pb :: Measure where
  "Pb = Petabit"

definition Eb :: Measure where
  "Eb = Exabit"

definition Zb :: Measure where
  "Zb = Zettabit"

definition Yb :: Measure where
  "Yb = Yottabit"

definition Kibibit :: Measure where
  "Kibibit = mtimes Kibi Bit"

definition Mebibit :: Measure where
  "Mebibit = mtimes Mebi Bit"

definition Gibibit :: Measure where
  "Gibibit = mtimes Gibi Bit"

definition Tebibit :: Measure where
  "Tebibit = mtimes Tebi Bit"

definition Pebibit :: Measure where
  "Pebibit = mtimes Pebi Bit"

definition Exbibit :: Measure where
  "Exbibit = mtimes Exbi Bit"

definition Zebibit :: Measure where
  "Zebibit = mtimes Zebi Bit"

definition Yobibit :: Measure where
  "Yobibit = mtimes Yobi Bit"

definition Kib :: Measure where
  "Kib = Kibibit"

definition Mib :: Measure where
  "Mib = Mebibit"

definition Gib :: Measure where
  "Gib = Gibibit"

definition Tib :: Measure where
  "Tib = Tebibit"

definition Pib :: Measure where
  "Pib = Pebibit"

definition Eib :: Measure where
  "Eib = Exbibit"

definition Zib :: Measure where
  "Zib = Zebibit"

definition Yib :: Measure where
  "Yib = Yobibit"

definition Gigabyte :: Measure where
  "Gigabyte = mtimes Giga (typed Byte)"

definition Terabyte :: Measure where
  "Terabyte = mtimes Tera (typed Byte)"

definition Petabyte :: Measure where
  "Petabyte = mtimes Peta (typed Byte)"

definition Exabyte :: Measure where
  "Exabyte = mtimes Exa (typed Byte)"

definition Zettabyte :: Measure where
  "Zettabyte = mtimes Zetta (typed Byte)"

definition Yottabyte :: Measure where
  "Yottabyte = mtimes Yotta (typed Byte)"

definition KB :: Measure where
  "KB = Kilobyte"

definition MB :: Measure where
  "MB = Megabyte"

definition GB :: Measure where
  "GB = Gigabyte"

definition TB :: Measure where
  "TB = Terabyte"

definition PB :: Measure where
  "PB = Petabyte"

definition EB :: Measure where
  "EB = Exabyte"

definition ZB :: Measure where
  "ZB = Zettabyte"

definition YB :: Measure where
  "YB = Yottabyte"

definition Kibibyte :: Measure where
  "Kibibyte = mtimes Kibi (typed Byte)"

definition Mebibyte :: Measure where
  "Mebibyte = mtimes Mebi (typed Byte)"

definition Gibibyte :: Measure where
  "Gibibyte = mtimes Gibi (typed Byte)"

definition Tebibyte :: Measure where
  "Tebibyte = mtimes Tebi (typed Byte)"

definition Pebibyte :: Measure where
  "Pebibyte = mtimes Pebi (typed Byte)"

definition Exbibyte :: Measure where
  "Exbibyte = mtimes Exbi (typed Byte)"

definition Zebibyte :: Measure where
  "Zebibyte = mtimes Zebi (typed Byte)"

definition Yobibyte :: Measure where
  "Yobibyte = mtimes Yobi (typed Byte)"

definition KiB :: Measure where
  "KiB = Kibibyte"

definition MiB :: Measure where
  "MiB = Mebibyte"

definition GiB :: Measure where
  "GiB = Gibibyte"

definition TiB :: Measure where
  "TiB = Tebibyte"

definition PiB :: Measure where
  "PiB = Pebibyte"

definition EiB :: Measure where
  "EiB = Exbibyte"

definition ZiB :: Measure where
  "ZiB = Zebibyte"

definition YiB :: Measure where
  "YiB = Yobibyte"

section \<open>\<open>funit/time.go\<close>\<close>

definition Sec :: Measure where
  "Sec = Second"

definition Min_unit :: Measure where
  "Min_unit = Minute"

definition Hr :: Measure where
  "Hr = Hour"

definition Picosecond :: Measure where
  "Picosecond = mtimes (typed Pico) Second"

definition Femtosecond :: Measure where
  "Femtosecond = mtimes (typed Femto) Second"

section \<open>Properties\<close>

text \<open>Every prefix, from the one before it.\<close>

lemma Kilo_value: "Kilo = Fin 1000"
  by code_simp

lemma Mega_value: "Mega = Fin 1000000"
  unfolding Mega_def Kilo_value by code_simp

lemma Giga_value: "Giga = Fin 1000000000"
  unfolding Giga_def Mega_value by code_simp

lemma Tera_value: "Tera = Fin 1000000000000"
  unfolding Tera_def Giga_value by code_simp

lemma Peta_value: "Peta = Fin 1000000000000000"
  unfolding Peta_def Tera_value by code_simp

lemma Exa_value: "Exa = Fin 1000000000000000000"
  unfolding Exa_def Peta_value by code_simp

lemma Zetta_value: "Zetta = Fin 1000000000000000000000"
  unfolding Zetta_def Exa_value by code_simp

lemma Yotta_value: "Yotta = Fin 999999999999999983222784"
  unfolding Yotta_def Zetta_value by code_simp

lemma Kibi_value: "Kibi = Fin 1024"
  by code_simp

lemma Mebi_value: "Mebi = Fin 1048576"
  unfolding Mebi_def Kibi_value by code_simp

lemma Gibi_value: "Gibi = Fin 1073741824"
  unfolding Gibi_def Mebi_value by code_simp

lemma Tebi_value: "Tebi = Fin 1099511627776"
  unfolding Tebi_def Gibi_value by code_simp

lemma Pebi_value: "Pebi = Fin 1125899906842624"
  unfolding Pebi_def Tebi_value by code_simp

lemma Exbi_value: "Exbi = Fin 1152921504606846976"
  unfolding Exbi_def Pebi_value by code_simp

lemma Zebi_value: "Zebi = Fin 1180591620717411303424"
  unfolding Zebi_def Exbi_value by code_simp

lemma Yobi_value: "Yobi = Fin 1208925819614629174706176"
  unfolding Yobi_def Zebi_value by code_simp

lemma one_bit: "Bit = Fin 1"
  by code_simp

lemma one_byte: "typed Byte = Fin 8"
  by code_simp

lemmas decimal_values = Kilo_value Mega_value Giga_value Tera_value Peta_value Exa_value Zetta_value Yotta_value

lemmas binary_values = Kibi_value Mebi_value Gibi_value Tebi_value Pebi_value Exbi_value Zebi_value Yobi_value

lemmas decimal_unit_defs =
    Kb_def Mb_def Gb_def Tb_def Pb_def Eb_def Zb_def KB_def MB_def GB_def TB_def PB_def EB_def
    ZB_def Kilobit_def Megabit_def Gigabit_def Terabit_def Petabit_def Exabit_def Zettabit_def
    Kilobyte_def Megabyte_def Gigabyte_def Terabyte_def Petabyte_def Exabyte_def Zettabyte_def

lemmas binary_unit_defs =
    Kib_def Mib_def Gib_def Tib_def Pib_def Eib_def Zib_def Yib_def KiB_def MiB_def GiB_def
    TiB_def PiB_def EiB_def ZiB_def YiB_def Kibibit_def Mebibit_def Gibibit_def Tebibit_def
    Pebibit_def Exbibit_def Zebibit_def Yobibit_def Kibibyte_def Mebibyte_def Gibibyte_def
    Tebibyte_def Pebibyte_def Exbibyte_def Zebibyte_def Yobibyte_def

lemma decimal_bits: "[Kb, Mb, Gb, Tb, Pb, Eb, Zb] = map (\<lambda>k. Fin (1000 ^ k)) [1..<8]"
  unfolding decimal_unit_defs decimal_values one_bit by code_simp

lemma binary_bits: "[Kib, Mib, Gib, Tib, Pib, Eib, Zib, Yib] = map (\<lambda>k. Fin (1024 ^ k)) [1..<9]"
  unfolding binary_unit_defs binary_values one_bit by code_simp

lemma decimal_bytes: "[KB, MB, GB, TB, PB, EB, ZB] = map (\<lambda>k. Fin (8 * 1000 ^ k)) [1..<8]"
  unfolding decimal_unit_defs decimal_values one_byte by code_simp

lemma binary_bytes: "[KiB, MiB, GiB, TiB, PiB, EiB, ZiB, YiB] = map (\<lambda>k. Fin (8 * 1024 ^ k)) [1..<9]"
  unfolding binary_unit_defs binary_values one_byte by code_simp

lemma yotta_rounded: "Yb = Fin 999999999999999983222784" "YB = Fin (8 * 999999999999999983222784)"
  unfolding Yb_def YB_def Yottabit_def Yottabyte_def Yotta_value one_bit one_byte by code_simp+

lemma yotta_short: "\<exists>q < 10 ^ 24. Yb = Fin q \<and> YB = Fin (8 * q)"
  by (rule exI [of _ 999999999999999983222784]) (simp add: yotta_rounded)


end
