(* ===== verification/Payload.thy ===== *)
theory Payload
  imports Response
begin

text \<open>
  \<open>apns2/payload.go\<close>: the merging of the \<open>APS\<close> fields into the raw dictionary and the cached
  JSON. Go maps are references, and whether the merge changes the caller's maps is a matter of
  aliasing, so the model has a store: a map is an address in a list of string maps, and a fresh
  map is appended. \<open>json.Marshal\<close> of a map in a store is the argument \<open>marshal\<close>.
\<close>

section \<open>Values and the store\<close>

text \<open>
  An \<open>interface{}\<close> value: nil, a number, a string, a list of strings, a \<open>map[string]interface{}\<close>
  (nil, or at an address), or any other value, which the code only passes on.
\<close>

datatype goval =
    VNil | VInt int | VStr string | VStrs "string list" | VMap "nat option" | VOther nat

type_synonym gomap = "string \<Rightarrow> goval option"
type_synonym store = "gomap list"

record APS =
  Alert :: goval
  Badge :: goval
  Category :: string
  ContentAvailable :: bool
  MutableContent :: bool
  Sound :: string
  ThreadID :: string
  URLArgs :: "string list"

record Payload =
  pAPS :: "APS option"
  Raw :: "nat option"
  json :: "string option"

section \<open>Merging\<close>

text \<open>The assignments of \<open>addToMap\<close>, in its order.\<close>

definition aps_fields :: "APS \<Rightarrow> (string \<times> goval) list" where
  "aps_fields a =
     (if Alert a \<noteq> VNil then [(''alert'', Alert a)] else []) @
     (if Badge a \<noteq> VNil then [(''badge'', Badge a)] else []) @
     (if Category a \<noteq> [] then [(''category'', VStr (Category a))] else []) @
     (if ContentAvailable a then [(''content-available'', VInt 1)] else []) @
     (if MutableContent a then [(''mutable-content'', VInt 1)] else []) @
     (if Sound a \<noteq> [] then [(''sound'', VStr (Sound a))] else []) @
     (if ThreadID a \<noteq> [] then [(''thread-id'', VStr (ThreadID a))] else []) @
     (if length (URLArgs a) > 0 then [(''url-args'', VStrs (URLArgs a))] else [])"

fun assign_all :: "(string \<times> goval) list \<Rightarrow> gomap \<Rightarrow> gomap" where
  "assign_all [] m = m"
| "assign_all ((k, v) # kvs) m = assign_all kvs (m(k \<mapsto> v))"

text \<open>An assignment to a nil map panics (\<open>None\<close>).\<close>

definition addToMap :: "APS \<Rightarrow> nat option \<Rightarrow> store \<Rightarrow> store option" where
  "addToMap a ref st =
     (case ref of
        None \<Rightarrow> if aps_fields a = [] then Some st else None
      | Some x \<Rightarrow> Some (st[x := assign_all (aps_fields a) (st ! x)]))"

definition contents :: "store \<Rightarrow> nat option \<Rightarrow> gomap" where
  "contents st ref = (case ref of None \<Rightarrow> Map.empty | Some x \<Rightarrow> st ! x)"

definition mergedMap :: "Payload \<Rightarrow> store \<Rightarrow> (nat option \<times> store) option" where
  "mergedMap p st =
     (case pAPS p of
        None \<Rightarrow> Some (Raw p, st)
      | Some a \<Rightarrow>
          let res = length st;
              st1 = st @ [contents st (Raw p)];
              nested = (case (st1 ! res) ''aps'' of Some (VMap ref) \<Rightarrow> Some ref | _ \<Rightarrow> None)
          in case nested of
               Some ref \<Rightarrow> map_option (\<lambda>st'. (Some res, st')) (addToMap a ref st1)
             | None \<Rightarrow>
                 let st2 = (st1[res := (st1 ! res)(''aps'' \<mapsto> VMap (Some (length st1)))]) @ [Map.empty]
                 in map_option (\<lambda>st'. (Some res, st')) (addToMap a (Some (length st1)) st2))"

text \<open>What \<open>MarshalJSON\<close> returns, with the payload and the store afterwards.\<close>

definition MarshalJSON ::
  "(store \<Rightarrow> nat option \<Rightarrow> goerr + string) \<Rightarrow> Payload \<Rightarrow> store \<Rightarrow>
   ((goerr + string) \<times> Payload \<times> store) option" where
  "MarshalJSON marshal p st =
     (case json p of
        Some j \<Rightarrow> Some (Inr j, p, st)
      | None \<Rightarrow>
          (case mergedMap p st of
             None \<Rightarrow> None
           | Some (m, st') \<Rightarrow>
               (case marshal st' m of
                  Inl e \<Rightarrow> Some (Inl e, p, st')
                | Inr j \<Rightarrow> Some (Inr j, p\<lparr>json := Some j\<rparr>, st'))))"

section \<open>What merging yields\<close>

text \<open>
  A payload fits a store when its maps are in it. The dictionary that should be sent: the raw
  one, with its \<open>aps\<close> entry replaced by a map of the raw \<open>aps\<close> overridden by the fields.
\<close>

definition ref_ok :: "store \<Rightarrow> nat option \<Rightarrow> bool" where
  "ref_ok st ref = (case ref of None \<Rightarrow> True | Some x \<Rightarrow> x < length st)"

definition raw_aps :: "Payload \<Rightarrow> store \<Rightarrow> nat option option" where
  "raw_aps p st = (case contents st (Raw p) ''aps'' of Some (VMap ref) \<Rightarrow> Some ref | _ \<Rightarrow> None)"

definition fits :: "Payload \<Rightarrow> store \<Rightarrow> bool" where
  "fits p st \<longleftrightarrow> ref_ok st (Raw p) \<and>
     (case raw_aps p st of Some ref \<Rightarrow> ref_ok st ref | None \<Rightarrow> True)"

definition old_aps :: "Payload \<Rightarrow> store \<Rightarrow> gomap" where
  "old_aps p st = (case raw_aps p st of Some ref \<Rightarrow> contents st ref | None \<Rightarrow> Map.empty)"

lemma assign_all_map_add:
  "assign_all kvs m = m ++ map_of (rev kvs)"
proof (induction kvs m rule: assign_all.induct)
  case (2 k v kvs m)
  have "m(k \<mapsto> v) ++ f = m ++ ([k \<mapsto> v] ++ f)" for f :: gomap
    by (rule ext) (simp add: map_add_def split: option.split)
  then show ?case by (simp only: assign_all.simps 2 rev.simps map_of_append map_of.simps fst_conv snd_conv)
qed simp

lemma contents_append: "ref_ok st ref \<Longrightarrow> contents (st @ ys) ref = contents st ref"
  by (cases ref) (simp_all add: contents_def ref_ok_def nth_append)

text \<open>Without a map under \<open>aps\<close>, merging allocates two maps and leaves the others alone.\<close>

lemma mergedMap_fresh:
  assumes "pAPS p = Some a" and "raw_aps p st = None"
  shows "mergedMap p st = Some (Some (length st),
     st @ [(contents st (Raw p))(''aps'' \<mapsto> VMap (Some (length st + 1))),
           assign_all (aps_fields a) Map.empty])"
  using assms
  by (auto simp: mergedMap_def Let_def raw_aps_def addToMap_def nth_append list_update_append
      split: option.splits goval.splits)

text \<open>With one, it is that map that the fields are assigned to.\<close>

lemma mergedMap_nested:
  assumes "pAPS p = Some a" and "raw_aps p st = Some (Some x)" and "x < length st"
  shows "mergedMap p st = Some (Some (length st),
     st[x := assign_all (aps_fields a) (st ! x)] @ [contents st (Raw p)])"
  using assms
  by (auto simp: mergedMap_def Let_def raw_aps_def addToMap_def nth_append list_update_append
      split: option.splits goval.splits)

lemma mergedMap_nil:
  assumes "pAPS p = Some a" and "raw_aps p st = Some None"
  shows "mergedMap p st = (if aps_fields a = []
     then Some (Some (length st), st @ [contents st (Raw p)]) else None)"
  using assms
  by (auto simp: mergedMap_def Let_def raw_aps_def addToMap_def nth_append
      split: option.splits goval.splits)

lemma aps_fields_distinct: "distinct (map fst (aps_fields a))"
  by (simp add: aps_fields_def)

lemma map_of_rev: "distinct (map fst xs) \<Longrightarrow> map_of (rev xs) = map_of xs"
  by (rule map_of_eqI) (auto simp: rev_map [symmetric] map_of_is_SomeI)

lemma assign_fields: "assign_all (aps_fields a) m = m ++ map_of (aps_fields a)"
  by (simp add: assign_all_map_add map_of_rev aps_fields_distinct)

section \<open>Alerts\<close>

text \<open>
  The structure \<open>Alert\<close>, which a caller may put under \<open>APS.Alert\<close>, and the members of the JSON object
  that \<open>json.Marshal\<close> makes of it, in the order of the fields: their names are the tags, and the
  option \<open>omitempty\<close>, which every tag has, leaves out an empty string and an empty slice.
\<close>

record Alert =
  Action :: string
  ActionLocKey :: string
  Body :: string
  LaunchImage :: string
  LocArgs :: "string list"
  LocKey :: string
  Title :: string
  Subtitle :: string
  TitleLocArgs :: "string list"
  TitleLocKey :: string

definition str_member :: "string \<Rightarrow> string \<Rightarrow> (string \<times> goval) list" where
  "str_member k s = (if s = [] then [] else [(k, VStr s)])"

definition strs_member :: "string \<Rightarrow> string list \<Rightarrow> (string \<times> goval) list" where
  "strs_member k ss = (if ss = [] then [] else [(k, VStrs ss)])"

definition alert_members :: "Alert \<Rightarrow> (string \<times> goval) list" where
  "alert_members a =
     str_member ''action'' (Action a) @
     str_member ''action-loc-key'' (ActionLocKey a) @
     str_member ''body'' (Body a) @
     str_member ''launch-image'' (LaunchImage a) @
     strs_member ''loc-args'' (LocArgs a) @
     str_member ''loc-key'' (LocKey a) @
     str_member ''title'' (Title a) @
     str_member ''subtitle'' (Subtitle a) @
     strs_member ''title-loc-args'' (TitleLocArgs a) @
     str_member ''title-loc-key'' (TitleLocKey a)"

text \<open>How a receiver reads the members back, an absent one as empty.\<close>

fun read_str :: "goval option \<Rightarrow> string" where
  "read_str (Some (VStr s)) = s"
| "read_str _ = []"

fun read_strs :: "goval option \<Rightarrow> string list" where
  "read_strs (Some (VStrs ss)) = ss"
| "read_strs _ = []"

definition alert_of :: "gomap \<Rightarrow> Alert" where
  "alert_of m =
     \<lparr>Action = read_str (m ''action''), ActionLocKey = read_str (m ''action-loc-key''),
      Body = read_str (m ''body''), LaunchImage = read_str (m ''launch-image''),
      LocArgs = read_strs (m ''loc-args''), LocKey = read_str (m ''loc-key''),
      Title = read_str (m ''title''), Subtitle = read_str (m ''subtitle''),
      TitleLocArgs = read_strs (m ''title-loc-args''), TitleLocKey = read_str (m ''title-loc-key'')\<rparr>"

lemma member_lookup:
  "map_of (str_member k s @ xs) l = (if l = k \<and> s \<noteq> [] then Some (VStr s) else map_of xs l)"
  "map_of (strs_member k ss @ xs) l = (if l = k \<and> ss \<noteq> [] then Some (VStrs ss) else map_of xs l)"
  "map_of (str_member k s) l = (if l = k \<and> s \<noteq> [] then Some (VStr s) else None)"
  by (simp_all add: str_member_def strs_member_def)

lemma member_keys:
  "map fst (str_member k s) = (if s = [] then [] else [k])"
  "map fst (strs_member k ss) = (if ss = [] then [] else [k])"
  by (simp_all add: str_member_def strs_member_def)

text \<open>
  An alert arrives as it was: no member is named twice, and what is left out as empty is read
  back as empty.
\<close>

theorem alert_delivered:
  "distinct (map fst (alert_members a)) \<and> alert_of (map_of (alert_members a)) = a"
proof
  show "distinct (map fst (alert_members a))"
    by (simp add: alert_members_def member_keys)
  show "alert_of (map_of (alert_members a)) = a"
    by (cases a) (simp add: alert_of_def alert_members_def member_lookup del: map_of_append)
qed

section \<open>Properties\<close>


text \<open>A caller's store: a raw dictionary with a nested \<open>aps\<close> map, and one without.\<close>

definition sample_aps :: APS where
  "sample_aps = \<lparr>Alert = VStr ''hi'', Badge = VNil, Category = [], ContentAvailable = False,
     MutableContent = False, Sound = [], ThreadID = [], URLArgs = []\<rparr>"

definition sample_store :: store where
  "sample_store = [[''aps'' \<mapsto> VMap (Some 1), ''id'' \<mapsto> VInt 7], [''badge'' \<mapsto> VInt 3], [''id'' \<mapsto> VInt 8]]"

lemma sample_raw:
  "raw_aps \<lparr>pAPS = Some sample_aps, Raw = Some 0, json = None\<rparr> sample_store = Some (Some 1)"
  "raw_aps \<lparr>pAPS = Some sample_aps, Raw = Some 2, json = None\<rparr> sample_store = None"
  by (simp_all add: raw_aps_def contents_def sample_store_def)


text \<open>
  Without a map under the raw \<open>aps\<close>, merging is pure: every map the caller has is as it was.
\<close>

theorem merge_leaves_caller_maps:
  assumes "pAPS p = Some a" and "raw_aps p st = None" and "y < length st"
  shows "\<exists>res st'. mergedMap p st = Some (res, st') \<and> st' ! y = st ! y"
  using mergedMap_fresh [OF assms(1,2)] assms(3) by (simp add: nth_append)

theorem merge_leaves_caller_maps_witness:
  "\<exists>res st'. mergedMap \<lparr>pAPS = Some sample_aps, Raw = Some 2, json = None\<rparr> sample_store
     = Some (res, st') \<and> st' ! 1 = sample_store ! 1"
  by (rule merge_leaves_caller_maps) (simp_all add: sample_raw, simp add: sample_store_def)

text \<open>
  With one, merging is not: the copy is shallow, so the fields are assigned to the caller's
  own nested map, which every other payload that shares it then sends too.
\<close>

theorem merge_changes_caller_map:
  assumes "pAPS p = Some a" and "raw_aps p st = Some (Some x)" and "x < length st"
  shows "\<exists>res st'. mergedMap p st = Some (res, st') \<and>
           st' ! x = (st ! x) ++ map_of (aps_fields a)"
  using mergedMap_nested [OF assms] assms(3) by (simp add: nth_append assign_fields)

theorem merge_changes_caller_map_witness:
  "\<exists>res st'. mergedMap \<lparr>pAPS = Some sample_aps, Raw = Some 0, json = None\<rparr> sample_store
     = Some (res, st') \<and> (st' ! 1) ''alert'' = Some (VStr ''hi'') \<and> (sample_store ! 1) ''alert'' = None"
  using merge_changes_caller_map [OF _ sample_raw(1)]
  by (auto simp: sample_store_def sample_aps_def aps_fields_def map_add_def)

text \<open>
  The JSON of a payload is settled by the first marshalling that succeeds: from then on every
  call returns those bytes and does not look at the dictionaries again, whatever they hold by
  then; a marshalling that fails settles nothing.
\<close>

theorem json_settled:
  assumes "MarshalJSON marshal p st = Some (r, p', st')"
  shows "case r of
           Inr j \<Rightarrow> MarshalJSON marshal' (p'\<lparr>pAPS := a, Raw := m\<rparr>) st'' = Some (Inr j, p'\<lparr>pAPS := a, Raw := m\<rparr>, st'')
         | Inl e \<Rightarrow> json p = None \<and> p' = p"
  using assms by (auto simp: MarshalJSON_def split: option.splits sum.splits)

theorem json_settled_witness:
  "MarshalJSON (\<lambda>_ _. Inl ErrCanceled) \<lparr>pAPS = None, Raw = Some 2, json = Some ''{}''\<rparr> [] =
     Some (Inr ''{}'', \<lparr>pAPS = None, Raw = Some 2, json = Some ''{}''\<rparr>, [])"
  using json_settled [where marshal = "\<lambda>_ _. Inr ''{}''" and
      p = "\<lparr>pAPS = None, Raw = Some 0, json = None\<rparr>" and st = sample_store and r = "Inr ''{}''" and
      p' = "\<lparr>pAPS = None, Raw = Some 0, json = Some ''{}''\<rparr>" and st' = sample_store and
      marshal' = "\<lambda>_ _. Inl ErrCanceled" and a = None and m = "Some 2" and st'' = "[]"]
  by (simp add: MarshalJSON_def mergedMap_def)

end
