(* ===== verification/Log.thy ===== *)
theory Log
  imports Prelude
begin

text \<open>
  \<open>apns2/log.go\<close>: severities and the selection and formatting of log entries. \<open>logTag\<close> returns
  the format that is given to \<open>Log.Printf\<close>, or \<open>None\<close> when the entry is not logged; \<open>level\<close> is the
  package variable \<open>LogLevel\<close>.
\<close>

type_synonym Severity = int

definition LogError :: Severity where
  "LogError = 0"

definition LogWarn :: Severity where
  "LogWarn = 1"

definition LogNotice :: Severity where
  "LogNotice = 2"

definition LogInfo :: Severity where
  "LogInfo = 3"

lemmas severities = LogError_def LogWarn_def LogNotice_def LogInfo_def

definition severityStrs :: "Severity \<Rightarrow> string option" where
  "severityStrs =
     [LogError \<mapsto> ''ERROR '', LogWarn \<mapsto> ''WARNING '', LogNotice \<mapsto> ''NOTICE '', LogInfo \<mapsto> ''INFO '',
      LogInfo + 1 \<mapsto> ''TRACE '']"

definition Severity_Bound :: "Severity \<Rightarrow> Severity" where
  "Severity_Bound t = (if t < LogError then LogError else if t > LogInfo then LogInfo + 1 else t)"

text \<open>A missing key of the map would give the empty string.\<close>

definition Severity_String :: "Severity \<Rightarrow> string" where
  "Severity_String t = (case severityStrs (Severity_Bound t) of Some s \<Rightarrow> s | None \<Rightarrow> [])"

definition LogTrace :: "u64 \<Rightarrow> Severity" where
  "LogTrace traceLevel = i64 (LogInfo + sint (traceLevel + 1))"

definition logTag :: "Severity \<Rightarrow> string \<Rightarrow> Severity \<Rightarrow> string \<Rightarrow> string option" where
  "logTag level ident tag format =
     (if tag > level then None
      else let format1 = Severity_String tag @ format
           in Some (if length ident > 0 then ident @ '': '' @ format1 else format1))"

definition logWarn :: "Severity \<Rightarrow> string \<Rightarrow> string \<Rightarrow> string option" where
  "logWarn level ident format = logTag level ident LogWarn format"

definition logInfo :: "Severity \<Rightarrow> string \<Rightarrow> string \<Rightarrow> string option" where
  "logInfo level ident format = logTag level ident LogInfo format"

definition logTrace :: "u64 \<Rightarrow> Severity \<Rightarrow> string \<Rightarrow> string \<Rightarrow> string option" where
  "logTrace lvl level ident format = logTag level ident (i64 (LogInfo + sint (lvl + 1))) format"

section \<open>Properties\<close>

lemma sint_trace:
  assumes "uint (lvl :: u64) < 2 ^ 32"
  shows "i64 (LogInfo + sint (lvl + 1)) = 4 + uint lvl"
proof -
  have u: "uint (lvl + 1) = uint lvl + 1" using assms by (simp add: uint_word_ariths)
  have nn: "0 \<le> uint lvl" by simp
  have "sint (lvl + 1) = signed_take_bit 63 (uint (lvl + 1))" by (simp add: sint_uint)
  also have "\<dots> = uint lvl + 1"
    unfolding u using assms nn by (intro signed_take_bit_int_eq_self) auto
  finally show ?thesis using assms nn by (simp add: LogInfo_def i64_id)
qed

lemma String_trace: "4 \<le> k \<Longrightarrow> Severity_String k = ''TRACE ''"
  by (simp add: Severity_String_def Severity_Bound_def severityStrs_def severities)

text \<open>
  Every severity has a name and trace entries are selected by their level: bounding is
  idempotent and lands on one of the five named severities, so that no entry loses its label;
  and an entry of trace level \<open>n\<close> is logged exactly when \<open>LogLevel\<close> is at least \<open>LogInfo + 1 + n\<close>,
  with the label \<open>TRACE\<close>.
\<close>

theorem log_selection:
  assumes "uint n < 2 ^ 32"
  shows "Severity_Bound (Severity_Bound t) = Severity_Bound t \<and> severityStrs (Severity_Bound t) \<noteq> None \<and>
         logTrace n level ident format =
           (if LogInfo + 1 + uint n \<le> level
            then Some ((if ident = [] then [] else ident @ '': '') @ ''TRACE '' @ format) else None)"
proof -
  have "Severity_Bound t \<in> {0, 1, 2, 3, 4}"
    by (auto simp: Severity_Bound_def severities)
  then have "severityStrs (Severity_Bound t) \<noteq> None"
    by (auto simp: severityStrs_def severities)
  moreover have "Severity_Bound (Severity_Bound t) = Severity_Bound t"
    by (simp add: Severity_Bound_def severities)
  moreover have "Severity_String (4 + uint n) = ''TRACE ''" by (rule String_trace) simp
  ultimately show ?thesis
    unfolding logTrace_def sint_trace [OF assms] by (simp add: logTag_def LogInfo_def)
qed

theorem log_selection_witness:
  "logTrace 2 LogInfo ''id'' ''format'' = None"
  using log_selection [of 2 0 LogInfo "''id''" "''format''"] by (simp add: LogInfo_def)

end
