(* ===== verification/Spec2Isabelle.thy ===== *)
theory Spec2Isabelle
  imports Governor Backpressure HttpClient Flow Transport Units Payload Auth Log
begin

text \<open>
  A verification development for go-apns, a client of the Apple Push Notification service. This
  theory is the root: it imports every other theory, and relates the connection of a streamer in
  the composed pipeline to the monitor that guards it.

  The program. A \<open>Client\<close> (\<open>apns2/client.go\<close>) takes push requests from its queue or from calls of
  \<open>Push\<close>, and its submitter sends them on an outbound channel. Streamers (\<open>apns2/streamer.go\<close>)
  receive them there; each owns one HTTP/2 connection (\<open>apns2/http.go\<close>), reserves a stream for a
  request, and runs one goroutine for the round trip. A request that fails in a way that can be
  retried goes to the retry forwarder (\<open>apns2/dispatch.go\<close>) and back to the submitter. The
  governor (\<open>apns2/dispatch.go\<close>) starts streamers through launchers, samples the counters of
  package \<open>syncx\<close> at each poll, decides whether more streamers are needed, and spaces out connection
  attempts with the back-off tracker (\<open>apns2/backoff.go\<close>). Its arithmetic is on the scalers of
  package \<open>scale\<close> and the units of package \<open>funit\<close>. \<open>Stop\<close> closes the outbound channel and waits
  for the governor; \<open>Kill\<close> closes the control channels.

  Theories, and what they model.

    \<^item> \<open>Prelude\<close>: machine types (\<open>u32\<close>, \<open>u64\<close>), the wrap-around of signed 64-bit integers, truncated
      division, Go channels under \<open>close\<close>, and the generic lemmas on words and lists.
    \<^item> \<open>Syncx\<close> (\<open>syncx/counter.go\<close>, \<open>syncx/ticktock.go\<close>): \<open>Counter\<close>, \<open>TickTockCounter\<close> and
      \<open>TickTockFolder\<close> as 64-bit words. A draw is a load followed by a subtraction; the operations
      of other goroutines in between are an argument of its definition. The locale \<open>drawer\<close> states
      the contract of a draw; conservation of the counts over any run is proved there once, and
      interpreted for the three counters.
    \<^item> \<open>Floats\<close>, \<open>Scale\<close>, \<open>Funit\<close>, \<open>Units\<close>: \<open>float32\<close> and \<open>float64\<close> as integer mantissa and exponent with
      rounding to nearest even; the scalers of \<open>scale/scale.go\<close> and their inverses, with the locale
      \<open>scaler\<close> for what the governor relies on; the units and \<open>AsDuration\<close> of \<open>funit\<close>.
    \<^item> \<open>Response\<close> (\<open>apns2/response.go\<close>): statuses, rejection reasons and the timestamp parser.
    \<^item> \<open>Backoff\<close> (\<open>apns2/backoff.go\<close>): \<open>update\<close> returns None where the code panics.
    \<^item> \<open>Dispatch\<close> (\<open>apns2/comm.go\<close>, first half of \<open>apns2/dispatch.go\<close>): \<open>CommsCfg\<close>, \<open>ProcCfg\<close> and its
      presets, the moving accumulator, \<open>waitCounter\<close>, \<open>updateCountersAndEvalScaling\<close>,
      \<open>allowedScaleDelta\<close>. The ring buffer is shown equal to the sum over a window, and the verdict
      is refined to one stated over the whole history of samples.
    \<^item> \<open>Governor\<close> (rest of \<open>apns2/dispatch.go\<close>): the reactions of \<open>governor.run\<close> to each event are
      functions on the governor's record; the step relation \<open>gstep\<close> interleaves them with
      launchers and streamers. The record stays well formed, so that no handler panics, and
      \<open>MaxConns\<close> is kept.
    \<^item> \<open>Http2x\<close>, \<open>HttpClient\<close>, \<open>Authority\<close> (\<open>http2x/reflect.go\<close>, \<open>apns2/http.go\<close>): the reflection
      guards; the monitor that hands out HTTP/2 streams, its poller and its closing, as the step
      relation \<open>hstep\<close>, with the locale \<open>signalling\<close> for condition variables; \<open>authorityAddr\<close>.
    \<^item> \<open>Transport\<close> (\<open>NewHTTPClient\<close>, \<open>makeDialer\<close>, \<open>streamer.start\<close>): the TLS configuration and address
      of a connection, from the certificates that \<open>Crypto\<close> reads, and the start of a streamer.
    \<^item> \<open>Notification\<close>, \<open>Payload\<close>, \<open>Request\<close> (the files of these names and \<open>apns2/result.go\<close>): headers
      with their cache, the body reader, merging of payload dictionaries over a store of maps, the
      cached JSON, the members of an alert, requests and the checks that they can be authenticated.
    \<^item> \<open>Auth\<close> (\<open>apns2/auth.go\<close>): \<open>GetToken\<close> and its double-checked renewal, with concurrent callers
      as the step relation \<open>astep\<close>.
    \<^item> \<open>Streamer\<close> (\<open>apns2/streamer.go\<close>): the decisions of \<open>exec\<close>, \<open>submit\<close>, \<open>isRetriable\<close>,
      \<open>isConnUsable\<close> and \<open>callBack\<close> as functions, the attempts at one request (\<open>serve\<close>), and the loop
      with its round trips as the step relation \<open>sstep\<close>.
    \<^item> \<open>Forwarder\<close> (\<open>runRetryForwarder\<close>, \<open>bufferedForwarder\<close>): the step relation \<open>fstep\<close>.
    \<^item> \<open>Client\<close> (\<open>apns2/client.go\<close>): the parts of \<open>Start\<close>, \<open>Stop\<close>, \<open>Kill\<close>, \<open>Push\<close> and the submitter that
      run under the mutex, and the step relation \<open>cstep\<close> of callers, submitter, governor's end and
      users of the channels.
    \<^item> \<open>Pipeline\<close>, \<open>Delivery\<close>, \<open>Drain\<close>, \<open>Flow\<close>: the composition. \<open>Pipeline\<close> joins the submitter, the
      streamers (\<open>lstep\<close>) and the retry forwarder (\<open>fint\<close>) into one step relation over the requests
      that they pass on: \<open>pint\<close> is what the client does by itself, \<open>penv\<close> what comes from outside.
      Two interpretations of the locale \<open>simulation\<close> show that a streamer and the forwarder do in
      it only what \<open>sstep\<close> and \<open>fstep\<close> allow. \<open>Delivery\<close> shows where each request is, \<open>Drain\<close> that the
      work left bounds the client's own steps and that at rest nothing is left, as long as the
      forwarder cannot fill up. \<open>Flow\<close> states the properties, with the runs that show where
      they end: the stall by retries and the retry that a soft stop leaves behind.
    \<^item> \<open>Backpressure\<close>: the client with the governor's folds of its wait counter, and the balance of that
      counter with the goroutines that are blocked in \<open>submit\<close>.
    \<^item> \<open>Log\<close>, \<open>Crypto\<close> (\<open>apns2/log.go\<close>, \<open>cryptox/crypto.go\<close>): selection of log entries; loading of
      keys and certificates.

  How state and operations correspond. A Go struct is a record with the fields the modelled code
  reads or writes. Code that runs under one mutex, or between two communications of a goroutine,
  is a function on the record. Goroutines are program counters in the record of a system, and a
  step relation lets any goroutine that can move do so; what is reachable covers every
  interleaving. A channel that carries data is reduced to what the code can observe of it: nil,
  open or closed, and its buffer where it has one. Closing a nil or closed channel and sending
  on a closed one are panics: the value None, or a flag of the system. Streamers, launchers,
  callers and requests are named by numbers.

  What is a parameter. The result of converting a float that is out of range (\<open>oor\<close>), which the Go
  specification leaves to the implementation; the random source (\<open>rnd\<close>) and the clock; the
  signing of tokens; \<open>json.Marshal\<close>; the conversion of a host name to ASCII; the decoders and
  parsers of the standard library for keys and certificates; the reports of an HTTP/2 connection on
  its concurrent streams and the layout of the HTTP/2 library's structs. Hypotheses on them are
  stated in the theorems that need them and met by concrete functions in their witnesses.

  What the lemmas show. Each component has the invariant of its state and its preservation by every
  step, the functional behaviour of each operation with its errors, and, where the code is an
  optimised or incremental version of something simpler, its equivalence with that. Where the code
  does not keep what its comments promise, the theorem says what it does, with a run of the
  step relation that shows it.

  Bounds and termination. No definition uses fuel. The loops of \<open>serve\<close>,
  \<open>drain\<close> and of the floating-point normalisation are functions with a proved measure.
  The loops over PEM blocks are partial functions, None when they do not return; they are shown to
  return when the decoder consumes its input. The number 602 of theory \<open>Drain\<close> is the
  room in the forwarder: 100 in its channel, one in hand, 500 in the buffer and one in the hand of
  the buffer's reader. The counters have 32-bit halves: their theorems assume fewer than \<open>2 ^
  32\<close> counts between two draws. \<open>scaler_progress\<close> and
  \<open>exponential_exact\<close> state the ranges in which the 32-bit floats are exact.

  What is not modelled. The output of log entries, the text encoding of \<open>json.Marshal\<close>, the test
  harness and the example program, and the closing of the queue and \<open>Kill\<close> in the composed
  pipeline (theory \<open>Client\<close> has both). Nothing is assumed of the scheduler's
  fairness: liveness is stated as what holds in states in which no goroutine can move, with a
  bound on the steps until then, or as the existence of a run.
\<close>

section \<open>A connection in the pipeline and its monitor\<close>

text \<open>
  The composed pipeline counts the open round trips of a streamer; the monitor counts its
  reservations. When the two agree, a streamer waits in one exactly when it waits in the other, and
  a reservation that succeeds keeps them in agreement with one more round trip.
\<close>

definition same_connection :: "'j pstr \<Rightarrow> httpc \<Rightarrow> bool" where
  "same_connection st c \<longleftrightarrow>
     effCap c = st_cap st \<and> unat (cnt c) = length (filter holds_stream (st_trips st))"

lemma same_waiting: "same_connection st c \<Longrightarrow> blocked c \<longleftrightarrow> no_stream st"
  by (simp add: same_connection_def blocked_def no_stream_def word_le_nat_alt)

lemma same_reservation:
  assumes "same_connection st c" and "try_reserve c None = Reserved c'" and "unat (cnt c) + 1 < 2 ^ 32"
  shows "same_connection (st\<lparr>st_trips := st_trips st @ [PFlight r]\<rparr>) c'"
  using assms unat_suc [of "cnt c"]
  by (auto simp: same_connection_def try_reserve_def split: if_splits)

end
